(* ===== verification/Base.thy ===== *)
theory Base
  imports Main "HOL-Library.Word" "HOL-Library.AList" "HOL-Library.Sublist"
begin

text \<open>
  The prelude of the development: the types every component shares (Go's
  \<^verbatim>\<open>uint64\<close>, byte strings, run-time panics), Go maps as association lists with the
  contract their clients use, the \<^verbatim>\<open>strings\<close> functions of the Go standard
  library that the sources call, and the generic list lemmas of the component proofs.
\<close>

section \<open>Shared types\<close>

type_synonym u64 = "64 word"
type_synonym u32 = "32 word"
type_synonym bytes = string

text \<open>The run-time panics of Go that the modelled code can reach.\<close>

datatype go_panic = NilDereference | IndexOutOfRange | InvalidState | DivideByZero | MakeSliceLen

text \<open>
  The outcome of a call that may not return (\<open>None\<close>) and may panic (\<open>Inl\<close>), and how a caller
  goes on with it.
\<close>

type_synonym 'a go = "(go_panic + 'a) option"

definition goret :: "'a \<Rightarrow> 'a go" where
  "goret x = Some (Inr x)"

definition gobind :: "'a go \<Rightarrow> ('a \<Rightarrow> 'b go) \<Rightarrow> 'b go" where
  "gobind m f = (case m of None \<Rightarrow> None | Some (Inl p) \<Rightarrow> Some (Inl p) | Some (Inr x) \<Rightarrow> f x)"

lemma gobind_goret [simp]: "gobind (goret x) f = f x"
  by (simp add: gobind_def goret_def)

lemma gobind_eq_goret: "gobind m f = goret y \<longleftrightarrow> (\<exists>x. m = goret x \<and> f x = goret y)"
  by (auto simp: gobind_def goret_def split: option.splits sum.splits)

lemma goret_eq_iff [simp]: "goret x = goret y \<longleftrightarrow> x = y"
  by (simp add: goret_def)

named_theorems gomap "rewrite rules of the Go map operations"
named_theorems inv_intro "introduction rules of the component invariants"

section \<open>Go maps\<close>

text \<open>
  A Go map is an association list with distinct keys, so that \<^verbatim>\<open>len\<close> and
  \<^verbatim>\<open>range\<close> are computable. Iteration order is unspecified in Go: theorems about
  a \<^verbatim>\<open>range\<close> loop never mention the order.
\<close>

type_synonym ('k, 'v) gomap = "('k \<times> 'v) list"

definition mget :: "('k, 'v) gomap \<Rightarrow> 'k \<Rightarrow> 'v option" where
  "mget m k = map_of m k"

definition mput :: "'k \<Rightarrow> 'v \<Rightarrow> ('k, 'v) gomap \<Rightarrow> ('k, 'v) gomap" where
  "mput k v m = AList.update k v m"

definition mdel :: "'k \<Rightarrow> ('k, 'v) gomap \<Rightarrow> ('k, 'v) gomap" where
  "mdel k m = AList.delete k m"

definition mwf :: "('k, 'v) gomap \<Rightarrow> bool" where
  "mwf m = distinct (map fst m)"

text \<open>\<^verbatim>\<open>m[k]\<close> with the zero value of the element type for an absent key.\<close>

definition mzero :: "'v \<Rightarrow> ('k, 'v) gomap \<Rightarrow> 'k \<Rightarrow> 'v" where
  "mzero z m k = (case mget m k of None \<Rightarrow> z | Some v \<Rightarrow> v)"

lemma mget_Nil [simp, gomap]: "mget [] k = None"
  by (simp add: mget_def)

lemma mget_Cons: "mget (p # m) k = (if fst p = k then Some (snd p) else mget m k)"
  by (simp add: mget_def)

lemma mget_mput [simp, gomap]: "mget (mput k v m) k' = (if k' = k then Some v else mget m k')"
  by (simp add: mget_def mput_def update_conv')

lemma mget_mdel [simp, gomap]: "mget (mdel k m) k' = (if k' = k then None else mget m k')"
  by (simp add: mget_def mdel_def delete_conv')

lemma mwf_Nil [simp, inv_intro]: "mwf []"
  by (simp add: mwf_def)

lemma mwf_mput [simp, inv_intro]: "mwf m \<Longrightarrow> mwf (mput k v m)"
  by (simp add: mwf_def mput_def distinct_update)

lemma mwf_mdel [simp, inv_intro]: "mwf m \<Longrightarrow> mwf (mdel k m)"
  by (simp add: mwf_def mdel_def distinct_delete)

lemma mget_in_set: "mget m k = Some v \<Longrightarrow> (k, v) \<in> set m"
  by (simp add: mget_def map_of_SomeD)

lemma mget_iff_set: "mwf m \<Longrightarrow> mget m k = Some v \<longleftrightarrow> (k, v) \<in> set m"
  by (simp add: mget_def mwf_def)

lemma mget_None_iff: "mget m k = None \<longleftrightarrow> k \<notin> fst ` set m"
  by (simp add: mget_def map_of_eq_None_iff)

lemma mget_all_None: "(\<forall>k. mget m k = None) \<longleftrightarrow> m = []"
  by (cases m) (auto simp: mget_def)

lemma keys_mput: "fst ` set (mput k v m) = insert k (fst ` set m)"
  by (simp add: mput_def dom_update)

lemma keys_mdel: "fst ` set (mdel k m) = fst ` set m - {k}"
  by (simp add: mdel_def AList.delete_eq) force

lemma length_mdel:
  assumes "mwf m" "mget m k = Some v"
  shows "length (mdel k m) = length m - 1"
proof -
  have "card (fst ` set (mdel k m)) = card (fst ` set m - {k})"
    by (simp add: keys_mdel)
  moreover have "k \<in> fst ` set m"
    using assms(2) mget_None_iff [of m k] by auto
  moreover have "card (fst ` set m) = length m" "card (fst ` set (mdel k m)) = length (mdel k m)"
    using assms(1) mwf_mdel [OF assms(1), of k]
    by (metis distinct_card length_map list.set_map mwf_def)+
  ultimately show ?thesis by simp
qed

lemma length_mput_new: "mget m k = None \<Longrightarrow> length (mput k v m) = Suc (length m)"
  by (induction m) (auto simp: mget_def mput_def split: if_splits)

lemma length_mput_old: "mget m k = Some w \<Longrightarrow> length (mput k v m) = length m"
  by (induction m) (auto simp: mget_def mput_def split: if_splits)

text \<open>
  The contract a Go map offers its clients, in the style of an abstract map
  specification: what a read returns after a store or a \<^verbatim>\<open>delete\<close>.
\<close>

locale go_map =
  fixes get :: "'m \<Rightarrow> 'k \<Rightarrow> 'v option"
    and put :: "'k \<Rightarrow> 'v \<Rightarrow> 'm \<Rightarrow> 'm"
    and del :: "'k \<Rightarrow> 'm \<Rightarrow> 'm"
    and wf :: "'m \<Rightarrow> bool"
    and len :: "'m \<Rightarrow> nat"
  assumes get_put: "get (put k v m) = (get m)(k \<mapsto> v)"
    and get_del: "get (del k m) = (get m)(k := None)"
    and wf_put: "wf m \<Longrightarrow> wf (put k v m)"
    and wf_del: "wf m \<Longrightarrow> wf (del k m)"
    and len_card: "wf m \<Longrightarrow> len m = card (dom (get m))"
    and finite_get: "finite (dom (get m))"
begin

lemma len_put: "wf m \<Longrightarrow> len (put k v m) = (if get m k = None then Suc (len m) else len m)"
  using finite_get [of m] by (auto simp: len_card wf_put get_put domIff insert_absorb)

lemma len_del: "wf m \<Longrightarrow> len (del k m) = (if get m k = None then len m else len m - 1)"
  using finite_get [of m] by (auto simp: len_card wf_del get_del domIff)

lemma len_0: "wf m \<Longrightarrow> len m = 0 \<longleftrightarrow> get m = Map.empty"
  using finite_get [of m] by (auto simp: len_card)

lemma put_del: "get (del k (put k v m)) = (get m)(k := None)"
  by (simp add: get_put get_del)

end

interpretation alm: go_map mget mput mdel mwf "length :: ('k, 'v) gomap \<Rightarrow> nat"
proof unfold_locales
  fix m :: "('k, 'v) gomap"
  show "length m = card (dom (mget m))" if "mwf m"
  proof -
    have "dom (mget m) = fst ` set m"
      by (simp add: mget_def [abs_def] dom_map_of_conv_image_fst)
    with that show ?thesis
      by (metis distinct_card length_map list.set_map mwf_def)
  qed
  show "finite (dom (mget m))"
    by (simp add: mget_def [abs_def] finite_dom_map_of)
qed (simp_all add: fun_eq_iff)

section \<open>The strings package\<close>

text \<open>\<^verbatim>\<open>strings.Contains(s, sub)\<close>.\<close>

definition Contains :: "string \<Rightarrow> string \<Rightarrow> bool" where
  "Contains s sub = sublist sub s"

lemma Contains_char: "Contains s [c] \<longleftrightarrow> c \<in> set s"
  by (auto simp: Contains_def sublist_def in_set_conv_decomp)

lemma Contains_self [simp]: "Contains s s"
  by (simp add: Contains_def)

lemma Contains_Nil [simp]: "Contains s [] = True"
  by (simp add: Contains_def)

lemma Contains_set: "Contains s sub \<Longrightarrow> set sub \<subseteq> set s"
  by (auto simp: Contains_def sublist_def)

text \<open>\<^verbatim>\<open>strings.Index(s, sub)\<close>: the first byte offset, \<^verbatim>\<open>-1\<close> (here
  \<open>None\<close>) when absent.\<close>

fun Index :: "string \<Rightarrow> string \<Rightarrow> nat option" where
  "Index [] sub = (if sub = [] then Some 0 else None)"
| "Index (c # s) sub =
     (if prefix sub (c # s) then Some 0 else map_option Suc (Index s sub))"

text \<open>\<^verbatim>\<open>strings.Join(elems, sep)\<close>.\<close>

fun Join :: "string list \<Rightarrow> string \<Rightarrow> string" where
  "Join [] sep = []"
| "Join [x] sep = x"
| "Join (x # xs) sep = x @ sep @ Join xs sep"

lemma Join_Cons: "xs \<noteq> [] \<Longrightarrow> Join (x # xs) sep = x @ sep @ Join xs sep"
  by (cases xs) auto

lemma Join_snoc: "xs \<noteq> [] \<Longrightarrow> Join (xs @ [x]) sep = Join xs sep @ sep @ x"
proof (induction xs)
  case (Cons y ys)
  then show ?case by (cases "ys = []") (auto simp: Join_Cons)
qed simp

lemma Join_append:
  "xs \<noteq> [] \<Longrightarrow> ys \<noteq> [] \<Longrightarrow> Join (xs @ ys) sep = Join xs sep @ sep @ Join ys sep"
proof (induction xs)
  case (Cons x xs)
  then show ?case by (cases "xs = []") (simp_all add: Join_Cons)
qed simp

lemma set_Join: "c \<in> set (Join xs sep) \<Longrightarrow> c \<in> set sep \<or> (\<exists>x \<in> set xs. c \<in> set x)"
  by (induction xs sep rule: Join.induct) auto

section \<open>Lists\<close>

lemma list_all_enumerate:
  "list_all (\<lambda>(i, x). P i x) (enumerate n xs) \<longleftrightarrow> (\<forall>i < length xs. P (n + i) (xs ! i))"
  by (auto simp: list_all_length nth_enumerate_eq)

lemma list_all_upt: "list_all P [m..<n] \<longleftrightarrow> (\<forall>i. m \<le> i \<and> i < n \<longrightarrow> P i)"
  by (auto simp: list_all_iff)

lemma filter_takeWhile_sorted:
  "sorted_wrt R (xs @ [x]) \<Longrightarrow> y \<in> set xs \<Longrightarrow> R y x"
  by (simp add: sorted_wrt_append)

lemma last_mem [intro]: "xs \<noteq> [] \<Longrightarrow> last xs \<in> set xs"
  by simp

end
