(* ===== verification/Topics.thy ===== *)
theory Topics
  imports Base
begin

text \<open>
  Package \<^verbatim>\<open>pkg/topics\<close>: segment splitting, topic validation, pattern matching
  (\<^verbatim>\<open>matcher.go\<close>) and the namespaced channel grammar (\<^verbatim>\<open>namespace.go\<close>).
  The loops of the source are index loops; \<open>split_segs\<close> and \<open>seg_match\<close> are the
  structural reference definitions they are shown equal to.
\<close>

section \<open>Definitions\<close>

datatype topic_error = ErrBadTopic | ErrBadSubscriber | ErrBadNamespace | ErrBadChannel

abbreviation delimiter :: string where "delimiter \<equiv> ''.''"
abbreviation wildcard :: string where "wildcard \<equiv> ''*''"
abbreviation multiWildcard :: string where "multiWildcard \<equiv> ''**''"
abbreviation NSDelimiter :: string where "NSDelimiter \<equiv> '':''"

definition is_delim :: "char \<Rightarrow> bool" where
  "is_delim c \<longleftrightarrow> c = CHR ''.'' \<or> c = CHR '':''"

text \<open>\<^verbatim>\<open>s[a:b]\<close>.\<close>

definition slice :: "'a list \<Rightarrow> nat \<Rightarrow> nat \<Rightarrow> 'a list" where
  "slice s a b = take (b - a) (drop a s)"

text \<open>The loop of \<^verbatim>\<open>SplitSegments\<close>, over the byte index \<open>i\<close>.\<close>

function split_loop :: "string \<Rightarrow> nat \<Rightarrow> nat \<Rightarrow> string list \<Rightarrow> string list" where
  "split_loop s i start segs =
     (if i < length s
      then if is_delim (s ! i)
           then split_loop s (i + 1) (i + 1) (segs @ [slice s start i])
           else split_loop s (i + 1) start segs
      else segs @ [drop start s])"
  by pat_completeness auto
termination
  by (relation "measure (\<lambda>(s, i, start, segs). length s - i)") auto

declare split_loop.simps [simp del]

definition SplitSegments :: "string \<Rightarrow> string list" where
  "SplitSegments s = split_loop s 0 0 []"

definition IsWildcard :: "string \<Rightarrow> bool" where
  "IsWildcard ch = Contains ch wildcard"

definition validTopic :: "string \<Rightarrow> bool" where
  "validTopic topic =
     (let constituents = SplitSegments topic; lst = length constituents - 1
      in list_all (\<lambda>(i, c).
           \<not> (c = []) \<and>
           \<not> (Contains c multiWildcard \<and> (i \<noteq> lst \<or> c \<noteq> multiWildcard)))
         (enumerate 0 constituents))"

definition ValidateTopic :: "string \<Rightarrow> topic_error option" where
  "ValidateTopic topic = (if \<not> validTopic topic then Some ErrBadTopic else None)"

definition matchCriteria :: "string \<Rightarrow> string \<Rightarrow> bool" where
  "matchCriteria pattern topic =
     (let patternConstituents = SplitSegments pattern;
          topicConstituents = SplitSegments topic
      in if list_ex (\<lambda>c. c = []) topicConstituents then False
         else
           let multi = (patternConstituents \<noteq> [] \<and> last patternConstituents = multiWildcard);
               ps = (if multi then butlast patternConstituents else patternConstituents)
           in if multi \<and> length topicConstituents < length ps then False
              else
                let ts = (if multi then take (length ps) topicConstituents else topicConstituents)
                in if length ps \<noteq> length ts then False
                   else list_all (\<lambda>i. \<not> (ts ! i \<noteq> ps ! i \<and> ps ! i \<noteq> wildcard)) [0..<length ts])"

definition Match :: "string \<Rightarrow> string \<Rightarrow> bool" where
  "Match pattern topic = matchCriteria pattern topic"

subsection \<open>Namespaces\<close>

definition namespaceMaxLen :: nat where "namespaceMaxLen = 32"

definition splitNamespace :: "string \<Rightarrow> (string \<times> string) option" where
  "splitNamespace channel =
     (case Index channel NSDelimiter of
        None \<Rightarrow> None
      | Some i \<Rightarrow>
          if Contains (drop (i + 1) channel) NSDelimiter then None
          else Some (take i channel, drop (i + 1) channel))"

definition is_lower :: "char \<Rightarrow> bool" where
  "is_lower c \<longleftrightarrow> 97 \<le> (of_char c :: nat) \<and> (of_char c :: nat) \<le> 122"

definition is_digit :: "char \<Rightarrow> bool" where
  "is_digit c \<longleftrightarrow> 48 \<le> (of_char c :: nat) \<and> (of_char c :: nat) \<le> 57"

definition validNamespace :: "string \<Rightarrow> bool" where
  "validNamespace ns =
     (if length ns = 0 \<or> length ns > namespaceMaxLen then False
      else list_all (\<lambda>(i, c).
             if is_lower c \<or> is_digit c then True
             else if c = CHR ''-'' then \<not> (i = 0 \<or> i = length ns - 1)
             else False) (enumerate 0 ns))"

definition ValidateNamespace :: "string \<Rightarrow> topic_error option" where
  "ValidateNamespace ns = (if \<not> validNamespace ns then Some ErrBadNamespace else None)"

definition ValidateChannel :: "string \<Rightarrow> topic_error option" where
  "ValidateChannel channel =
     (case splitNamespace channel of
        None \<Rightarrow> Some ErrBadChannel
      | Some (ns, topic) \<Rightarrow>
          if \<not> validNamespace ns \<or> \<not> validTopic topic then Some ErrBadChannel else None)"

definition NamespaceOf :: "string \<Rightarrow> topic_error + string" where
  "NamespaceOf channel =
     (case splitNamespace channel of
        None \<Rightarrow> Inl ErrBadChannel
      | Some (ns, _) \<Rightarrow> if \<not> validNamespace ns then Inl ErrBadChannel else Inr ns)"

section \<open>Splitting\<close>

text \<open>The structural reference definition of splitting.\<close>

fun split_segs :: "string \<Rightarrow> string list" where
  "split_segs [] = [[]]"
| "split_segs (c # s) =
     (if is_delim c then [] # split_segs s
      else case split_segs s of [] \<Rightarrow> [[c]] | x # xs \<Rightarrow> (c # x) # xs)"

lemma split_segs_nonempty [simp]: "split_segs s \<noteq> []"
  by (cases s) (auto split: list.splits)

lemma split_segs_append_nodelim:
  "list_all (\<lambda>c. \<not> is_delim c) u \<Longrightarrow>
   split_segs (u @ s) = (u @ hd (split_segs s)) # tl (split_segs s)"
proof (induction u)
  case Nil
  then show ?case by (cases "split_segs s") simp_all
next
  case (Cons c u)
  then show ?case by (cases "split_segs s") (simp_all split: list.split)
qed

lemma split_segs_delim: "is_delim c \<Longrightarrow> split_segs (u @ c # s) = split_segs u @ split_segs s"
  by (induction u) (auto split: list.splits simp: neq_Nil_conv)

lemma split_loop_eq:
  assumes "start \<le> i" "i \<le> length s" "list_all (\<lambda>c. \<not> is_delim c) (slice s start i)"
  shows "split_loop s i start segs = segs @ split_segs (drop start s)"
  using assms
proof (induction s i start segs rule: split_loop.induct)
  case (1 s i start segs)
  show ?case
  proof (cases "i < length s")
    case False
    with "1.prems" have "slice s start i = drop start s" by (simp add: slice_def)
    then have "split_segs (drop start s) = [drop start s]"
      using "1.prems"(3) split_segs_append_nodelim [of "drop start s" "[]"] by simp
    with False show ?thesis by (simp add: split_loop.simps [of s i])
  next
    case True
    have dec: "drop start s = slice s start i @ s ! i # drop (Suc i) s"
      using True "1.prems"(1) id_take_nth_drop [of "i - start" "drop start s"]
      by (simp add: slice_def)
    show ?thesis
    proof (cases "is_delim (s ! i)")
      case True
      have "split_segs (slice s start i) = [slice s start i]"
        using "1.prems"(3) split_segs_append_nodelim [of "slice s start i" "[]"] by simp
      moreover have "slice s (i + 1) (i + 1) = []"
        by (simp add: slice_def)
      ultimately show ?thesis
        using \<open>i < length s\<close> True "1.IH"(1) dec
        by (simp add: split_loop.simps [of s i] split_segs_delim)
    next
      case False
      have "slice s start (i + 1) = slice s start i @ [s ! i]"
        using \<open>i < length s\<close> "1.prems"(1)
        by (simp add: slice_def Suc_diff_le take_Suc_conv_app_nth)
      then show ?thesis
        using \<open>i < length s\<close> False "1.IH"(2) "1.prems"
        by (simp add: split_loop.simps [of s i])
    qed
  qed
qed

lemma SplitSegments_eq [code]: "SplitSegments s = split_segs s"
  using split_loop_eq [of 0 0 s "[]"] by (simp add: SplitSegments_def slice_def)

lemma SplitSegments_nonempty [simp]: "SplitSegments s \<noteq> []"
  by (simp add: SplitSegments_eq)

lemma split_segs_no_delim: "seg \<in> set (split_segs s) \<Longrightarrow> c \<in> set seg \<Longrightarrow> \<not> is_delim c"
proof (induction s arbitrary: seg)
  case (Cons a s)
  then show ?case
    by (cases "split_segs s") (auto split: if_splits, blast)
qed simp

text \<open>
  Weaving the segments back together with the delimiters that separated them.
\<close>

fun weave :: "string list \<Rightarrow> char list \<Rightarrow> string" where
  "weave [] ds = []"
| "weave [x] ds = x"
| "weave (x # xs) (d # ds) = x @ d # weave xs ds"
| "weave (x # xs) [] = x @ weave xs []"

lemma weave_split: "weave (split_segs s) (filter is_delim s) = s"
proof (induction s)
  case (Cons c s)
  then show ?case
    by (cases "split_segs s"; cases "tl (split_segs s)"; cases "filter is_delim s")
      (auto split: list.splits)
qed simp

lemma length_split_segs: "length (split_segs s) = Suc (length (filter is_delim s))"
  by (induction s) (auto split: list.splits)


section \<open>Matching\<close>

text \<open>The reference definition of matching, by recursion on the segments.\<close>

fun seg_match :: "string list \<Rightarrow> string list \<Rightarrow> bool" where
  "seg_match [] ts = (ts = [])"
| "seg_match (p # ps) ts =
     (p = multiWildcard \<and> ps = [] \<or>
      (case ts of [] \<Rightarrow> False | t # ts' \<Rightarrow> (t = p \<or> p = wildcard) \<and> seg_match ps ts'))"

lemma seg_match_exact:
  assumes "ps = [] \<or> last ps \<noteq> multiWildcard"
  shows "seg_match ps ts \<longleftrightarrow>
    length ps = length ts \<and> (\<forall>i < length ts. ts ! i = ps ! i \<or> ps ! i = wildcard)"
  using assms
proof (induction ps ts rule: seg_match.induct)
  case (1 ts)
  then show ?case by auto
next
  case (2 p ps ts)
  show ?case
  proof (cases ts)
    case (Cons t ts')
    have "ps = [] \<or> last ps \<noteq> multiWildcard" "\<not> (p = multiWildcard \<and> ps = [])"
      using "2.prems" by auto
    then show ?thesis
      using "2.IH" Cons by (auto simp: All_less_Suc2 nth_Cons')
  qed (use "2.prems" in auto)
qed

lemma seg_match_multi:
  "seg_match (ps @ [multiWildcard]) ts \<longleftrightarrow>
    length ps \<le> length ts \<and> (\<forall>i < length ps. ts ! i = ps ! i \<or> ps ! i = wildcard)"
proof (induction ps arbitrary: ts)
  case (Cons p ps)
  show ?case
  proof (cases ts)
    case (Cons t ts')
    then show ?thesis using Cons.IH by (auto simp: All_less_Suc2 nth_Cons')
  qed simp
qed simp

lemma matchCriteria_eq:
  "matchCriteria pattern topic \<longleftrightarrow>
    [] \<notin> set (SplitSegments topic) \<and> seg_match (SplitSegments pattern) (SplitSegments topic)"
proof -
  define P where "P = SplitSegments pattern"
  define T where "T = SplitSegments topic"
  have "P \<noteq> []" by (simp add: P_def)
  show ?thesis
  proof (cases "last P = multiWildcard")
    case True
    then have P: "P = butlast P @ [multiWildcard]"
      using \<open>P \<noteq> []\<close> append_butlast_last_id by metis
    have "seg_match P T \<longleftrightarrow> length (butlast P) \<le> length T \<and>
        (\<forall>i < length (butlast P). T ! i = butlast P ! i \<or> butlast P ! i = wildcard)"
      by (subst P) (rule seg_match_multi)
    then show ?thesis
      using True \<open>P \<noteq> []\<close>
      by (auto simp: matchCriteria_def Let_def list_ex_iff list_all_iff simp flip: P_def T_def)
  next
    case False
    then show ?thesis
      using seg_match_exact [of P T]
      by (auto simp: matchCriteria_def Let_def list_ex_iff list_all_iff simp flip: P_def T_def)
  qed
qed

lemma Match_code [code]:
  "Match pattern topic \<longleftrightarrow>
    [] \<notin> set (split_segs topic) \<and> seg_match (split_segs pattern) (split_segs topic)"
  by (simp add: Match_def matchCriteria_eq SplitSegments_eq)

lemmas Match_eq = Match_code [folded SplitSegments_eq]

section \<open>Valid topics\<close>

definition valid_segs :: "string list \<Rightarrow> bool" where
  "valid_segs segs \<longleftrightarrow> segs \<noteq> [] \<and> [] \<notin> set segs \<and>
     (\<forall>c \<in> set (butlast segs). \<not> Contains c multiWildcard) \<and>
     (Contains (last segs) multiWildcard \<longrightarrow> last segs = multiWildcard)"

lemma validTopic_eq: "validTopic topic \<longleftrightarrow> valid_segs (SplitSegments topic)"
proof -
  define S where "S = SplitSegments topic"
  have ne: "S \<noteq> []" by (simp add: S_def)
  have "validTopic topic \<longleftrightarrow> (\<forall>i < length S. S ! i \<noteq> [] \<and>
      \<not> (Contains (S ! i) multiWildcard \<and> (i \<noteq> length S - 1 \<or> S ! i \<noteq> multiWildcard)))"
    by (auto simp: validTopic_def Let_def list_all_enumerate simp flip: S_def)
  also have "\<dots> \<longleftrightarrow> valid_segs S"
  proof -
    obtain xs x where S: "S = xs @ [x]" using ne by (cases S rule: rev_cases) auto
    have R: "(\<forall>c \<in> set xs. R c) \<longleftrightarrow> (\<forall>i < length xs. R (xs ! i))" for R
      by (rule all_set_conv_all_nth)
    have "[] \<notin> set xs \<longleftrightarrow> (\<forall>c \<in> set xs. c \<noteq> [])" by auto
    then show ?thesis
      unfolding valid_segs_def S by (auto simp: nth_append less_Suc_eq R)
  qed
  finally show ?thesis by (simp add: S_def)
qed

lemma valid_segs_Cons2:
  "valid_segs (x # y # zs) \<longleftrightarrow> x \<noteq> [] \<and> \<not> Contains x multiWildcard \<and> valid_segs (y # zs)"
  by (auto simp: valid_segs_def)

lemma valid_segs_single:
  "valid_segs [x] \<longleftrightarrow> x \<noteq> [] \<and> (Contains x multiWildcard \<longrightarrow> x = multiWildcard)"
  by (auto simp: valid_segs_def)

lemma validTopic_nonempty_segs: "validTopic t \<Longrightarrow> [] \<notin> set (SplitSegments t)"
  by (simp add: validTopic_eq valid_segs_def)

text \<open>A literal topic matches itself; a pattern without any wildcard matches only topics
  with the same segments.\<close>

lemma seg_match_refl: "seg_match ts ts"
  by (induction ts) auto

lemma seg_match_literal:
  "\<forall>p \<in> set ps. CHR ''*'' \<notin> set p \<Longrightarrow> seg_match ps ts \<longleftrightarrow> ts = ps"
proof (induction ps arbitrary: ts)
  case (Cons p ps)
  then show ?case by (cases ts) auto
qed simp

lemma set_split_segs: "c \<in> set s \<Longrightarrow> \<not> is_delim c \<Longrightarrow> \<exists>seg \<in> set (split_segs s). c \<in> set seg"
  by (induction s) (auto split: list.splits if_splits)

lemma split_segs_set: "seg \<in> set (split_segs s) \<Longrightarrow> c \<in> set seg \<Longrightarrow> c \<in> set s"
proof (induction s arbitrary: seg)
  case (Cons a s)
  then show ?case
    by (cases "split_segs s") (auto split: if_splits, blast)
qed simp

lemma not_IsWildcard_segs:
  "\<not> IsWildcard ch \<longleftrightarrow> (\<forall>seg \<in> set (SplitSegments ch). CHR ''*'' \<notin> set seg)"
  by (auto simp: IsWildcard_def Contains_char SplitSegments_eq is_delim_def
      dest: split_segs_set set_split_segs [of "CHR ''*''"])


section \<open>Namespaced channels\<close>

lemma Index_char_Some:
  "Index s [c] = Some i \<longleftrightarrow> i < length s \<and> s ! i = c \<and> c \<notin> set (take i s)"
proof (induction s arbitrary: i)
  case (Cons a s)
  show ?case by (cases i) (auto simp: Cons.IH)
qed simp

lemma Index_char_None: "Index s [c] = None \<longleftrightarrow> c \<notin> set s"
  by (induction s) auto

lemma splitNamespace_Some:
  "splitNamespace ch = Some (ns, t) \<longleftrightarrow>
    ch = ns @ CHR '':'' # t \<and> CHR '':'' \<notin> set ns \<and> CHR '':'' \<notin> set t"
proof
  assume "splitNamespace ch = Some (ns, t)"
  then obtain i where "Index ch '':'' = Some i" "ns = take i ch" "t = drop (i + 1) ch"
      "CHR '':'' \<notin> set t"
    by (auto simp: splitNamespace_def Contains_char split: option.splits if_splits)
  then show "ch = ns @ CHR '':'' # t \<and> CHR '':'' \<notin> set ns \<and> CHR '':'' \<notin> set t"
    using id_take_nth_drop [of i ch] by (simp add: Index_char_Some)
next
  assume r: "ch = ns @ CHR '':'' # t \<and> CHR '':'' \<notin> set ns \<and> CHR '':'' \<notin> set t"
  then have "Index ch '':'' = Some (length ns)"
    by (simp add: Index_char_Some)
  with r show "splitNamespace ch = Some (ns, t)"
    by (simp add: splitNamespace_def Contains_char)
qed

lemma validNamespace_chars:
  "validNamespace ns \<Longrightarrow> c \<in> set ns \<Longrightarrow> is_lower c \<or> is_digit c \<or> c = CHR ''-''"
  by (auto simp: validNamespace_def list_all_enumerate in_set_conv_nth split: if_splits)

lemma validNamespace_no_special:
  assumes "validNamespace ns"
  shows "list_all (\<lambda>c. \<not> is_delim c) ns" "CHR ''*'' \<notin> set ns" "ns \<noteq> []"
  using assms validNamespace_chars [OF assms]
  by (fastforce simp: list_all_iff is_delim_def is_lower_def is_digit_def validNamespace_def)+

lemma NamespaceOf_Inr:
  "NamespaceOf ch = Inr ns \<longleftrightarrow> validNamespace ns \<and> (\<exists>t. splitNamespace ch = Some (ns, t))"
  by (auto simp: NamespaceOf_def split: option.splits if_splits)

lemma ValidateChannel_None:
  "ValidateChannel ch = None \<longleftrightarrow>
    (\<exists>ns t. splitNamespace ch = Some (ns, t) \<and> validNamespace ns \<and> validTopic t)"
  by (auto simp: ValidateChannel_def split: option.splits)

lemma ValidateChannel_NamespaceOf: "ValidateChannel ch = None \<Longrightarrow> \<exists>ns. NamespaceOf ch = Inr ns"
  by (auto simp: ValidateChannel_None NamespaceOf_Inr)

lemma SplitSegments_namespaced:
  assumes "splitNamespace ch = Some (ns, t)" "validNamespace ns"
  shows "SplitSegments ch = ns # SplitSegments t"
proof -
  have "split_segs ns = [ns]"
    using validNamespace_no_special(1) [OF assms(2)] split_segs_append_nodelim [of ns "[]"] by simp
  then show ?thesis
    using assms(1) by (simp add: splitNamespace_Some SplitSegments_eq split_segs_delim is_delim_def)
qed

lemma SplitSegments_NamespaceOf:
  "NamespaceOf ch = Inr ns \<Longrightarrow> hd (SplitSegments ch) = ns"
  by (auto simp: NamespaceOf_Inr SplitSegments_namespaced)

lemma split_segs_inj_dots:
  assumes "split_segs a = split_segs b" "CHR '':'' \<notin> set a" "CHR '':'' \<notin> set b"
  shows "a = b"
proof -
  have dots: "filter is_delim s = replicate (length (split_segs s) - 1) (CHR ''.'')"
    if "CHR '':'' \<notin> set s" for s
  proof -
    have "\<forall>c \<in> set (filter is_delim s). c = CHR ''.''"
      using that by (auto simp: is_delim_def)
    then show ?thesis by (simp add: length_split_segs flip: replicate_length_same)
  qed
  have "a = weave (split_segs a) (filter is_delim a)" by (simp add: weave_split)
  also have "\<dots> = weave (split_segs b) (filter is_delim b)"
    using assms by (simp add: dots)
  finally show ?thesis by (simp add: weave_split)
qed

lemma SplitSegments_inj:
  assumes "NamespaceOf a = Inr na" "NamespaceOf b = Inr nb" "SplitSegments a = SplitSegments b"
  shows "a = b"
proof -
  from assms(1) obtain ta where a: "splitNamespace a = Some (na, ta)" "validNamespace na"
    by (auto simp: NamespaceOf_Inr)
  from assms(2) obtain tb where b: "splitNamespace b = Some (nb, tb)" "validNamespace nb"
    by (auto simp: NamespaceOf_Inr)
  have "na = nb" "SplitSegments ta = SplitSegments tb"
    using assms(3) a b by (simp_all add: SplitSegments_namespaced)
  then show ?thesis
    using a(1) b(1) split_segs_inj_dots [of ta tb] by (simp add: splitNamespace_Some SplitSegments_eq)
qed

lemma seg_match_hd_literal:
  "seg_match (p # ps) ts \<Longrightarrow> CHR ''*'' \<notin> set p \<Longrightarrow> \<exists>ts'. ts = p # ts' \<and> seg_match ps ts'"
  by (cases ts) auto

section \<open>Literal prefixes\<close>

lemma SplitSegments_Join:
  assumes "segs \<noteq> []" "\<forall>seg \<in> set segs. \<forall>c \<in> set seg. \<not> is_delim c"
  shows "SplitSegments (Join segs ''.'') = segs"
  using assms
proof (induction segs)
  case (Cons x xs)
  have x: "split_segs x = [x]"
    using Cons split_segs_append_nodelim [of x "[]"] by (simp add: list_all_iff)
  show ?case
  proof (cases "xs = []")
    case True
    then show ?thesis using x by (simp add: SplitSegments_eq)
  next
    case False
    then show ?thesis
      using Cons x split_segs_delim [of "CHR ''.''" x]
      by (simp add: Join_Cons SplitSegments_eq is_delim_def)
  qed
qed simp

lemma SplitSegments_nodelim:
  "seg \<in> set (SplitSegments s) \<Longrightarrow> c \<in> set seg \<Longrightarrow> \<not> is_delim c"
  by (simp add: SplitSegments_eq split_segs_no_delim)

lemma Join_SplitSegments:
  assumes "CHR '':'' \<notin> set s"
  shows "Join (SplitSegments s) ''.'' = s"
proof (rule split_segs_inj_dots)
  show "split_segs (Join (SplitSegments s) ''.'') = split_segs s"
    using SplitSegments_Join [of "SplitSegments s"] SplitSegments_nodelim
    by (fastforce simp: SplitSegments_eq)
  show "CHR '':'' \<notin> set (Join (SplitSegments s) ''.'')"
    using set_Join [of "CHR '':''" "SplitSegments s" "''.''"] SplitSegments_nodelim [of _ s "CHR '':''"]
    by (auto simp: is_delim_def)
qed (rule assms)

lemma seg_match_star:
  "\<forall>p \<in> set f. CHR ''*'' \<notin> set p \<Longrightarrow> seg_match (f @ [wildcard]) ts \<longleftrightarrow> (\<exists>x. ts = f @ [x])"
proof (induction f arbitrary: ts)
  case Nil
  then show ?case by (cases ts) auto
next
  case (Cons p f)
  then show ?case by (cases ts) auto
qed

lemma seg_match_dstar:
  "\<forall>p \<in> set f. CHR ''*'' \<notin> set p \<Longrightarrow> seg_match (f @ [multiWildcard]) ts \<longleftrightarrow> (\<exists>r. ts = f @ r)"
proof (induction f arbitrary: ts)
  case (Cons p f)
  then show ?case by (cases ts) auto
qed simp


section \<open>Properties\<close>

text \<open>
  Splitting loses nothing and splits everywhere: no segment contains a delimiter, there
  is one segment more than there are delimiters, and weaving the segments with the delimiters
  of the input gives the input back.
\<close>

lemma SplitSegments_roundtrip:
  "weave (SplitSegments s) (filter is_delim s) = s \<and>
   list_all (list_all (\<lambda>c. \<not> is_delim c)) (SplitSegments s) \<and>
   length (SplitSegments s) = Suc (length (filter is_delim s))"
  by (auto simp: SplitSegments_eq weave_split length_split_segs list_all_iff
      dest: split_segs_no_delim)

text \<open>
  (C18) The index loops of \<^verbatim>\<open>matchCriteria\<close> decide the pattern language defined by
  recursion on segments: literal segments match themselves, \<^verbatim>\<open>*\<close> matches one segment, a
  final \<^verbatim>\<open>**\<close> matches any remainder, and a topic with an empty segment never matches.
\<close>

theorem Match_iff_language:
  "Match pattern topic \<longleftrightarrow>
    [] \<notin> set (SplitSegments topic) \<and> seg_match (SplitSegments pattern) (SplitSegments topic)"
  by (simp add: Match_def matchCriteria_eq)

lemma Match_namespace:
  assumes "Match pattern channel"
    and "NamespaceOf pattern = Inr ns"
    and "NamespaceOf channel = Inr ns'"
  shows "ns' = ns"
proof -
  from assms(2) obtain t where "SplitSegments pattern = ns # SplitSegments t" "validNamespace ns"
    by (auto simp: NamespaceOf_Inr SplitSegments_namespaced)
  with assms(1) obtain ts where "SplitSegments channel = ns # ts"
    using seg_match_hd_literal validNamespace_no_special(2)
    by (metis Match_def matchCriteria_eq)
  with assms(3) show ?thesis
    using SplitSegments_NamespaceOf by fastforce
qed

text \<open>
  Namespace isolation of the pattern language: a subscription pattern that carries a
  namespace only ever matches channels of that same namespace, whatever wildcards it has.
\<close>

lemma Match_same_namespace:
  assumes "Match pattern channel"
    and "NamespaceOf pattern = Inr ns"
    and "NamespaceOf channel = Inr ns'"
  shows "ns' = ns"
  by (rule Match_namespace [OF assms])

text \<open>
  Although matching works on segments and so does not see which of the two delimiters
  separated them, an exact (wildcard-free) namespaced channel matches exactly one namespaced
  channel: itself.
\<close>

lemma Match_exact_channel:
  assumes "NamespaceOf key = Inr ns" and "NamespaceOf channel = Inr ns'"
    and "\<not> IsWildcard key" and "ValidateTopic channel = None"
  shows "Match key channel \<longleftrightarrow> channel = key"
proof -
  have lit: "\<forall>seg \<in> set (SplitSegments key). CHR ''*'' \<notin> set seg"
    using assms(3) by (simp add: not_IsWildcard_segs)
  have ne: "[] \<notin> set (SplitSegments channel)"
    using assms(4) validTopic_nonempty_segs by (auto simp: ValidateTopic_def split: if_splits)
  show ?thesis
    using ne SplitSegments_inj [OF assms(2,1)]
    by (auto simp: Match_def matchCriteria_eq seg_match_literal [OF lit])
qed

end
