(* ===== verification/CSTrie.thy ===== *)
theory CSTrie
  imports Topics
begin

text \<open>
  The concurrent subscription trie of \<^verbatim>\<open>pkg/topics/cstrie.go\<close>, as one goroutine runs
  it: an I-node is a mutable cell that holds a main node, and its identity is the path of
  words that leads to it from the root, so \<open>load\<close> and \<open>store\<close> are the atomic load and the
  (uncontended, hence successful) compare-and-swap of that cell. The retry loops of
  \<^verbatim>\<open>Subscribe\<close>, \<^verbatim>\<open>Unsubscribe\<close> and \<^verbatim>\<open>Lookup\<close> may not end, so they are partial functions:
  \<open>None\<close> means the call never returns.
\<close>

section \<open>Nodes\<close>

datatype 'a main_node = CNode "(string \<times> 'a branch) list" | TNode
  and 'a branch = Branch (iNode: "'a main_node option") (subs: "'a list")

type_synonym 'a branches = "(string \<times> 'a branch) list"

text \<open>\<^verbatim>\<open>newCNode\<close> is only called on a non-empty list of words.\<close>

fun newCNode :: "string list \<Rightarrow> 'a \<Rightarrow> 'a branches" where
  "newCNode [] sub = []"
| "newCNode [w] sub = [(w, Branch None [sub])]"
| "newCNode (w # ws) sub = [(w, Branch (Some (CNode (newCNode ws sub))) [])]"

definition inserted :: "'a branches \<Rightarrow> string list \<Rightarrow> 'a \<Rightarrow> 'a branches" where
  "inserted bs words sub =
     (let br = (if length words = 1 then Branch None [sub]
                else Branch (Some (CNode (newCNode (tl words) sub))) [])
      in mput (hd words) br bs)"

definition updated :: "'a branches \<Rightarrow> string \<Rightarrow> 'a \<Rightarrow> 'a branches" where
  "updated bs word sub =
     (let newBranch = (case mget bs word of
          Some br \<Rightarrow> Branch (iNode br) (List.insert sub (subs br))
        | None \<Rightarrow> Branch None [sub])
      in mput word newBranch bs)"

definition branch_updated :: "'a branch \<Rightarrow> 'a main_node option \<Rightarrow> 'a branch" where
  "branch_updated b i = Branch i (subs b)"

definition updatedBranch ::
    "'a branches \<Rightarrow> string \<Rightarrow> 'a main_node option \<Rightarrow> 'a branch \<Rightarrow> 'a branches" where
  "updatedBranch bs word i br = mput word (branch_updated br i) bs"

definition branch_removed :: "'a branch \<Rightarrow> 'a \<Rightarrow> 'a branch" where
  "branch_removed b sub = Branch (iNode b) (removeAll sub (subs b))"

definition removed :: "'a branches \<Rightarrow> string \<Rightarrow> 'a \<Rightarrow> 'a branches" where
  "removed bs word sub =
     (case mget bs word of
        None \<Rightarrow> bs
      | Some b \<Rightarrow>
          let br = branch_removed b sub
          in if subs br = [] \<and> iNode br = None then mdel word bs else mput word br bs)"

definition getBranches :: "'a branches \<Rightarrow> string \<Rightarrow> 'a branch option \<times> 'a branch option" where
  "getBranches bs word = (mget bs word, mget bs wildcard)"

text \<open>A branch can be pruned when it has no subscribers and points nowhere or to a tombed
  I-node.\<close>

fun prunable :: "'a branch \<Rightarrow> bool" where
  "prunable (Branch i ss) =
     (if ss \<noteq> [] then False
      else case i of None \<Rightarrow> True | Some m \<Rightarrow> (case m of TNode \<Rightarrow> True | CNode _ \<Rightarrow> False))"

definition toCompressed :: "'a branches \<Rightarrow> 'a branches" where
  "toCompressed bs = filter (\<lambda>(k, br). \<not> prunable br) bs"

section \<open>Cells\<close>

type_synonym path = "string list"

fun load :: "'a main_node \<Rightarrow> path \<Rightarrow> 'a main_node option" where
  "load m [] = Some m"
| "load (CNode bs) (w # ws) =
     (case mget bs w of
        Some br \<Rightarrow> (case iNode br of Some m \<Rightarrow> load m ws | None \<Rightarrow> None)
      | None \<Rightarrow> None)"
| "load TNode (w # ws) = None"

fun store :: "'a main_node \<Rightarrow> path \<Rightarrow> 'a main_node \<Rightarrow> 'a main_node" where
  "store m [] m' = m'"
| "store (CNode bs) (w # ws) m' =
     (case mget bs w of
        Some br \<Rightarrow>
          (case iNode br of
             Some m \<Rightarrow> CNode (mput w (Branch (Some (store m ws m')) (subs br)) bs)
           | None \<Rightarrow> CNode bs)
      | None \<Rightarrow> CNode bs)"
| "store TNode (w # ws) m' = TNode"

text \<open>\<^verbatim>\<open>toContracted\<close>: an empty C-node that is not the root's becomes a T-node.\<close>

definition toContracted :: "'a branches \<Rightarrow> path \<Rightarrow> 'a main_node" where
  "toContracted bs parent = (if parent \<noteq> [] \<and> bs = [] then TNode else CNode bs)"

text \<open>\<^verbatim>\<open>clean\<close> dereferences its argument: a nil parent panics.\<close>

definition clean :: "'a main_node \<Rightarrow> path option \<Rightarrow> go_panic + 'a main_node" where
  "clean root i =
     (case i of
        None \<Rightarrow> Inl NilDereference
      | Some p \<Rightarrow>
          (case load root p of
             None \<Rightarrow> Inl NilDereference
           | Some (CNode bs) \<Rightarrow> Inr (store root p (CNode (toCompressed bs)))
           | Some TNode \<Rightarrow> Inr root))"

section \<open>Operations\<close>

fun iinsert ::
    "'a main_node \<Rightarrow> path \<Rightarrow> path option \<Rightarrow> string list \<Rightarrow> 'a \<Rightarrow> go_panic + 'a main_node \<times> bool" where
  "iinsert root i parent [] sub =
     (case load root i of
        None \<Rightarrow> Inl NilDereference
      | Some (CNode bs) \<Rightarrow> Inl IndexOutOfRange
      | Some TNode \<Rightarrow>
          (case clean root parent of Inl p \<Rightarrow> Inl p | Inr root' \<Rightarrow> Inr (root', False)))"
| "iinsert root i parent (w # ws) sub =
     (case load root i of
        None \<Rightarrow> Inl NilDereference
      | Some (CNode bs) \<Rightarrow>
          (case mget bs w of
             None \<Rightarrow> Inr (store root i (CNode (inserted bs (w # ws) sub)), True)
           | Some br \<Rightarrow>
               if ws \<noteq> [] then
                 (case iNode br of
                    Some _ \<Rightarrow> iinsert root (i @ [w]) (Some i) ws sub
                  | None \<Rightarrow>
                      Inr (store root i (CNode
                             (updatedBranch bs w (Some (CNode (newCNode ws sub))) br)), True))
               else if sub \<in> set (subs br) then Inr (root, True)
               else Inr (store root i (CNode (updated bs w sub)), True))
      | Some TNode \<Rightarrow>
          (case clean root parent of Inl p \<Rightarrow> Inl p | Inr root' \<Rightarrow> Inr (root', False)))"

definition contract ::
    "'a main_node \<Rightarrow> path option \<Rightarrow> path \<Rightarrow> 'a branches \<Rightarrow> go_panic + 'a main_node" where
  "contract root parentsParent parent pbs =
     (let ncn = toCompressed pbs
      in case (if ncn = [] then parentsParent else None) of
           Some pp \<Rightarrow>
             (case load root pp of
                Some (CNode ppbs) \<Rightarrow>
                  (case find (\<lambda>(k, b). iNode b \<noteq> None \<and> pp @ [k] = parent) ppbs of
                     None \<Rightarrow> Inr root
                   | Some (pKey, pBranch) \<Rightarrow>
                       let upd = updatedBranch ppbs pKey None pBranch;
                           upd' = (if subs pBranch = [] then mdel pKey upd else upd)
                       in Inr (store root pp (CNode (toCompressed upd'))))
              | _ \<Rightarrow> Inl NilDereference)
         | None \<Rightarrow> Inr (store root parent (toContracted ncn parent)))"

definition cleanParent ::
    "'a main_node \<Rightarrow> path \<Rightarrow> path \<Rightarrow> path option \<Rightarrow> string \<Rightarrow> go_panic + 'a main_node" where
  "cleanParent root i parent parentsParent word =
     (case load root parent of
        Some (CNode pbs) \<Rightarrow>
          (case mget pbs word of
             Some br \<Rightarrow>
               if \<not> (iNode br \<noteq> None \<and> parent @ [word] = i) then Inr root
               else if load root i = Some TNode then contract root parentsParent parent pbs
               else Inr root
           | None \<Rightarrow> Inr root)
      | _ \<Rightarrow> Inr root)"

function iremove ::
    "'a main_node \<Rightarrow> path \<Rightarrow> path option \<Rightarrow> path option \<Rightarrow> string list \<Rightarrow> nat \<Rightarrow> 'a \<Rightarrow>
     go_panic + 'a main_node \<times> bool" where
  "iremove root i parent parentsParent words wordIdx sub =
     (case load root i of
        None \<Rightarrow> Inl NilDereference
      | Some (CNode bs) \<Rightarrow>
          if length words \<le> wordIdx then Inl IndexOutOfRange
          else (case mget bs (words ! wordIdx) of
             None \<Rightarrow> Inr (root, True)
           | Some br \<Rightarrow>
               if wordIdx + 1 < length words then
                 (case iNode br of
                    Some _ \<Rightarrow>
                      iremove root (i @ [words ! wordIdx]) (Some i) parent words (wordIdx + 1) sub
                  | None \<Rightarrow> Inr (root, True))
               else if sub \<notin> set (subs br) then Inr (root, True)
               else
                 let ncn = removed bs (words ! wordIdx) sub;
                     root' = store root i (toContracted ncn i)
                 in case parent of
                      None \<Rightarrow> Inr (root', True)
                    | Some p \<Rightarrow>
                        if load root' i = Some TNode then
                          (case cleanParent root' i p parentsParent (words ! (wordIdx - 1)) of
                             Inl e \<Rightarrow> Inl e
                           | Inr root'' \<Rightarrow> Inr (root'', True))
                        else Inr (root', True))
      | Some TNode \<Rightarrow>
          (case clean root parent of Inl p \<Rightarrow> Inl p | Inr root' \<Rightarrow> Inr (root', False)))"
  by pat_completeness auto
termination
  by (relation "measure (\<lambda>(root, i, parent, pp, words, idx, sub). length words - idx)") auto

declare iremove.simps [simp del]

text \<open>The subscribers one level below, under the \<^verbatim>\<open>**\<close> branch, match the empty
  remainder.\<close>

definition child_multi :: "'a branch \<Rightarrow> 'a list" where
  "child_multi b =
     (case iNode b of
        Some (CNode cbs) \<Rightarrow> (case mget cbs multiWildcard of Some mb \<Rightarrow> subs mb | None \<Rightarrow> [])
      | _ \<Rightarrow> [])"

text \<open>
  \<^verbatim>\<open>ilookup\<close> and \<^verbatim>\<open>bLookup\<close>. The result is the trie (a tomb on the way is cleaned) and the
  subscribers, \<open>None\<close> when the operation has to be retried. The branch \<open>b\<close> of \<^verbatim>\<open>bLookup\<close>
  is the one with key \<open>k\<close> below the I-node \<open>i\<close>.
\<close>

function (sequential) ilookup ::
    "'a main_node \<Rightarrow> path \<Rightarrow> path option \<Rightarrow> string list \<Rightarrow> go_panic + 'a main_node \<times> 'a list option"
  and bLookup ::
    "'a main_node \<Rightarrow> path \<Rightarrow> string \<Rightarrow> 'a branch \<Rightarrow> string list \<Rightarrow>
     go_panic + 'a main_node \<times> 'a list option" where
  "ilookup root i parent words =
     (case load root i of
        None \<Rightarrow> Inl NilDereference
      | Some (CNode bs) \<Rightarrow>
          if words = [] then Inl IndexOutOfRange
          else if hd words = [] then Inr (root, Some [])
          else
            let (exact, singleWC) = getBranches bs (hd words);
                multi = (case mget bs multiWildcard of Some mb \<Rightarrow> subs mb | None \<Rightarrow> [])
            in (case (case exact of
                        Some b \<Rightarrow> bLookup root i (hd words) b words
                      | None \<Rightarrow> Inr (root, Some [])) of
                  Inr (root1, Some s1) \<Rightarrow>
                    (case (case singleWC of
                             Some b \<Rightarrow> bLookup root1 i wildcard b words
                           | None \<Rightarrow> Inr (root1, Some [])) of
                       Inr (root2, Some s2) \<Rightarrow> Inr (root2, Some (remdups (s1 @ s2 @ multi)))
                     | r \<Rightarrow> r)
                | r \<Rightarrow> r)
      | Some TNode \<Rightarrow>
          (case clean root parent of Inl p \<Rightarrow> Inl p | Inr root' \<Rightarrow> Inr (root', None)))"
| "bLookup root i k b words =
     (if length words > 1 then
        (case iNode b of
           None \<Rightarrow> Inr (root, Some [])
         | Some _ \<Rightarrow> ilookup root (i @ [k]) (Some i) (tl words))
      else Inr (root, Some (subs b @ child_multi b)))"
  by pat_completeness auto
termination
  by (relation "measure (\<lambda>x. case x of Inl (root, i, parent, words) \<Rightarrow> 2 * length words + 1
        | Inr (root, i, k, b, words) \<Rightarrow> 2 * length words)") auto

declare ilookup.simps [simp del] bLookup.simps [simp del]

section \<open>The matcher\<close>

definition NewCSTrieMatcher :: "'a main_node" where
  "NewCSTrieMatcher = CNode []"

record 'a subscription =
  Topic :: string
  Subscriber :: 'a

partial_function (option) subscribe_loop ::
    "'a main_node \<Rightarrow> string list \<Rightarrow> 'a \<Rightarrow> (go_panic + 'a main_node) option" where
  "subscribe_loop root words sub =
     (case iinsert root [] None words sub of
        Inl p \<Rightarrow> Some (Inl p)
      | Inr (root', ok) \<Rightarrow> if ok then Some (Inr root') else subscribe_loop root' words sub)"

text \<open>
  \<^verbatim>\<open>validateSubscriber\<close> asks \<^verbatim>\<open>reflect\<close> whether the dynamic type of the subscriber can be a
  map key; the answer is the parameter \<open>comparable\<close>, true for nil and for comparable types.
\<close>

definition validateSubscriber :: "('a \<Rightarrow> bool) \<Rightarrow> 'a \<Rightarrow> topic_error option" where
  "validateSubscriber comparable sub = (if \<not> comparable sub then Some ErrBadSubscriber else None)"

definition Subscribe ::
    "('a \<Rightarrow> bool) \<Rightarrow> 'a main_node \<Rightarrow> string \<Rightarrow> 'a \<Rightarrow>
     (go_panic + 'a main_node \<times> (topic_error + 'a subscription)) option" where
  "Subscribe comparable root topic sub =
     (if validateSubscriber comparable sub \<noteq> None then Some (Inr (root, Inl ErrBadSubscriber))
      else if \<not> validTopic topic then Some (Inr (root, Inl ErrBadTopic))
      else case subscribe_loop root (SplitSegments topic) sub of
             None \<Rightarrow> None
           | Some (Inl p) \<Rightarrow> Some (Inl p)
           | Some (Inr root') \<Rightarrow> Some (Inr (root', Inr \<lparr>Topic = topic, Subscriber = sub\<rparr>)))"

partial_function (option) unsubscribe_loop ::
    "'a main_node \<Rightarrow> string list \<Rightarrow> 'a \<Rightarrow> (go_panic + 'a main_node) option" where
  "unsubscribe_loop root words sub =
     (case iremove root [] None None words 0 sub of
        Inl p \<Rightarrow> Some (Inl p)
      | Inr (root', ok) \<Rightarrow> if ok then Some (Inr root') else unsubscribe_loop root' words sub)"

definition Unsubscribe ::
    "'a main_node \<Rightarrow> 'a subscription option \<Rightarrow> (go_panic + 'a main_node) option" where
  "Unsubscribe root sub =
     (case sub of
        None \<Rightarrow> Some (Inr root)
      | Some s \<Rightarrow> unsubscribe_loop root (SplitSegments (Topic s)) (Subscriber s))"

partial_function (option) lookup_loop ::
    "'a main_node \<Rightarrow> string list \<Rightarrow> (go_panic + 'a main_node \<times> 'a list) option" where
  "lookup_loop root words =
     (case ilookup root [] None words of
        Inl p \<Rightarrow> Some (Inl p)
      | Inr (root', r) \<Rightarrow>
          (case r of Some s \<Rightarrow> Some (Inr (root', s)) | None \<Rightarrow> lookup_loop root' words))"

definition Lookup :: "'a main_node \<Rightarrow> string \<Rightarrow> (go_panic + 'a main_node \<times> 'a list) option" where
  "Lookup root topic =
     (let words = SplitSegments topic
      in if list_ex (\<lambda>w. w = []) words then Some (Inr (root, []))
         else lookup_loop root words)"

declare subscribe_loop.simps [code] unsubscribe_loop.simps [code] lookup_loop.simps [code]

section \<open>Abstraction and invariants\<close>

text \<open>\<open>subs_at t q\<close> is the set of subscribers registered for the pattern with the segments
  \<open>q\<close>: the value of the matcher as a map from patterns to subscribers.\<close>

fun subs_at :: "'a main_node \<Rightarrow> string list \<Rightarrow> 'a set" where
  "subs_at (CNode bs) (w # ws) =
     (case mget bs w of
        None \<Rightarrow> {}
      | Some br \<Rightarrow>
          if ws = [] then set (subs br)
          else (case iNode br of None \<Rightarrow> {} | Some m \<Rightarrow> subs_at m ws))"
| "subs_at (CNode bs) [] = {}"
| "subs_at TNode q = {}"

lemma size_branch_child [termination_simp]:
  "(k, b) \<in> set bs \<Longrightarrow> iNode b = Some m \<Longrightarrow>
   size m < Suc (size_list (\<lambda>x. Suc (size (snd x))) bs)"
  by (induction bs) (auto, (case_tac b; auto)+)

text \<open>A property of every main node of the trie.\<close>

fun all_nodes :: "('a main_node \<Rightarrow> bool) \<Rightarrow> 'a main_node \<Rightarrow> bool" where
  "all_nodes P (CNode bs) =
     (P (CNode bs) \<and>
      list_all (\<lambda>(k, b). case iNode b of None \<Rightarrow> True | Some m \<Rightarrow> all_nodes P m) bs)"
| "all_nodes P TNode = P TNode"

fun is_CNode :: "'a main_node \<Rightarrow> bool" where
  "is_CNode (CNode bs) = True"
| "is_CNode TNode = False"

definition node_wf :: "'a main_node \<Rightarrow> bool" where
  "node_wf m = (case m of CNode bs \<Rightarrow> mwf bs | TNode \<Rightarrow> True)"

text \<open>Every C-node is a Go map, and no I-node is tombed.\<close>

definition trie_wf :: "'a main_node \<Rightarrow> bool" where
  "trie_wf t = all_nodes node_wf t"

definition no_tomb :: "'a main_node \<Rightarrow> bool" where
  "no_tomb t = all_nodes is_CNode t"

section \<open>Cells: what a store changes\<close>

lemma subs_at_Nil [simp]: "subs_at m [] = {}"
  by (cases m) auto

lemma subs_at_empty [simp]: "subs_at (CNode []) q = {}"
  by (cases q) auto

lemma load_append: "load root (i @ j) = Option.bind (load root i) (\<lambda>m. load m j)"
  by (induction root i rule: load.induct) (simp_all split: option.split)

lemma load_store [simp]: "load root i = Some m \<Longrightarrow> load (store root i m') i = Some m'"
  by (induction root i m' rule: store.induct) (auto split: option.splits)

lemma subs_at_load: "load root i = Some m \<Longrightarrow> q \<noteq> [] \<Longrightarrow> subs_at root (i @ q) = subs_at m q"
  by (induction root i rule: load.induct) (auto split: option.splits)

lemma subs_at_store:
  "load root i = Some m \<Longrightarrow> subs_at (store root i m') q =
     (if prefix i q \<and> q \<noteq> i then subs_at m' (drop (length i) q) else subs_at root q)"
proof (induction root i m' arbitrary: q rule: store.induct)
  case (1 r m')
  then show ?case by (cases q) auto
next
  case (2 bs w ws m')
  then show ?case by (cases q) (auto split: option.splits)
qed auto

lemma subs_at_store_same:
  assumes "load root i = Some m" "subs_at m' = subs_at m"
  shows "subs_at (store root i m') = subs_at root"
proof
  fix q
  show "subs_at (store root i m') q = subs_at root q"
    using subs_at_load [OF assms(1), of "drop (length i) q"] assms
    by (auto simp: subs_at_store prefix_def)
qed

lemma subs_at_store_upd:
  assumes "load root i = Some m" "subs_at m' = (subs_at m)(q0 := X)" "q0 \<noteq> []"
  shows "subs_at (store root i m') = (subs_at root)(i @ q0 := X)"
proof
  fix q
  show "subs_at (store root i m') q = ((subs_at root)(i @ q0 := X)) q"
    using subs_at_load [OF assms(1), of "drop (length i) q"] assms
    by (auto simp: subs_at_store prefix_def)
qed

lemma set_mput_sub: "set (mput k v m) \<subseteq> insert (k, v) (set m)"
  by (induction m) (auto simp: mput_def)

lemma set_mput_wf: "mwf m \<Longrightarrow> set (mput k v m) = insert (k, v) {p \<in> set m. fst p \<noteq> k}"
  by (induction m) (auto simp: mput_def mwf_def, force+)

lemma set_mdel: "set (mdel k m) = {p \<in> set m. fst p \<noteq> k}"
  by (auto simp: mdel_def AList.delete_eq)

definition child_ok :: "('a main_node \<Rightarrow> bool) \<Rightarrow> string \<times> 'a branch \<Rightarrow> bool" where
  "child_ok P p = (case iNode (snd p) of None \<Rightarrow> True | Some m \<Rightarrow> all_nodes P m)"

lemma all_nodes_CNode: "all_nodes P (CNode bs) \<longleftrightarrow> P (CNode bs) \<and> (\<forall>p \<in> set bs. child_ok P p)"
  by (auto simp: list_all_iff child_ok_def)

declare all_nodes.simps(1) [simp del]

lemma child_ok_mget:
  "\<forall>p \<in> set bs. child_ok P p \<Longrightarrow> mget bs w = Some br \<Longrightarrow> iNode br = Some m \<Longrightarrow> all_nodes P m"
  by (drule mget_in_set) (auto simp: child_ok_def split: option.splits)

lemma child_ok_mput:
  "\<forall>p \<in> set bs. child_ok P p \<Longrightarrow> child_ok P (k, b) \<Longrightarrow> \<forall>p \<in> set (mput k b bs). child_ok P p"
  using set_mput_sub [of k b bs] by blast

lemma all_nodes_load: "all_nodes P root \<Longrightarrow> load root i = Some m \<Longrightarrow> all_nodes P m"
  by (induction root i rule: load.induct)
    (auto simp: all_nodes_CNode split: option.splits dest: child_ok_mget)

lemma all_nodes_store:
  assumes "\<And>bs k b. P (CNode bs) \<Longrightarrow> P (CNode (mput k b bs))"
  shows "all_nodes P root \<Longrightarrow> all_nodes P m' \<Longrightarrow> all_nodes P (store root i m')"
proof (induction root i m' rule: store.induct)
  case (2 bs w ws m')
  then have bs: "P (CNode bs)" "\<forall>p \<in> set bs. child_ok P p"
    by (auto simp: all_nodes_CNode)
  show ?case
  proof (cases "\<exists>br m. mget bs w = Some br \<and> iNode br = Some m")
    case True
    then obtain br m where m: "mget bs w = Some br" "iNode br = Some m" by blast
    have "child_ok P (w, Branch (Some (store m ws m')) (subs br))"
      using 2(1) [OF m child_ok_mget [OF bs(2) m] 2(3)] by (simp add: child_ok_def)
    then show ?thesis
      using m bs assms child_ok_mput [OF bs(2)] by (simp add: all_nodes_CNode)
  next
    case False
    then show ?thesis using 2 by (auto split: option.splits)
  qed
qed auto

lemma trie_wf_store: "trie_wf root \<Longrightarrow> trie_wf m' \<Longrightarrow> trie_wf (store root i m')"
  unfolding trie_wf_def by (rule all_nodes_store) (auto simp: node_wf_def)

lemma trie_wf_load: "trie_wf root \<Longrightarrow> load root i = Some m \<Longrightarrow> trie_wf m"
  unfolding trie_wf_def by (rule all_nodes_load)

lemma trie_wf_CNode: "trie_wf (CNode bs) \<longleftrightarrow> mwf bs \<and> (\<forall>p \<in> set bs. child_ok node_wf p)"
  by (simp add: trie_wf_def all_nodes_CNode node_wf_def)

lemma trie_wf_TNode [simp]: "trie_wf TNode"
  by (simp add: trie_wf_def node_wf_def)

lemma no_tomb_store: "no_tomb root \<Longrightarrow> no_tomb m' \<Longrightarrow> no_tomb (store root i m')"
  unfolding no_tomb_def by (rule all_nodes_store) auto

lemma no_tomb_load: "no_tomb root \<Longrightarrow> load root i = Some m \<Longrightarrow> no_tomb m"
  unfolding no_tomb_def by (rule all_nodes_load)

lemma no_tomb_CNode: "no_tomb (CNode bs) \<longleftrightarrow> (\<forall>p \<in> set bs. child_ok is_CNode p)"
  by (simp add: no_tomb_def all_nodes_CNode)

lemma no_tomb_TNode [simp]: "\<not> no_tomb TNode"
  by (simp add: no_tomb_def)

lemma is_CNode_store: "is_CNode root \<Longrightarrow> (i = [] \<longrightarrow> is_CNode m') \<Longrightarrow> is_CNode (store root i m')"
  by (cases "(root, i, m')" rule: store.cases) (auto split: option.splits)

section \<open>The C-node operations on the abstraction\<close>

lemma subs_at_newCNode: "ws \<noteq> [] \<Longrightarrow> subs_at (CNode (newCNode ws sub)) = (\<lambda>q. {})(ws := {sub})"
proof (induction ws sub rule: newCNode.induct)
  case (2 w sub)
  then show ?case by (intro ext, case_tac x) (auto simp: mget_Cons split: option.splits)
next
  case (3 w v va sub)
  then show ?case by (intro ext, case_tac x) (auto simp: mget_Cons)
qed auto

lemma removeAll_Nil: "removeAll x xs = [] \<longleftrightarrow> set xs \<subseteq> {x}"
  by (induction xs) auto

lemma subs_at_inserted:
  "mget bs w = None \<Longrightarrow>
   subs_at (CNode (inserted bs (w # ws) sub)) = (subs_at (CNode bs))(w # ws := {sub})"
  by (intro ext, case_tac x) (auto simp: inserted_def Let_def subs_at_newCNode)

lemma subs_at_updated:
  "mget bs w = Some br \<Longrightarrow>
   subs_at (CNode (updated bs w sub)) = (subs_at (CNode bs))([w] := insert sub (set (subs br)))"
  by (intro ext, case_tac x) (auto simp: updated_def Let_def)

lemma subs_at_updatedBranch_new:
  "mget bs w = Some br \<Longrightarrow> iNode br = None \<Longrightarrow> ws \<noteq> [] \<Longrightarrow>
   subs_at (CNode (updatedBranch bs w (Some (CNode (newCNode ws sub))) br)) =
     (subs_at (CNode bs))(w # ws := {sub})"
  by (intro ext, case_tac x) (auto simp: updatedBranch_def branch_updated_def subs_at_newCNode)

lemma subs_at_removed:
  "mget bs w = Some br \<Longrightarrow>
   subs_at (CNode (removed bs w sub)) = (subs_at (CNode bs))([w] := set (subs br) - {sub})"
  by (intro ext, case_tac x) (auto simp: removed_def branch_removed_def Let_def removeAll_Nil)

lemma subs_at_toContracted: "subs_at (toContracted bs i) = subs_at (CNode bs)"
  by (intro ext) (auto simp: toContracted_def)

lemma mget_filter:
  "mwf bs \<Longrightarrow> mget (filter P bs) k =
     (case mget bs k of Some v \<Rightarrow> if P (k, v) then Some v else None | None \<Rightarrow> None)"
proof (induction bs)
  case (Cons a bs)
  then have "mwf bs" "mget bs (fst a) = None" by (auto simp: mwf_def mget_None_iff)
  with Cons show ?case by (cases a) (auto simp: mget_Cons)
qed simp

lemma prunable_subs: "prunable b \<Longrightarrow> subs b = []"
  by (cases b) (auto split: if_splits)

lemma prunable_child: "prunable b \<Longrightarrow> iNode b = Some m \<Longrightarrow> m = TNode"
  by (cases b) (auto split: if_splits main_node.splits)

lemma subs_at_toCompressed: "mwf bs \<Longrightarrow> subs_at (CNode (toCompressed bs)) = subs_at (CNode bs)"
  by (intro ext, case_tac x)
    (auto simp: toCompressed_def mget_filter prunable_subs split: option.splits dest: prunable_child)

lemma mwf_toCompressed [simp]: "mwf bs \<Longrightarrow> mwf (toCompressed bs)"
  by (simp add: mwf_def toCompressed_def distinct_map_filter)

lemma set_toCompressed: "set (toCompressed bs) = {p \<in> set bs. \<not> prunable (snd p)}"
  by (auto simp: toCompressed_def)

section \<open>Well-formedness of the C-node operations\<close>

lemma trie_wf_newCNode: "trie_wf (CNode (newCNode ws sub))"
  by (induction ws sub rule: newCNode.induct) (auto simp: trie_wf_CNode mwf_def child_ok_def
      simp flip: trie_wf_def)

lemma no_tomb_newCNode: "no_tomb (CNode (newCNode ws sub))"
  by (induction ws sub rule: newCNode.induct) (auto simp: no_tomb_CNode child_ok_def
      simp flip: no_tomb_def)

lemma child_ok_leaf [simp]: "child_ok P (k, Branch None ss)"
  by (simp add: child_ok_def)

lemma child_ok_same_child: "child_ok P (k, b) \<Longrightarrow> child_ok P (k', Branch (iNode b) ss)"
  by (simp add: child_ok_def)

lemma child_ok_new:
  "child_ok node_wf (k, Branch (Some (CNode (newCNode ws sub))) ss)"
  "child_ok is_CNode (k, Branch (Some (CNode (newCNode ws sub))) ss)"
  using trie_wf_newCNode no_tomb_newCNode
  by (simp_all add: child_ok_def flip: trie_wf_def no_tomb_def)

lemma child_ok_inserted:
  assumes "\<forall>p \<in> set bs. child_ok P p" "\<And>k ws ss. child_ok P (k, Branch (Some (CNode (newCNode ws sub))) ss)"
  shows "\<forall>p \<in> set (inserted bs words sub). child_ok P p"
  unfolding inserted_def Let_def by (rule child_ok_mput [OF assms(1)]) (simp add: assms(2))

lemma child_ok_updated:
  assumes "\<forall>p \<in> set bs. child_ok P p"
  shows "\<forall>p \<in> set (updated bs w sub). child_ok P p"
  unfolding updated_def Let_def
  by (rule child_ok_mput [OF assms])
    (use assms in \<open>auto split: option.split intro!: child_ok_same_child [of P w] dest!: mget_in_set\<close>)

lemma child_ok_removed:
  assumes "\<forall>p \<in> set bs. child_ok P p"
  shows "\<forall>p \<in> set (removed bs w sub). child_ok P p"
proof (cases "mget bs w")
  case (Some b)
  then have "child_ok P (w, Branch (iNode b) (removeAll sub (subs b)))"
    using assms mget_in_set [of bs w b] child_ok_same_child [of P w b] by simp
  then show ?thesis
    using Some child_ok_mput [OF assms] assms
    by (auto simp: removed_def branch_removed_def Let_def set_mdel)
qed (use assms in \<open>simp add: removed_def\<close>)

lemma child_ok_toCompressed:
  "\<forall>p \<in> set bs. child_ok P p \<Longrightarrow> \<forall>p \<in> set (toCompressed bs). child_ok P p"
  by (simp add: set_toCompressed)

lemma mwf_ops [simp]:
  assumes "mwf bs"
  shows "mwf (inserted bs words sub)" "mwf (updated bs w sub)" "mwf (removed bs w sub)"
    "mwf (updatedBranch bs w i br)"
  using assms by (auto simp: inserted_def updated_def removed_def updatedBranch_def Let_def
      split: option.split)

lemma trie_wf_ops:
  assumes "trie_wf (CNode bs)"
  shows "trie_wf (CNode (inserted bs words sub))" "trie_wf (CNode (updated bs w sub))"
    "trie_wf (CNode (removed bs w sub))" "trie_wf (CNode (toCompressed bs))"
    "trie_wf (CNode (updatedBranch bs w (Some (CNode (newCNode ws sub))) br))"
    "trie_wf (CNode (updatedBranch bs w None br))" "trie_wf (CNode (mdel w bs))"
proof -
  have m: "mwf bs" and c: "\<forall>p \<in> set bs. child_ok node_wf p"
    using assms by (auto simp: trie_wf_CNode)
  show "trie_wf (CNode (inserted bs words sub))"
    using m child_ok_inserted [OF c child_ok_new(1)] by (simp add: trie_wf_CNode)
  show "trie_wf (CNode (updated bs w sub))"
    using m child_ok_updated [OF c] by (simp add: trie_wf_CNode)
  show "trie_wf (CNode (removed bs w sub))"
    using m child_ok_removed [OF c] by (simp add: trie_wf_CNode)
  show "trie_wf (CNode (toCompressed bs))"
    using m child_ok_toCompressed [OF c] by (simp add: trie_wf_CNode)
  show "trie_wf (CNode (updatedBranch bs w (Some (CNode (newCNode ws sub))) br))"
    using m child_ok_mput [OF c child_ok_new(1)]
    by (simp add: trie_wf_CNode updatedBranch_def branch_updated_def)
  show "trie_wf (CNode (updatedBranch bs w None br))"
    using m child_ok_mput [OF c child_ok_leaf]
    by (simp add: trie_wf_CNode updatedBranch_def branch_updated_def)
  show "trie_wf (CNode (mdel w bs))"
    using m c by (simp add: trie_wf_CNode set_mdel)
qed

lemma no_tomb_ops:
  assumes "no_tomb (CNode bs)"
  shows "no_tomb (CNode (inserted bs words sub))" "no_tomb (CNode (updated bs w sub))"
    "no_tomb (CNode (removed bs w sub))" "no_tomb (CNode (toCompressed bs))"
    "no_tomb (CNode (updatedBranch bs w (Some (CNode (newCNode ws sub))) br))"
proof -
  have c: "\<forall>p \<in> set bs. child_ok is_CNode p"
    using assms by (auto simp: no_tomb_CNode)
  show "no_tomb (CNode (inserted bs words sub))"
    using child_ok_inserted [OF c child_ok_new(2)] by (simp add: no_tomb_CNode)
  show "no_tomb (CNode (updated bs w sub))" "no_tomb (CNode (removed bs w sub))"
    "no_tomb (CNode (toCompressed bs))"
    using child_ok_updated [OF c] child_ok_removed [OF c] child_ok_toCompressed [OF c]
    by (simp_all add: no_tomb_CNode)
  show "no_tomb (CNode (updatedBranch bs w (Some (CNode (newCNode ws sub))) br))"
    using child_ok_mput [OF c child_ok_new(2)]
    by (simp add: no_tomb_CNode updatedBranch_def branch_updated_def)
qed

lemma clean_spec:
  assumes "load root p = Some m" "trie_wf root" "is_CNode root"
  shows "\<exists>root'. clean root (Some p) = Inr root' \<and> subs_at root' = subs_at root \<and>
    trie_wf root' \<and> is_CNode root'"
proof (cases m)
  case (CNode bs)
  have "trie_wf (CNode bs)" using trie_wf_load [OF assms(2,1)] CNode by simp
  then have "subs_at (CNode (toCompressed bs)) = subs_at m" "trie_wf (CNode (toCompressed bs))"
    by (simp_all add: CNode trie_wf_ops subs_at_toCompressed trie_wf_CNode [of bs])
  then show ?thesis
    using assms CNode
    by (auto simp: clean_def intro: subs_at_store_same trie_wf_store is_CNode_store)
qed (use assms in \<open>simp add: clean_def\<close>)

section \<open>Insertion\<close>

text \<open>The cell \<open>i\<close> can be read, and if it is tombed there is a parent to clean.\<close>

definition cell_ok :: "'a main_node \<Rightarrow> path \<Rightarrow> path option \<Rightarrow> bool" where
  "cell_ok root i parent \<longleftrightarrow> load root i \<noteq> None \<and>
     (load root i = Some TNode \<longrightarrow> (\<exists>p. parent = Some p \<and> load root p \<noteq> None))"

lemma cell_ok_root: "is_CNode root \<Longrightarrow> cell_ok root [] None"
  by (auto simp: cell_ok_def)

lemma cell_ok_child:
  "load root i = Some (CNode bs) \<Longrightarrow> mget bs w = Some br \<Longrightarrow> iNode br \<noteq> None \<Longrightarrow>
   cell_ok root (i @ [w]) (Some i)"
  by (auto simp: cell_ok_def load_append)

lemma clean_cell_ok:
  assumes "cell_ok root i parent" "load root i = Some TNode" "trie_wf root" "is_CNode root"
  shows "\<exists>root'. clean root parent = Inr root' \<and> subs_at root' = subs_at root \<and>
    trie_wf root' \<and> is_CNode root'"
proof -
  from assms obtain p m where "parent = Some p" "load root p = Some m"
    by (auto simp: cell_ok_def)
  then show ?thesis using clean_spec [OF _ assms(3,4)] by blast
qed

text \<open>
  The outcome of one attempt that is to set the subscribers of the pattern \<open>q\<close> to \<open>X\<close>: it does
  not panic, keeps the trie well formed, and either has its effect or, when it reports that it
  must be retried, none. Without tombs it is never retried, and under \<open>N\<close> it leaves no tomb.
\<close>

definition op_ok ::
    "bool \<Rightarrow> 'a main_node \<Rightarrow> string list \<Rightarrow> 'a set \<Rightarrow> go_panic + 'a main_node \<times> bool \<Rightarrow> bool" where
  "op_ok N root q X r \<longleftrightarrow> (\<exists>root' ok. r = Inr (root', ok) \<and> trie_wf root' \<and> is_CNode root' \<and>
     subs_at root' = (if ok then (subs_at root)(q := X) else subs_at root) \<and>
     (no_tomb root \<longrightarrow> ok \<and> (N \<longrightarrow> no_tomb root')))"

lemma op_ok_done:
  "trie_wf root' \<Longrightarrow> is_CNode root' \<Longrightarrow> subs_at root' = (subs_at root)(q := X) \<Longrightarrow>
   (no_tomb root \<Longrightarrow> N \<Longrightarrow> no_tomb root') \<Longrightarrow> op_ok N root q X (Inr (root', True))"
  by (auto simp: op_ok_def)

lemma op_ok_noop:
  "trie_wf root \<Longrightarrow> is_CNode root \<Longrightarrow> subs_at root q = X \<Longrightarrow> op_ok N root q X (Inr (root, True))"
  by (rule op_ok_done) auto

lemma op_ok_store:
  assumes "load root i = Some m" "trie_wf root" "is_CNode root" "q0 \<noteq> []"
    and "subs_at m' = (subs_at m)(q0 := X)" "trie_wf m'" "is_CNode m'" "no_tomb m \<Longrightarrow> no_tomb m'"
  shows "op_ok N root (i @ q0) X (Inr (store root i m', True))"
  using assms(8) no_tomb_load [OF _ assms(1)]
  by (intro op_ok_done subs_at_store_upd [OF assms(1)] trie_wf_store is_CNode_store no_tomb_store)
    (simp_all add: assms(2-7))

lemma op_ok_clean:
  assumes "cell_ok root i parent" "load root i = Some TNode" "trie_wf root" "is_CNode root"
  shows "op_ok N root q X (case clean root parent of Inl p \<Rightarrow> Inl p | Inr root' \<Rightarrow> Inr (root', False))"
proof -
  obtain root' where "clean root parent = Inr root'" "subs_at root' = subs_at root"
    "trie_wf root'" "is_CNode root'"
    using clean_cell_ok [OF assms] by blast
  moreover have "\<not> no_tomb root" using no_tomb_load [of root i] assms(2) by auto
  ultimately show ?thesis by (auto simp: op_ok_def intro: exI [of _ False])
qed

lemma iinsert_spec:
  assumes "words \<noteq> []" "cell_ok root i parent" "trie_wf root" "is_CNode root"
  shows "op_ok True root (i @ words) (insert sub (subs_at root (i @ words)))
    (iinsert root i parent words sub)"
  using assms
proof (induction root i parent words sub rule: iinsert.induct)
  case (2 root i parent w ws sub)
  note wf = \<open>trie_wf root\<close> and cn = \<open>is_CNode root\<close>
  from 2 obtain m where m: "load root i = Some m" by (auto simp: cell_ok_def)
  show ?case
  proof (cases m)
    case TNode
    then have "load root i = Some TNode" using m by simp
    from op_ok_clean [OF \<open>cell_ok root i parent\<close> this wf cn] this show ?thesis by simp
  next
    case (CNode bs)
    then have l: "load root i = Some (CNode bs)" using m by simp
    have wfb: "trie_wf (CNode bs)" using trie_wf_load [OF wf l] .
    have old: "subs_at root (i @ w # ws) = subs_at (CNode bs) (w # ws)"
      using subs_at_load [OF l] by simp
    note put = op_ok_store [OF l wf cn, of "w # ws" _ _ True, simplified]
    show ?thesis
    proof (cases "mget bs w")
      case None
      show ?thesis
        using put [OF _ trie_wf_ops(1) [OF wfb, of "w # ws" sub]] l None old
        by (simp add: subs_at_inserted no_tomb_ops)
    next
      case (Some br)
      consider (deeper) c where "ws \<noteq> []" "iNode br = Some c" | (fresh) "ws \<noteq> []" "iNode br = None"
        | (dup) "ws = []" "sub \<in> set (subs br)" | (add) "ws = []" "sub \<notin> set (subs br)"
        by blast
      then show ?thesis
      proof cases
        case deeper
        then show ?thesis
          using 2(1) [OF m CNode Some _ deeper(2)] cell_ok_child [OF l Some] l Some wf cn
          by simp
      next
        case fresh
        then show ?thesis
          using put [OF _ trie_wf_ops(5) [OF wfb, of w ws sub br]] l Some old
          by (simp add: subs_at_updatedBranch_new no_tomb_ops)
      next
        case dup
        then show ?thesis
          using l Some old op_ok_noop [OF wf cn] by (simp add: insert_absorb)
      next
        case add
        then show ?thesis
          using put [OF _ trie_wf_ops(2) [OF wfb, of w sub]] l Some old
          by (simp add: subs_at_updated no_tomb_ops)
      qed
    qed
  qed
qed simp

section \<open>Contraction\<close>

lemma load_snoc:
  "load root (p @ [w]) = Some m \<longleftrightarrow>
   (\<exists>bs b. load root p = Some (CNode bs) \<and> mget bs w = Some b \<and> iNode b = Some m)"
proof (cases "load root p")
  case (Some a)
  then show ?thesis by (cases a) (auto simp: load_append split: option.splits)
qed (simp add: load_append)

lemma store_snoc:
  "load root p = Some (CNode bs) \<Longrightarrow> mget bs w = Some b \<Longrightarrow> iNode b = Some c \<Longrightarrow>
   store root (p @ [w]) m' = store root p (CNode (mput w (Branch (Some m') (subs b)) bs))"
  by (induction root p m' rule: store.induct) (auto split: option.splits)

lemma mput_mput [simp]: "mput k v (mput k v' m) = mput k v m"
  by (induction m) (auto simp: mput_def)

lemma store_store: "load root p = Some m \<Longrightarrow> store (store root p x) p y = store root p y"
  by (induction root p x rule: store.induct) (auto split: option.splits)

lemma find_parent:
  "mwf bs \<Longrightarrow> mget bs k = Some b \<Longrightarrow> iNode b \<noteq> None \<Longrightarrow>
   find (\<lambda>(k', b). iNode b \<noteq> None \<and> pp @ [k'] = pp @ [k]) bs = Some (k, b)"
  by (induction bs) (auto simp: mwf_def mget_Cons split: if_splits)

definition pruned :: "'a branches \<Rightarrow> string \<Rightarrow> 'a branch \<Rightarrow> 'a branches" where
  "pruned bs k b = toCompressed
     (if subs b = [] then mdel k (updatedBranch bs k None b) else updatedBranch bs k None b)"

lemma contract_cases:
  assumes l: "load root p = Some (CNode pbs)" and wf: "trie_wf root"
    and pp: "case parentsParent of None \<Rightarrow> p = [] | Some pp \<Rightarrow> \<exists>k. p = pp @ [k]"
  obtains (drop) pp k ppbs b where "parentsParent = Some pp" "p = pp @ [k]" "toCompressed pbs = []"
      "load root pp = Some (CNode ppbs)" "mget ppbs k = Some b" "iNode b = Some (CNode pbs)"
      "contract root parentsParent p pbs = Inr (store root pp (CNode (pruned ppbs k b)))"
  | (keep) "contract root parentsParent p pbs = Inr (store root p (CNode (toCompressed pbs)))"
proof (cases "parentsParent = None \<or> toCompressed pbs \<noteq> []")
  case True
  then have "contract root parentsParent p pbs = Inr (store root p (CNode (toCompressed pbs)))"
    using pp by (auto simp: contract_def toContracted_def split: option.splits)
  then show thesis by (rule keep)
next
  case False
  then obtain pp k where k: "parentsParent = Some pp" "p = pp @ [k]" "toCompressed pbs = []"
    using pp by auto
  then obtain ppbs b where b: "load root pp = Some (CNode ppbs)" "mget ppbs k = Some b"
    "iNode b = Some (CNode pbs)"
    using l by (auto simp: load_snoc)
  have "mwf ppbs" using trie_wf_load [OF wf b(1)] by (simp add: trie_wf_CNode)
  from find_parent [OF this b(2), of pp]
  have "contract root parentsParent p pbs = Inr (store root pp (CNode (pruned ppbs k b)))"
    using k b by (simp add: contract_def pruned_def Let_def)
  then show thesis using k b drop by blast
qed

lemma pruned_spec:
  assumes "trie_wf (CNode bs)" "mget bs k = Some b" "iNode b = Some m" "subs_at m = (\<lambda>q. {})"
  shows "subs_at (CNode (pruned bs k b)) = subs_at (CNode bs)" "trie_wf (CNode (pruned bs k b))"
proof -
  have wf: "trie_wf (CNode (updatedBranch bs k None b))"
    "trie_wf (CNode (mdel k (updatedBranch bs k None b)))"
    using assms(1) by (simp_all add: trie_wf_ops)
  have "subs_at (CNode (if subs b = [] then mdel k (updatedBranch bs k None b)
      else updatedBranch bs k None b)) = subs_at (CNode bs)"
    using assms(2-4) by (intro ext, case_tac x) (auto simp: updatedBranch_def branch_updated_def)
  then show "subs_at (CNode (pruned bs k b)) = subs_at (CNode bs)"
    using wf by (simp add: pruned_def subs_at_toCompressed trie_wf_CNode)
  show "trie_wf (CNode (pruned bs k b))"
    using wf by (simp add: pruned_def trie_wf_ops)
qed

lemma subs_at_all_pruned:
  "mwf bs \<Longrightarrow> toCompressed bs = [] \<Longrightarrow> subs_at (CNode bs) = (\<lambda>q. {})"
  using subs_at_toCompressed [of bs] by (metis ext subs_at_empty)

lemma contract_spec:
  assumes l: "load root p = Some (CNode pbs)" and wf: "trie_wf root" and cn: "is_CNode root"
    and pp: "case parentsParent of None \<Rightarrow> p = [] | Some pp \<Rightarrow> \<exists>k. p = pp @ [k]"
  shows "\<exists>root'. contract root parentsParent p pbs = Inr root' \<and> subs_at root' = subs_at root \<and>
    trie_wf root' \<and> is_CNode root'"
proof -
  have wfp: "trie_wf (CNode pbs)" using trie_wf_load [OF wf l] .
  then have m: "mwf pbs" by (simp add: trie_wf_CNode)
  show ?thesis
    using l wf pp
  proof (cases rule: contract_cases)
    case (drop pp k ppbs b)
    note pr = pruned_spec [OF trie_wf_load [OF wf drop(4)] drop(5,6) subs_at_all_pruned [OF m drop(3)]]
    show ?thesis
      using drop(7) subs_at_store_same [OF drop(4) pr(1)] trie_wf_store [OF wf pr(2)]
        is_CNode_store [OF cn] by simp
  next
    case keep
    then show ?thesis
      using subs_at_store_same [OF l subs_at_toCompressed [OF m]]
        trie_wf_store [OF wf trie_wf_ops(4) [OF wfp]] is_CNode_store [OF cn] by simp
  qed
qed

text \<open>A contraction that starts from a trie whose only tomb is the removed cell leaves none.\<close>

lemma contract_no_tomb:
  assumes nt: "no_tomb root0" and wf: "trie_wf root0"
    and l0: "load root0 p = Some (CNode pbs0)" and b0: "mget pbs0 w = Some (Branch (Some c) [])"
    and root: "root = store root0 (p @ [w]) TNode" and l: "load root p = Some (CNode pbs)"
    and pp: "case parentsParent of None \<Rightarrow> p = [] | Some pp \<Rightarrow> \<exists>k. p = pp @ [k]"
    and r: "contract root parentsParent p pbs = Inr root'"
  shows "no_tomb root'"
proof -
  have root': "root = store root0 p (CNode (mput w (Branch (Some TNode) []) pbs0))"
    using root store_snoc [OF l0 b0, of c] by simp
  then have pbs: "pbs = mput w (Branch (Some TNode) []) pbs0"
    using l l0 by simp
  have ok0: "\<forall>p \<in> set pbs0. child_ok is_CNode p"
    using no_tomb_load [OF nt l0] by (simp add: no_tomb_CNode)
  have "mwf pbs0" using trie_wf_load [OF wf l0] by (simp add: trie_wf_CNode)
  from set_mput_wf [OF this] have "no_tomb (CNode (toCompressed pbs))"
    using ok0 by (auto simp: no_tomb_CNode set_toCompressed pbs)
  have wfr: "trie_wf root" using root wf by (simp add: trie_wf_store)
  show ?thesis
    using l wfr pp
  proof (cases rule: contract_cases)
    case (drop pp k ppbs b)
    obtain ppbs0 b' where pp0: "load root0 pp = Some (CNode ppbs0)" "mget ppbs0 k = Some b'"
      "iNode b' = Some (CNode pbs0)"
      using l0 drop(2) by (auto simp: load_snoc)
    have root2: "root = store root0 pp (CNode (mput k (Branch (Some (CNode pbs)) (subs b')) ppbs0))"
      using root' drop(2) store_snoc [OF pp0] pbs by simp
    then have ppbs: "ppbs = mput k (Branch (Some (CNode pbs)) (subs b')) ppbs0"
      using drop(4) pp0(1) by simp
    have "mwf ppbs0" "\<forall>p \<in> set ppbs0. child_ok is_CNode p"
      using trie_wf_load [OF wf pp0(1)] no_tomb_load [OF nt pp0(1)]
      by (simp_all add: trie_wf_CNode no_tomb_CNode)
    then have "no_tomb (CNode (pruned ppbs k b))"
      using set_mput_wf [of ppbs0 k]
      by (auto simp: no_tomb_CNode pruned_def set_toCompressed ppbs updatedBranch_def
          branch_updated_def set_mdel)
    then show ?thesis
      using r drop(7) root2 store_store [OF pp0(1)] no_tomb_store [OF nt] by simp
  next
    case keep
    then show ?thesis
      using r root' store_store [OF l0] no_tomb_store [OF nt \<open>no_tomb (CNode (toCompressed pbs))\<close>, of p]
      by simp
  qed
qed

section \<open>Removal\<close>

text \<open>The parent of the cell that is reached after \<open>n\<close> words.\<close>

definition par :: "string list \<Rightarrow> nat \<Rightarrow> path option" where
  "par words n = (if n = 0 then None else Some (take (n - 1) words))"

lemma par_spec:
  assumes "n < length words" "par words n = Some p"
  shows "take n words = p @ [words ! (n - 1)]"
    "case par words (n - 1) of None \<Rightarrow> p = [] | Some pp \<Rightarrow> \<exists>k. p = pp @ [k]"
proof -
  obtain k where k: "n = Suc k" "p = take k words"
    using assms(2) by (cases n) (auto simp: par_def)
  show "take n words = p @ [words ! (n - 1)]"
    using assms(1) by (simp add: k take_Suc_conv_app_nth)
  show "case par words (n - 1) of None \<Rightarrow> p = [] | Some pp \<Rightarrow> \<exists>k. p = pp @ [k]"
    using assms(1) by (cases k) (simp_all add: k par_def take_Suc_conv_app_nth)
qed

lemma cleanParent_spec:
  assumes nt: "N \<Longrightarrow> no_tomb root0" and "trie_wf root0" "is_CNode root0"
    and i: "load root0 (p @ [w]) = Some c" and root: "root = store root0 (p @ [w]) TNode"
    and pp: "case parentsParent of None \<Rightarrow> p = [] | Some pp \<Rightarrow> \<exists>k. p = pp @ [k]"
    and N: "N \<Longrightarrow> subs_at root0 (p @ [w]) = {}"
  shows "\<exists>root'. cleanParent root (p @ [w]) p parentsParent w = Inr root' \<and>
    subs_at root' = subs_at root \<and> trie_wf root' \<and> is_CNode root' \<and> (N \<longrightarrow> no_tomb root')"
proof -
  obtain pbs0 b where p0: "load root0 p = Some (CNode pbs0)" "mget pbs0 w = Some b" "iNode b = Some c"
    using i by (auto simp: load_snoc)
  have ti: "load root (p @ [w]) = Some TNode" using i root by simp
  then obtain pbs b' where p1: "load root p = Some (CNode pbs)" "mget pbs w = Some b'"
    "iNode b' = Some TNode"
    by (auto simp: load_snoc)
  have "trie_wf root" "is_CNode root" using assms by (simp_all add: trie_wf_store is_CNode_store)
  from contract_spec [OF p1(1) this pp] obtain root' where
    c: "contract root parentsParent p pbs = Inr root'" "subs_at root' = subs_at root"
      "trie_wf root'" "is_CNode root'" by blast
  have "no_tomb root'" if N
  proof -
    have "b = Branch (Some c) []"
      using N [OF that] subs_at_load [OF p0(1), of "[w]"] p0 by (cases b) simp
    then show ?thesis
      using contract_no_tomb [OF nt [OF that] _ p0(1) _ root p1(1) pp c(1)] assms(2) p0(2) by simp
  qed
  then show ?thesis using c p1 ti by (simp add: cleanParent_def)
qed

lemma iremove_last:
  assumes l: "load root i = Some (CNode bs)" and br: "mget bs w = Some br"
    and wf: "trie_wf root" and cn: "is_CNode root" and words: "words = i @ [w]"
    and par: "i = [] \<and> parent = None \<or>
      (\<exists>p v. i = p @ [v] \<and> parent = Some p \<and> v = words ! (length i - 1) \<and>
        (case parentsParent of None \<Rightarrow> p = [] | Some pp \<Rightarrow> \<exists>k. p = pp @ [k]))"
  shows "op_ok (subs_at root i = {}) root words (subs_at root words - {sub})
    (iremove root i parent parentsParent words (length i) sub)"
proof (cases "sub \<in> set (subs br)")
  case False
  then show ?thesis
    using l br words subs_at_load [OF l, of "[w]"] op_ok_noop [OF wf cn] by (simp add: iremove.simps)
next
  case True
  define m' where "m' = toContracted (removed bs w sub) i"
  define root1 where "root1 = store root i m'"
  have wfb: "trie_wf (CNode bs)" using trie_wf_load [OF wf l] .
  have m': "subs_at m' = (subs_at (CNode bs))([w] := subs_at root words - {sub})" "trie_wf m'"
    using subs_at_load [OF l, of "[w]"] br trie_wf_ops(3) [OF wfb] words
    by (simp_all add: m'_def subs_at_toContracted subs_at_removed)
      (simp add: toContracted_def trie_wf_ops wfb)
  have r1: "subs_at root1 = (subs_at root)(words := subs_at root words - {sub})" "trie_wf root1"
    "is_CNode root1" "load root1 i = Some m'"
    using subs_at_store_upd [OF l m'(1)] l m'(2) wf cn words
    by (simp_all add: root1_def trie_wf_store is_CNode_store m'_def toContracted_def)
  have nt1: "no_tomb root1" if "no_tomb root" "m' \<noteq> TNode"
    using that no_tomb_ops(3) [OF no_tomb_load [OF that(1) l]] no_tomb_store [OF that(1)]
    by (auto simp: root1_def m'_def toContracted_def split: if_splits)
  have eq: "iremove root i parent parentsParent words (length i) sub =
    (case parent of None \<Rightarrow> Inr (root1, True)
     | Some p \<Rightarrow> if m' = TNode then
          (case cleanParent root1 i p parentsParent (words ! (length i - 1)) of
             Inl e \<Rightarrow> Inl e | Inr root'' \<Rightarrow> Inr (root'', True))
        else Inr (root1, True))"
    using l br True words r1(4)
    by (simp add: iremove.simps [of root i] root1_def m'_def Let_def split: option.split)
  show ?thesis
  proof (cases "m' = TNode \<and> parent \<noteq> None")
    case False
    moreover have "parent = None \<Longrightarrow> m' \<noteq> TNode"
      using par by (auto simp: m'_def toContracted_def)
    ultimately show ?thesis
      using eq op_ok_done [OF r1(2,3,1) nt1] by (auto split: option.split)
  next
    case True
    then obtain p v where p: "i = p @ [v]" "parent = Some p" "v = words ! (length i - 1)"
      "case parentsParent of None \<Rightarrow> p = [] | Some pp \<Rightarrow> \<exists>k. p = pp @ [k]"
      using par by auto
    obtain root2 where r2: "cleanParent root1 i p parentsParent v = Inr root2"
      "subs_at root2 = subs_at root1" "trie_wf root2" "is_CNode root2"
      "no_tomb root \<and> subs_at root i = {} \<longrightarrow> no_tomb root2"
      using cleanParent_spec [of "no_tomb root \<and> subs_at root i = {}", OF _ wf cn, of p v "CNode bs" root1
          parentsParent] l p True root1_def by blast
    show ?thesis
      using eq True p(2,3) r2 op_ok_done [OF r2(3,4)] r1(1) by simp
  qed
qed

lemma iremove_spec:
  assumes "idx < length words" "cell_ok root (take idx words) (par words idx)"
    and wf: "trie_wf root" and cn: "is_CNode root"
  shows "op_ok (subs_at root (butlast words) = {}) root words (subs_at root words - {sub})
    (iremove root (take idx words) (par words idx) (par words (idx - 1)) words idx sub)"
  using assms(1,2)
proof (induction "length words - idx" arbitrary: idx)
  case (Suc n)
  define i where "i = take idx words"
  define w where "w = words ! idx"
  have len: "length i = idx" using Suc by (simp add: i_def)
  have iw: "take (Suc idx) words = i @ [w]"
    using Suc by (simp add: i_def w_def take_Suc_conv_app_nth)
  obtain m where m: "load root i = Some m" using Suc(4) by (auto simp: cell_ok_def i_def)
  consider (tomb) "load root i = Some TNode"
    | (none) bs where "load root i = Some (CNode bs)" "mget bs w = None"
    | (some) bs br where "load root i = Some (CNode bs)" "mget bs w = Some br"
  proof (cases m)
    case (CNode bs)
    then show thesis using m none some by (cases "mget bs w") auto
  qed (use m tomb in simp)
  then show ?case
  proof cases
    case tomb
    then show ?thesis
      using op_ok_clean [OF Suc(4) _ wf cn] by (simp add: iremove.simps [of root "take idx words"] i_def)
  next
    case none
    have "words = i @ w # drop (Suc idx) words"
      using Suc by (simp add: i_def w_def id_take_nth_drop)
    then have "subs_at root words = {}"
      using subs_at_load [OF none(1), of "w # drop (Suc idx) words"] none(2) by simp
    then show ?thesis
      using none Suc op_ok_noop [OF wf cn, of words]
      by (simp add: iremove.simps [of root i] flip: i_def w_def)
  next
    case some
    show ?thesis
    proof (cases "Suc idx < length words")
      case False
      then have lw: "length words = Suc idx" using Suc(3) by simp
      have words: "words = i @ [w]" using iw lw by simp
      have bl: "i = butlast words" using lw by (simp add: i_def butlast_conv_take)
      have "i = [] \<and> par words idx = None \<or>
        (\<exists>p v. i = p @ [v] \<and> par words idx = Some p \<and> v = words ! (length i - 1) \<and>
          (case par words (idx - 1) of None \<Rightarrow> p = [] | Some pp \<Rightarrow> \<exists>k. p = pp @ [k]))"
      proof (cases "par words idx")
        case None
        then show ?thesis by (simp add: par_def i_def split: if_splits)
      next
        case (Some p)
        then show ?thesis using par_spec [OF Suc(3) Some] len by (simp add: i_def)
      qed
      from iremove_last [OF some wf cn words this, of sub] show ?thesis
        unfolding len i_def [symmetric] using bl by simp
    next
      case True
      note unf = iremove.simps [of root "take idx words" "par words idx" "par words (idx - 1)" words idx]
      have "subs_at root words = {}" if "iNode br = None"
      proof -
        have "words = i @ w # drop (Suc idx) words"
          using Suc by (simp add: i_def w_def id_take_nth_drop)
        then show ?thesis
          using subs_at_load [OF some(1), of "w # drop (Suc idx) words"] some(2) that True by simp
      qed
      moreover have "par words (Suc idx) = Some i" by (simp add: par_def i_def)
      ultimately show ?thesis
        using True some Suc(1) [of "Suc idx"] Suc(2,3) iw op_ok_noop [OF wf cn, of words]
          cell_ok_child [OF some] unfolding unf
        by (cases "iNode br") (simp_all flip: i_def w_def)
    qed
  qed
qed simp

section \<open>Lookup\<close>

text \<open>What a lookup has to find: the subscribers of every pattern that matches the topic.\<close>

definition matches :: "'a main_node \<Rightarrow> string list \<Rightarrow> 'a set" where
  "matches m words = {x. \<exists>q. x \<in> subs_at m q \<and> seg_match q words}"

definition matches_below :: "'a branches \<Rightarrow> string \<Rightarrow> string list \<Rightarrow> 'a set" where
  "matches_below bs k words = {x. \<exists>q. x \<in> subs_at (CNode bs) (k # q) \<and> seg_match q words}"

lemma matches_CNode:
  "matches (CNode bs) (w # ws) =
     matches_below bs w ws \<union> matches_below bs wildcard ws \<union> subs_at (CNode bs) [multiWildcard]"
proof
  show "matches (CNode bs) (w # ws) \<subseteq>
     matches_below bs w ws \<union> matches_below bs wildcard ws \<union> subs_at (CNode bs) [multiWildcard]"
  proof
    fix x assume "x \<in> matches (CNode bs) (w # ws)"
    then obtain q where q: "x \<in> subs_at (CNode bs) q" "seg_match q (w # ws)"
      by (auto simp: matches_def)
    then obtain p ps where "q = p # ps" by (cases q) auto
    with q show "x \<in> matches_below bs w ws \<union> matches_below bs wildcard ws \<union>
        subs_at (CNode bs) [multiWildcard]"
      by (auto simp: matches_below_def simp del: subs_at.simps)
  qed
next
  have "seg_match (w # q) (w # ws)" "seg_match (wildcard # q) (w # ws)" if "seg_match q ws" for q
    using that by auto
  moreover have "seg_match [multiWildcard] (w # ws)" by simp
  ultimately show "matches_below bs w ws \<union> matches_below bs wildcard ws \<union>
      subs_at (CNode bs) [multiWildcard] \<subseteq> matches (CNode bs) (w # ws)"
    unfolding matches_def matches_below_def by blast
qed

lemma seg_match_Nil2: "seg_match q [] \<longleftrightarrow> q = [] \<or> q = [multiWildcard]"
  by (cases q) auto

lemma set_child_multi:
  "set (child_multi b) = (case iNode b of None \<Rightarrow> {} | Some m \<Rightarrow> subs_at m [multiWildcard])"
proof (cases "iNode b")
  case (Some m)
  then show ?thesis
    by (cases m; cases "mget (case m of CNode bs \<Rightarrow> bs) multiWildcard")
      (simp_all add: child_multi_def)
qed (simp add: child_multi_def)

lemma matches_below_Nil:
  assumes "mget bs k = Some b"
  shows "matches_below bs k [] = set (subs b) \<union> set (child_multi b)"
proof -
  have "matches_below bs k [] = subs_at (CNode bs) [k] \<union> subs_at (CNode bs) [k, multiWildcard]"
    unfolding matches_below_def seg_match_Nil2 by blast
  then show ?thesis using assms by (simp add: set_child_multi)
qed

lemma matches_below_Cons:
  assumes "mget bs k = Some b" "ws \<noteq> []"
  shows "matches_below bs k ws = (case iNode b of None \<Rightarrow> {} | Some m \<Rightarrow> matches m ws)"
proof -
  have "q \<noteq> []" if "seg_match q ws" for q using that assms(2) by auto
  then have "x \<in> subs_at (CNode bs) (k # q) \<and> seg_match q ws \<longleftrightarrow>
      x \<in> (case iNode b of None \<Rightarrow> {} | Some m \<Rightarrow> subs_at m q) \<and> seg_match q ws" for x q
    using assms by (cases "q = []") auto
  then show ?thesis
    unfolding matches_below_def matches_def by (cases "iNode b") simp_all
qed

lemma matches_below_None: "mget bs k = None \<Longrightarrow> matches_below bs k ws = {}"
  by (simp add: matches_below_def)

text \<open>The outcome of one attempt to find the subscribers \<open>X\<close>.\<close>

definition lookup_ok ::
    "'a main_node \<Rightarrow> 'a set \<Rightarrow> go_panic + 'a main_node \<times> 'a list option \<Rightarrow> bool" where
  "lookup_ok root X r \<longleftrightarrow> (\<exists>s. r = Inr (root, Some s) \<and> set s = X) \<or>
     (\<exists>root'. r = Inr (root', None) \<and> \<not> no_tomb root \<and> subs_at root' = subs_at root \<and>
        trie_wf root' \<and> is_CNode root')"

lemma lookup_ok_clean:
  assumes "cell_ok root i parent" "load root i = Some TNode" "trie_wf root" "is_CNode root"
  shows "lookup_ok root X (case clean root parent of Inl p \<Rightarrow> Inl p | Inr root' \<Rightarrow> Inr (root', None))"
proof -
  obtain root' where "clean root parent = Inr root'" "subs_at root' = subs_at root"
    "trie_wf root'" "is_CNode root'"
    using clean_cell_ok [OF assms] by blast
  moreover have "\<not> no_tomb root" using no_tomb_load [of root i] assms(2) by auto
  ultimately show ?thesis by (simp add: lookup_ok_def)
qed

lemma lookup_ok_cases:
  assumes "lookup_ok root X r"
  obtains (found) s where "r = Inr (root, Some s)" "set s = X" | (retry) root' where "r = Inr (root', None)"
proof -
  from assms consider "\<exists>s. r = Inr (root, Some s) \<and> set s = X" | "\<exists>root'. r = Inr (root', None)"
    unfolding lookup_ok_def by metis
  then show thesis using that by cases auto
qed

lemma lookup_ok_join:
  assumes "lookup_ok root A r1" "lookup_ok root B (f root)"
  shows "lookup_ok root (A \<union> B \<union> set multi)
    (case r1 of
       Inr (root1, Some s1) \<Rightarrow>
         (case f root1 of
            Inr (root2, Some s2) \<Rightarrow> Inr (root2, Some (remdups (s1 @ s2 @ multi)))
          | r \<Rightarrow> r)
     | r \<Rightarrow> r)"
  using assms(1)
proof (cases rule: lookup_ok_cases)
  case found1: (found s1)
  show ?thesis
    using assms(2)
  proof (cases rule: lookup_ok_cases)
    case (found s2)
    then show ?thesis using found1 by (auto simp: lookup_ok_def)
  next
    case (retry root')
    then show ?thesis using found1 assms(2) by (simp add: lookup_ok_def)
  qed
next
  case (retry root')
  then show ?thesis using assms(1) by (simp add: lookup_ok_def)
qed

lemma ilookup_spec:
  assumes "words \<noteq> []" "[] \<notin> set words" "cell_ok root i parent" "load root i = Some m"
    and wf: "trie_wf root" and cn: "is_CNode root"
  shows "lookup_ok root (matches m words) (ilookup root i parent words)"
  using assms(1-4)
proof (induction words arbitrary: i parent m)
  case (Cons w ws)
  show ?case
  proof (cases m)
    case TNode
    then show ?thesis
      using lookup_ok_clean [OF Cons(4) _ wf cn] Cons(5) by (simp add: ilookup.simps)
  next
    case (CNode bs)
    then have l: "load root i = Some (CNode bs)" using Cons(5) by simp
    have below: "lookup_ok root (matches_below bs k ws)
        (case mget bs k of Some b \<Rightarrow> bLookup root i k b (w # ws) | None \<Rightarrow> Inr (root, Some []))" for k
    proof (cases "mget bs k")
      case None
      then show ?thesis by (simp add: lookup_ok_def matches_below_None)
    next
      case (Some b)
      show ?thesis
      proof (cases "ws = [] \<or> iNode b = None")
        case True
        then show ?thesis
          using Some by (auto simp: bLookup.simps lookup_ok_def matches_below_Nil matches_below_Cons)
      next
        case False
        then obtain c where c: "iNode b = Some c" by auto
        then have "load root (i @ [k]) = Some c" using l Some by (simp add: load_append)
        then have "lookup_ok root (matches c ws) (ilookup root (i @ [k]) (Some i) ws)"
          using Cons(1) [of "i @ [k]"] False Cons(3) cell_ok_child [OF l Some] by simp
        then show ?thesis
          using Some False c by (simp add: bLookup.simps matches_below_Cons)
      qed
    qed
    define multi where "multi = (case mget bs multiWildcard of Some mb \<Rightarrow> subs mb | None \<Rightarrow> [])"
    have multi: "set multi = subs_at (CNode bs) [multiWildcard]"
      by (simp add: multi_def split: option.split)
    have w: "w \<noteq> []" using Cons(3) by auto
    have eq: "ilookup root i parent (w # ws) =
      (case (case mget bs w of
               Some b \<Rightarrow> bLookup root i w b (w # ws) | None \<Rightarrow> Inr (root, Some [])) of
         Inr (root1, Some s1) \<Rightarrow>
           (case (case mget bs wildcard of
                    Some b \<Rightarrow> bLookup root1 i wildcard b (w # ws)
                  | None \<Rightarrow> Inr (root1, Some [])) of
              Inr (root2, Some s2) \<Rightarrow> Inr (root2, Some (remdups (s1 @ s2 @ multi)))
            | r \<Rightarrow> r)
       | r \<Rightarrow> r)"
      unfolding ilookup.simps [of root i] l getBranches_def Let_def list.sel prod.case multi_def
      using w by simp
    show ?thesis
      unfolding eq CNode matches_CNode multi [symmetric]
      by (rule lookup_ok_join [OF below [of w], where f = "\<lambda>r. case mget bs wildcard of
            Some b \<Rightarrow> bLookup r i wildcard b (w # ws) | None \<Rightarrow> Inr (r, Some [])", OF below])
  qed
qed (simp only: simp_thms)

section \<open>The retry loops\<close>

text \<open>The invariant of the trie behind the matcher.\<close>

definition trie_inv :: "'a main_node \<Rightarrow> bool" where
  "trie_inv t \<longleftrightarrow> trie_wf t \<and> is_CNode t"

lemma trie_inv_new: "trie_inv NewCSTrieMatcher" "no_tomb NewCSTrieMatcher"
    "subs_at NewCSTrieMatcher = (\<lambda>q. {})"
  by (auto simp: trie_inv_def NewCSTrieMatcher_def trie_wf_CNode no_tomb_CNode)

lemma iinsert_root:
  assumes "trie_inv t" "words \<noteq> []"
  shows "op_ok True t words (insert sub (subs_at t words)) (iinsert t [] None words sub)"
  using iinsert_spec [OF assms(2) cell_ok_root, of t sub] assms(1) by (simp add: trie_inv_def)

lemma iremove_root:
  assumes "trie_inv t" "words \<noteq> []"
  shows "op_ok (subs_at t (butlast words) = {}) t words (subs_at t words - {sub})
    (iremove t [] None None words 0 sub)"
  using iremove_spec [of 0 words t sub] cell_ok_root [of t] assms by (simp add: trie_inv_def par_def)

lemma ilookup_root:
  assumes "trie_inv t" "words \<noteq> []" "[] \<notin> set words"
  shows "lookup_ok t (matches t words) (ilookup t [] None words)"
  using ilookup_spec [OF assms(2,3) cell_ok_root, of t t] assms(1) by (simp add: trie_inv_def)

lemma subscribe_loop_no_tomb:
  assumes "trie_inv t" "words \<noteq> []" "no_tomb t"
  shows "\<exists>t'. subscribe_loop t words sub = Some (Inr t') \<and> trie_inv t' \<and> no_tomb t' \<and>
    subs_at t' = (subs_at t)(words := insert sub (subs_at t words))"
  using iinsert_root [OF assms(1,2), of sub] assms(3)
  unfolding op_ok_def trie_inv_def by (subst subscribe_loop.simps) auto

lemma unsubscribe_loop_no_tomb:
  assumes "trie_inv t" "words \<noteq> []" "no_tomb t"
  shows "\<exists>t'. unsubscribe_loop t words sub = Some (Inr t') \<and> trie_inv t' \<and>
    (subs_at t (butlast words) = {} \<longrightarrow> no_tomb t') \<and>
    subs_at t' = (subs_at t)(words := subs_at t words - {sub})"
  using iremove_root [OF assms(1,2), of sub] assms(3)
  unfolding op_ok_def trie_inv_def by (subst unsubscribe_loop.simps) auto

lemma lookup_loop_no_tomb:
  assumes "trie_inv t" "words \<noteq> []" "[] \<notin> set words" "no_tomb t"
  shows "\<exists>s. lookup_loop t words = Some (Inr (t, s)) \<and> set s = matches t words"
  using ilookup_root [OF assms(1-3)] assms(4)
  unfolding lookup_ok_def by (subst lookup_loop.simps) auto

text \<open>Whatever tombs there are: when a loop returns, it has done its work and not panicked.\<close>

lemma subscribe_loop_partial:
  "subscribe_loop t words sub = Some r \<Longrightarrow> trie_inv t \<Longrightarrow> words \<noteq> [] \<Longrightarrow>
   \<exists>t'. r = Inr t' \<and> trie_inv t' \<and> subs_at t' = (subs_at t)(words := insert sub (subs_at t words))"
proof (induction t words sub r rule: subscribe_loop.raw_induct [rotated, consumes 1, case_names 1])
  case (1 loop t words sub r)
  obtain t' ok where t': "iinsert t [] None words sub = Inr (t', ok)" "trie_inv t'"
    "subs_at t' = (if ok then (subs_at t)(words := insert sub (subs_at t words)) else subs_at t)"
    using iinsert_root [OF 1(3,4), of sub] unfolding op_ok_def trie_inv_def by metis
  then show ?case using 1(1) [of t' words sub r] 1(2,4) by (cases ok) auto
qed

lemma unsubscribe_loop_partial:
  "unsubscribe_loop t words sub = Some r \<Longrightarrow> trie_inv t \<Longrightarrow> words \<noteq> [] \<Longrightarrow>
   \<exists>t'. r = Inr t' \<and> trie_inv t' \<and> subs_at t' = (subs_at t)(words := subs_at t words - {sub})"
proof (induction t words sub r rule: unsubscribe_loop.raw_induct [rotated, consumes 1, case_names 1])
  case (1 loop t words sub r)
  obtain t' ok where t': "iremove t [] None None words 0 sub = Inr (t', ok)" "trie_inv t'"
    "subs_at t' = (if ok then (subs_at t)(words := subs_at t words - {sub}) else subs_at t)"
    using iremove_root [OF 1(3,4), of sub] unfolding op_ok_def trie_inv_def by metis
  then show ?case using 1(1) [of t' words sub r] 1(2,4) by (cases ok) auto
qed

lemma lookup_loop_partial:
  "lookup_loop t words = Some r \<Longrightarrow> trie_inv t \<Longrightarrow> words \<noteq> [] \<Longrightarrow> [] \<notin> set words \<Longrightarrow>
   \<exists>t' s. r = Inr (t', s) \<and> trie_inv t' \<and> subs_at t' = subs_at t \<and> set s = matches t words"
proof (induction t words r rule: lookup_loop.raw_induct [rotated, consumes 1, case_names 1])
  case (1 loop t words r)
  show ?case
    using ilookup_root [OF 1(3-5)]
  proof (cases rule: lookup_ok_cases)
    case (found s)
    then show ?thesis using 1(2,3) by auto
  next
    case (retry t')
    then have t': "trie_inv t'" "subs_at t' = subs_at t"
      using ilookup_root [OF 1(3-5)] by (simp_all add: lookup_ok_def trie_inv_def)
    then have "matches t' words = matches t words" by (simp add: matches_def)
    then show ?thesis using 1(1) [of t' words r] 1(2,4,5) retry t' by simp
  qed
qed

text \<open>An attempt that must be retried on the very same trie is retried forever.\<close>

lemma lookup_loop_stuck:
  assumes "ilookup t [] None words = Inr (t, None)"
  shows "lookup_loop t words = None"
proof -
  have "\<not> (t' = t \<and> words' = words)" if "lookup_loop t' words' = Some r" for t' words' r
    using that
  proof (induction t' words' r rule: lookup_loop.raw_induct [rotated, consumes 1, case_names 1])
    case (1 loop t' words' r)
    then show ?case using assms 1(1) [of t words r] by auto
  qed
  then show ?thesis by (cases "lookup_loop t words") auto
qed

section \<open>Histories\<close>

text \<open>
  The states of a matcher after a history of calls that returned, with the live
  subscriptions as pairs of a pattern and a subscriber. Patterns with the same segments are the
  same subscription key: \<^verbatim>\<open>a.b\<close> and \<^verbatim>\<open>a:b\<close> are not told apart.
\<close>

inductive history :: "'a main_node \<Rightarrow> (string \<times> 'a) set \<Rightarrow> bool" where
  new: "history NewCSTrieMatcher {}"
| subscribe: "history t S \<Longrightarrow> Subscribe comparable t topic sub = Some (Inr (t', Inr sn)) \<Longrightarrow>
    history t' (insert (topic, sub) S)"
| rejected: "history t S \<Longrightarrow> Subscribe comparable t topic sub = Some (Inr (t', Inl e)) \<Longrightarrow>
    history t' S"
| unsubscribe: "history t S \<Longrightarrow> Unsubscribe t (Some sn) = Some (Inr t') \<Longrightarrow>
    history t' {p \<in> S. \<not> (SplitSegments (fst p) = SplitSegments (Topic sn) \<and> snd p = Subscriber sn)}"
| unsubscribe_nil: "history t S \<Longrightarrow> Unsubscribe t None = Some (Inr t') \<Longrightarrow> history t' S"
| lookup: "history t S \<Longrightarrow> Lookup t topic = Some (Inr (t', s)) \<Longrightarrow> history t' S"

definition subs_of :: "(string \<times> 'a) set \<Rightarrow> string list \<Rightarrow> 'a set" where
  "subs_of S q = {x. \<exists>topic. (topic, x) \<in> S \<and> SplitSegments topic = q}"

lemma Subscribe_partial:
  assumes "Subscribe comparable t topic sub = Some (Inr (t', Inr sn))" "trie_inv t"
  shows "trie_inv t' \<and> validTopic topic \<and>
    subs_at t' = (subs_at t)(SplitSegments topic := insert sub (subs_at t (SplitSegments topic)))"
  using assms subscribe_loop_partial [of t "SplitSegments topic" sub]
  by (auto simp: Subscribe_def split: if_splits option.splits sum.splits)

lemma Unsubscribe_partial:
  assumes "Unsubscribe t (Some sn) = Some r" "trie_inv t"
  shows "\<exists>t'. r = Inr t' \<and> trie_inv t' \<and> subs_at t' = (subs_at t)
    (SplitSegments (Topic sn) := subs_at t (SplitSegments (Topic sn)) - {Subscriber sn})"
  using assms unsubscribe_loop_partial [of t "SplitSegments (Topic sn)"]
  by (auto simp: Unsubscribe_def)

lemma Lookup_partial:
  assumes "Lookup t topic = Some r" "trie_inv t"
  shows "\<exists>t' s. r = Inr (t', s) \<and> trie_inv t' \<and> subs_at t' = subs_at t \<and>
    set s = (if [] \<in> set (SplitSegments topic) then {} else matches t (SplitSegments topic))"
  using assms lookup_loop_partial [of t "SplitSegments topic" r]
  by (auto simp: Lookup_def Let_def list_ex_iff split: if_splits)

lemma history_inv: "history t S \<Longrightarrow> trie_inv t \<and> subs_at t = subs_of S"
proof (induction rule: history.induct)
  case new
  then show ?case by (auto simp: trie_inv_new subs_of_def)
next
  case (subscribe t S comparable topic sub t' sn)
  from Subscribe_partial [OF subscribe(2)] subscribe(3) show ?case
    by (auto simp: subs_of_def fun_eq_iff)
next
  case (rejected t S comparable topic sub t' e)
  then show ?case by (auto simp: Subscribe_def split: if_splits option.splits sum.splits)
next
  case (unsubscribe t S sn t')
  from Unsubscribe_partial [OF unsubscribe(2)] unsubscribe(3) show ?case
    by (auto simp: subs_of_def fun_eq_iff)
next
  case (unsubscribe_nil t S t')
  then show ?case by (simp add: Unsubscribe_def)
next
  case (lookup t S topic t' s)
  from Lookup_partial [OF lookup(2)] lookup(3) show ?case by auto
qed

lemma matches_subs_of:
  assumes "subs_at t = subs_of S"
  shows "(if [] \<in> set (SplitSegments topic) then {} else matches t (SplitSegments topic)) =
    {x. \<exists>pattern. (pattern, x) \<in> S \<and> Match pattern topic}"
  using assms by (auto simp: matches_def subs_of_def Match_eq SplitSegments_eq)

lemmas matches_history = matches_subs_of [OF conjunct2 [OF history_inv]]

section \<open>Properties\<close>

text \<open>
  (C2) The matcher is correct along every history: whatever subscriptions, cancellations and
  lookups came before, a lookup that returns never panics and reports exactly the subscribers of
  the live patterns that match the topic; and it does return when no I-node is tombed.
\<close>

theorem Lookup_history:
  assumes "history t S"
  shows "(Lookup t topic = Some r \<longrightarrow> (\<exists>t' s. r = Inr (t', s) \<and> history t' S \<and>
      set s = {x. \<exists>pattern. (pattern, x) \<in> S \<and> Match pattern topic})) \<and>
    (no_tomb t \<longrightarrow> (\<exists>s. Lookup t topic = Some (Inr (t, s))))"
proof (intro conjI impI)
  assume r: "Lookup t topic = Some r"
  have inv: "trie_inv t" using history_inv [OF assms] by simp
  obtain t' s where s: "r = Inr (t', s)"
    "set s = (if [] \<in> set (SplitSegments topic) then {} else matches t (SplitSegments topic))"
    using Lookup_partial [OF r inv] by blast
  moreover have "history t' S" using history.lookup [OF assms] r s(1) by simp
  ultimately show "\<exists>t' s. r = Inr (t', s) \<and> history t' S \<and>
      set s = {x. \<exists>pattern. (pattern, x) \<in> S \<and> Match pattern topic}"
    using matches_history [OF assms, of topic] by auto
next
  assume "no_tomb t"
  then show "\<exists>s. Lookup t topic = Some (Inr (t, s))"
    using lookup_loop_no_tomb [of t "SplitSegments topic"] history_inv [OF assms]
    by (auto simp: Lookup_def Let_def list_ex_iff)
qed

text \<open>The trie of the witnesses: \<open>1\<close> subscribed to \<^verbatim>\<open>a.*\<close>.\<close>

definition example_trie :: "nat main_node" where
  "example_trie = CNode [(''a'', Branch (Some (CNode [(''*'', Branch None [1])])) [])]"

lemma example_history: "history example_trie {(''a.*'', 1)}"
proof -
  have "Subscribe (\<lambda>_. True) NewCSTrieMatcher ''a.*'' (1::nat) =
      Some (Inr (example_trie, Inr \<lparr>Topic = ''a.*'', Subscriber = 1\<rparr>))"
    by code_simp
  from history.subscribe [OF history.new this] show ?thesis by simp
qed

theorem Lookup_history_witness:
  "history example_trie {(''a.*'', 1)} \<and>
   (\<exists>s. Lookup example_trie ''a.x'' = Some (Inr (example_trie, s)) \<and> set s = {1})"
proof -
  note L = Lookup_history [OF example_history, of "''a.x''"]
  have "no_tomb example_trie" by code_simp
  then obtain s where s: "Lookup example_trie ''a.x'' = Some (Inr (example_trie, s))"
    using L by blast
  have "Match ''a.*'' ''a.x''" by code_simp
  then have "set s = {1}" using L s by auto
  then show ?thesis using s example_history by blast
qed

text \<open>
  Subscribing is total and exact on a trie without tombs: a valid pattern is registered
  for the subscriber, nothing else changes, no tomb appears, and the handle names the
  subscription; an invalid pattern is rejected and changes nothing.
\<close>

lemma Subscribe_total:
  assumes "trie_inv t" and "no_tomb t" and "comparable sub"
  shows "if validTopic topic
    then (\<exists>t'. Subscribe comparable t topic sub =
        Some (Inr (t', Inr \<lparr>Topic = topic, Subscriber = sub\<rparr>)) \<and> trie_inv t' \<and> no_tomb t' \<and>
        subs_at t' = (subs_at t)(SplitSegments topic := insert sub (subs_at t (SplitSegments topic))))
    else Subscribe comparable t topic sub = Some (Inr (t, Inl ErrBadTopic))"
  using subscribe_loop_no_tomb [OF assms(1) _ assms(2), of "SplitSegments topic" sub] assms(3)
  by (auto simp: Subscribe_def validateSubscriber_def)

text \<open>
  Unsubscribing a handle is total and exact on a trie without tombs, contraction of the
  emptied nodes included: only the handle's subscriber is removed, only from its pattern; and no
  tomb is left behind unless the pattern that is one segment shorter has subscribers.
\<close>

lemma Unsubscribe_total:
  assumes "trie_inv t" and "no_tomb t"
  shows "\<exists>t'. Unsubscribe t (Some sn) = Some (Inr t') \<and> trie_inv t' \<and>
    (subs_at t (butlast (SplitSegments (Topic sn))) = {} \<longrightarrow> no_tomb t') \<and>
    subs_at t' = (subs_at t)
      (SplitSegments (Topic sn) := subs_at t (SplitSegments (Topic sn)) - {Subscriber sn})"
  using unsubscribe_loop_no_tomb [OF assms(1) _ assms(2)] by (simp add: Unsubscribe_def)

text \<open>
  A lookup can run forever without any concurrency. With the patterns \<^verbatim>\<open>a.*\<close> and
  \<^verbatim>\<open>a.*.b\<close> subscribed and the longer one cancelled, the I-node below \<^verbatim>\<open>a.*\<close> is tombed but its
  branch has a subscriber, so \<^verbatim>\<open>toCompressed\<close> keeps it, and every lookup of \<^verbatim>\<open>a.x.y\<close> cleans
  the same C-node to no effect and retries.
\<close>

lemma Lookup_livelock:
  "\<exists>t1 t2 t3 s1 s2. Subscribe (\<lambda>_. True) NewCSTrieMatcher ''a.*'' (1::nat) = Some (Inr (t1, Inr s1)) \<and>
     Subscribe (\<lambda>_. True) t1 ''a.*.b'' 2 = Some (Inr (t2, Inr s2)) \<and>
     Unsubscribe t2 (Some s2) = Some (Inr t3) \<and> Lookup t3 ''a.x.y'' = None"
proof -
  define t2 :: "nat main_node" where "t2 = CNode [(''a'', Branch (Some (CNode [(''*'',
      Branch (Some (CNode [(''b'', Branch None [2])])) [1])])) [])]"
  define t3 :: "nat main_node" where "t3 = CNode [(''a'', Branch (Some (CNode [(''*'',
      Branch (Some TNode) [1])])) [])]"
  have "Subscribe (\<lambda>_. True) NewCSTrieMatcher ''a.*'' (1::nat) =
      Some (Inr (example_trie, Inr \<lparr>Topic = ''a.*'', Subscriber = 1\<rparr>))" by code_simp
  moreover have "Subscribe (\<lambda>_. True) example_trie ''a.*.b'' 2 =
      Some (Inr (t2, Inr \<lparr>Topic = ''a.*.b'', Subscriber = 2\<rparr>))" unfolding t2_def by code_simp
  moreover have "Unsubscribe t2 (Some \<lparr>Topic = ''a.*.b'', Subscriber = 2\<rparr>) = Some (Inr t3)"
    unfolding t2_def t3_def by code_simp
  moreover have "Lookup t3 ''a.x.y'' = None"
  proof -
    have "SplitSegments ''a.x.y'' = [''a'', ''x'', ''y'']" by code_simp
    moreover have "ilookup t3 [] None [''a'', ''x'', ''y''] = Inr (t3, None)"
      unfolding t3_def by code_simp
    ultimately show ?thesis by (simp add: Lookup_def Let_def lookup_loop_stuck)
  qed
  ultimately show ?thesis by blast
qed

end
