(* ===== verification/Interest.thy ===== *)
theory Interest
  imports Topics
begin

text \<open>
  Subscription interest, \<^verbatim>\<open>internal/channel/interest.go\<close>: the routable form of a subscription
  key on the live bus, an exact channel or a literal prefix followed by a glob star.
\<close>

section \<open>Compilation\<close>

datatype interest_error = BadTopic topic_error | ErrPatternNotRoutable

text \<open>Empty strings mean "none", as in the code.\<close>

record CompiledInterest =
  Exact :: string
  Pattern :: string
  AlsoExact :: string

definition joinPrefix :: "string \<Rightarrow> string list \<Rightarrow> string \<times> string" where
  "joinPrefix key prefixSegs =
     (if \<not> Contains key NSDelimiter then (Join prefixSegs ''.'', ''.'')
      else if length prefixSegs = 1 then (prefixSegs ! 0, NSDelimiter)
      else (prefixSegs ! 0 @ NSDelimiter @ Join (drop 1 prefixSegs) ''.'', ''.''))"

text \<open>
  \<^verbatim>\<open>joinPrefix\<close> indexes its first segment: a bare wildcard never reaches that branch, since a
  key without a delimiter is not namespaced.
\<close>

definition CompileInterest :: "string \<Rightarrow> interest_error + CompiledInterest" where
  "CompileInterest key =
     (case ValidateTopic key of
        Some err \<Rightarrow> Inl (BadTopic err)
      | None \<Rightarrow>
          if \<not> Contains key ''*'' then Inr \<lparr>Exact = key, Pattern = [], AlsoExact = []\<rparr>
          else
            let segments = SplitSegments key;
                last = segments ! (length segments - 1);
                front = take (length segments - 1) segments
            in if last \<noteq> ''*'' \<and> last \<noteq> ''**'' then Inl ErrPatternNotRoutable
               else if list_ex (\<lambda>seg. Contains seg ''*'') front then Inl ErrPatternNotRoutable
               else
                 let (prefix, sep) = joinPrefix key front
                 in if prefix = [] then Inl ErrPatternNotRoutable
                    else Inr \<lparr>Exact = [], Pattern = prefix @ sep @ ''*'',
                           AlsoExact = (if last = ''**'' then prefix else [])\<rparr>)"

definition MatchAfterCompile :: "string \<Rightarrow> string \<Rightarrow> bool" where
  "MatchAfterCompile key concrete = Match key concrete"

text \<open>
  What the live bus delivers for a compiled interest: the exact channels it names, and what its
  glob covers. \<open>glob\<close> is the matching of the bus.
\<close>

definition routed :: "(string \<Rightarrow> string \<Rightarrow> bool) \<Rightarrow> CompiledInterest \<Rightarrow> string \<Rightarrow> bool" where
  "routed glob ci ch \<longleftrightarrow> (Exact ci \<noteq> [] \<and> ch = Exact ci) \<or> (Pattern ci \<noteq> [] \<and> glob (Pattern ci) ch) \<or>
     (AlsoExact ci \<noteq> [] \<and> ch = AlsoExact ci)"

section \<open>The shape of compiled keys\<close>

text \<open>The two wildcard forms and the literal form of a routable key.\<close>

definition literal_segs :: "string list \<Rightarrow> bool" where
  "literal_segs segs = (\<forall>seg \<in> set segs. CHR ''*'' \<notin> set seg)"

definition routable :: "string \<Rightarrow> bool" where
  "routable key \<longleftrightarrow> ValidateTopic key = None \<and>
     (literal_segs (SplitSegments key) \<or>
      (\<exists>front lst. SplitSegments key = front @ [lst] \<and> (lst = wildcard \<or> lst = multiWildcard) \<and>
         front \<noteq> [] \<and> literal_segs front))"

text \<open>Characters that are not special in a glob of the bus, and keys that have no special
  character besides their wildcard.\<close>

definition glob_special :: "char \<Rightarrow> bool" where
  "glob_special c = (c \<in> {CHR ''?'', CHR ''['', CHR '']'', CHR 0x5C})"

definition glob_literal :: "string \<Rightarrow> bool" where
  "glob_literal s = (\<forall>c \<in> set s. c \<noteq> CHR ''*'' \<and> \<not> glob_special c)"

lemma Contains_star: "Contains s ''*'' \<longleftrightarrow> IsWildcard s"
  by (simp add: IsWildcard_def)

lemma segments_snoc:
  "\<exists>front lst. SplitSegments key = front @ [lst]" 
  by (cases "SplitSegments key" rule: rev_cases) auto

lemma joinPrefix_nonempty:
  assumes "ValidateTopic key = None" "SplitSegments key = front @ [lst]"
  shows "fst (joinPrefix key front) = [] \<longleftrightarrow> front = []"
proof -
  have "[] \<notin> set front"
    using assms by (auto simp: ValidateTopic_def validTopic_eq valid_segs_def split: if_splits)
  moreover have "front \<noteq> []" if "Contains key NSDelimiter"
  proof
    assume "front = []"
    then have "length (SplitSegments key) = 1" using assms(2) by simp
    then have "filter is_delim key = []" by (simp add: SplitSegments_eq length_split_segs)
    then show False using that by (auto simp: Contains_char is_delim_def filter_empty_conv)
  qed
  ultimately show ?thesis
    by (cases front; cases "tl front") (auto simp: joinPrefix_def)
qed

lemma CompileInterest_wild:
  assumes "ValidateTopic key = None" "IsWildcard key" "SplitSegments key = front @ [lst]"
  shows "CompileInterest key =
    (if (lst = wildcard \<or> lst = multiWildcard) \<and> literal_segs front \<and> front \<noteq> []
     then Inr \<lparr>Exact = [],
       Pattern = fst (joinPrefix key front) @ snd (joinPrefix key front) @ ''*'',
       AlsoExact = (if lst = multiWildcard then fst (joinPrefix key front) else [])\<rparr>
     else Inl ErrPatternNotRoutable)"
  using assms joinPrefix_nonempty [OF assms(1,3)]
  by (auto simp: CompileInterest_def Contains_star Let_def nth_append list_ex_iff literal_segs_def
      split_beta IsWildcard_def Contains_char)

lemma CompileInterest_literal:
  "ValidateTopic key = None \<Longrightarrow> \<not> IsWildcard key \<Longrightarrow>
   CompileInterest key = Inr \<lparr>Exact = key, Pattern = [], AlsoExact = []\<rparr>"
  by (simp add: CompileInterest_def Contains_star)

lemma CompileInterest_invalid:
  "ValidateTopic key = Some e \<Longrightarrow> CompileInterest key = Inl (BadTopic e)"
  by (simp add: CompileInterest_def)

lemma not_IsWildcard_literal: "\<not> IsWildcard key \<longleftrightarrow> literal_segs (SplitSegments key)"
  by (simp add: not_IsWildcard_segs literal_segs_def)

lemma namespaced_channel:
  assumes "NamespaceOf ch = Inr ns"
  obtains t where "ch = ns @ '':'' @ t" "SplitSegments ch = ns # SplitSegments t" "CHR '':'' \<notin> set t"
    "validNamespace ns"
  using assms by (auto simp: NamespaceOf_Inr splitNamespace_Some SplitSegments_namespaced)

lemma joinPrefix_namespaced:
  assumes "NamespaceOf key = Inr ns" "front \<noteq> []"
  shows "joinPrefix key (ns # front) = (ns @ '':'' @ Join front ''.'', ''.'')"
    "joinPrefix key [ns] = (ns, '':'')"
  using assms by (auto simp: joinPrefix_def Contains_char elim!: namespaced_channel)

lemma joinPrefix_literal:
  assumes "SplitSegments key = front @ [l]" "literal_segs front" "\<forall>c \<in> set key. \<not> glob_special c"
    "front \<noteq> []"
  shows "glob_literal (fst (joinPrefix key front) @ snd (joinPrefix key front))"
proof -
  have seg: "c \<noteq> CHR ''*'' \<and> \<not> glob_special c" if "seg \<in> set front" "c \<in> set seg" for seg c
    using that assms split_segs_set [of seg key c] by (auto simp: literal_segs_def SplitSegments_eq)
  have "c \<noteq> CHR ''*'' \<and> \<not> glob_special c" if "c \<in> set (Join fs ''.'')" "set fs \<subseteq> set front" for c fs
    using set_Join [OF that(1)] seg that(2) by (auto simp: glob_special_def)
  moreover have "set (drop 1 front) \<subseteq> set front" by (rule set_drop_subset)
  moreover have "front ! 0 \<in> set front" using assms(4) by simp
  ultimately show ?thesis
    using seg by (fastforce simp: joinPrefix_def glob_literal_def glob_special_def)
qed

text \<open>A namespaced key and a namespaced channel it matches: the channel is the prefix, or
  continues it after the separator.\<close>

lemma Match_wild_prefix:
  assumes k: "NamespaceOf key = Inr ns" "SplitSegments key = front @ [lst]" "literal_segs front"
      "front \<noteq> []" "lst = wildcard \<or> lst = multiWildcard"
    and c: "NamespaceOf ch = Inr ns'" and m: "Match key ch"
  shows "prefix (fst (joinPrefix key front) @ snd (joinPrefix key front)) ch \<or>
    lst = multiWildcard \<and> ch = fst (joinPrefix key front)"
proof -
  obtain kt where kt: "SplitSegments key = ns # SplitSegments kt" using k(1) by (rule namespaced_channel)
  obtain t where t: "ch = ns' @ '':'' @ t" "SplitSegments ch = ns' # SplitSegments t"
    "CHR '':'' \<notin> set t" using c by (rule namespaced_channel)
  obtain fs where fs: "front = ns # fs" using k(2,4) kt by (cases front) auto
  have "seg_match (front @ [lst]) (ns' # SplitSegments t)"
    using m k(2) t(2) by (simp add: Match_def matchCriteria_eq)
  then obtain rest where rest: "ns' # SplitSegments t = front @ rest" "lst = wildcard \<Longrightarrow> rest \<noteq> []"
    using k(3,5) by (auto simp: literal_segs_def seg_match_star seg_match_dstar)
  then have ns: "ns' = ns" "SplitSegments t = fs @ rest" using fs by auto
  have tj: "t = Join (fs @ rest) ''.''" using Join_SplitSegments [OF t(3)] ns(2) by simp
  show ?thesis
  proof (cases "fs = []")
    case True
    then show ?thesis using joinPrefix_namespaced(2) [OF k(1), of "[x]" for x] t(1) ns fs by simp
  next
    case False
    note jp = joinPrefix_namespaced(1) [OF k(1) False]
    show ?thesis
    proof (cases "rest = []")
      case True
      then show ?thesis using rest(2) k(5) jp fs t(1) ns tj by auto
    next
      case False
      then show ?thesis using jp fs t(1) ns tj \<open>fs \<noteq> []\<close> by (simp add: Join_append)
    qed
  qed
qed

section \<open>Properties\<close>

text \<open>
  Compilation accepts exactly the routable keys: valid topics that are literal, or whose
  only wildcard is the last segment after a non-empty literal prefix. Bare \<^verbatim>\<open>*\<close> and \<^verbatim>\<open>**\<close>, which
  would subscribe to the whole cluster, are rejected; an invalid topic keeps its own error.
\<close>

lemma CompileInterest_accepts:
  "(\<exists>ci. CompileInterest key = Inr ci) = routable key \<and>
   (CompileInterest key = Inl (BadTopic ErrBadTopic)) = (ValidateTopic key \<noteq> None)"
proof (cases "ValidateTopic key")
  case None
  obtain front lst where s: "SplitSegments key = front @ [lst]" using segments_snoc by blast
  show ?thesis
  proof (cases "IsWildcard key")
    case True
    then show ?thesis
      using None s CompileInterest_wild [OF None True s] not_IsWildcard_literal [of key]
      by (auto simp: routable_def)
  next
    case False
    then show ?thesis
      using None CompileInterest_literal [OF None False] not_IsWildcard_literal [of key]
      by (auto simp: routable_def)
  qed
next
  case (Some e)
  then show ?thesis
    using CompileInterest_invalid [OF Some] by (auto simp: routable_def ValidateTopic_def split: if_splits)
qed


definition example_glob :: "string \<Rightarrow> string \<Rightarrow> bool" where
  "example_glob pat ch = prefix (butlast pat) ch"


end
