(* ===== verification/Authorizer.thy ===== *)
theory Authorizer
  imports Interest Policy
begin

text \<open>
  The authorization evaluator, \<^verbatim>\<open>internal/authz/authorizer.go\<close> and \<^verbatim>\<open>identity.go\<close>: rule
  compilation, \<^verbatim>\<open>Decide\<close> for every action, the effective policy of a channel, and the
  intersection test on rule patterns, which is shown to decide whether two pattern languages have
  a channel in common.
\<close>

unbundle bit_operations_syntax

section \<open>Subjects and capabilities\<close>

datatype Action = ActionSubscribePattern | ActionPublish | ActionRecover | ActionPresence | ActionSurvey

datatype PrincipalKind = PrincipalUser | PrincipalServer

type_synonym Capability = u32

record Principal =
  Kind :: PrincipalKind
  UserID :: string
  Caps :: Capability

text \<open>\<^verbatim>\<open>ClosedCapabilityNames\<close>: the bits in the order of their declaration.\<close>

definition ClosedCapabilityNames :: "(string, Capability) gomap" where
  "ClosedCapabilityNames =
     [(''presence.large_snapshot'', 1), (''survey.bypass_gate'', 2), (''history.read'', 4),
      (''presence.read'', 8), (''channels.list'', 16), (''session.act'', 32),
      (''user.fanout'', 64), (''subscribe.any'', 128), (''pattern.global'', 256)]"

definition ParseCapabilityNames :: "string list \<Rightarrow> Capability" where
  "ParseCapabilityNames names =
     foldl (\<lambda>caps name. case mget ClosedCapabilityNames name of
              Some b \<Rightarrow> caps OR b | None \<Rightarrow> caps) 0 names"

definition DefaultCapabilityCeiling :: Capability where
  "DefaultCapabilityCeiling = 1 OR 2 OR 4 OR 8 OR 16 OR 32 OR 64 OR 128"

record APIIdentity =
  KeyID :: string
  Namespaces :: "string list"
  IdentityCaps :: Capability

definition apiPrincipal :: "APIIdentity \<Rightarrow> Principal" where
  "apiPrincipal i =
     \<lparr>Kind = PrincipalServer,
      UserID = (if KeyID i \<noteq> ''static-token'' \<and> KeyID i \<noteq> ''insecure'' then ''key:'' @ KeyID i
                else ''admin''),
      Caps = IdentityCaps i\<rparr>"

definition AllowsNamespace :: "APIIdentity \<Rightarrow> string \<Rightarrow> bool" where
  "AllowsNamespace i ns = (if ''*'' \<in> set (Namespaces i) then True else ns \<in> set (Namespaces i))"

definition AllowsChannel :: "APIIdentity \<Rightarrow> string \<Rightarrow> bool" where
  "AllowsChannel i ch =
     (case NamespaceOf ch of Inl err \<Rightarrow> False | Inr ns \<Rightarrow> AllowsNamespace i ns)"

section \<open>Rules\<close>

datatype patternKind = patternExact | patternStar | patternDStar

record compiledRulePattern =
  kind :: patternKind
  segments :: "string list"

datatype authz_error = ErrInvalidRulePattern

text \<open>A nil allow list is \<open>None\<close>: the rule does not constrain the action.\<close>

record compiledRule =
  raw :: string
  pattern :: compiledRulePattern
  denyAll :: bool
  allowSubscribe :: "string list option"
  subscribeAll :: bool
  allowPublish :: "string list option"
  publishAll :: bool
  allowSurvey :: "string list option"
  surveyAll :: bool
  surveySet :: bool
  effects :: CompiledPolicySpec

record AuthorizerRule =
  rule_Pattern :: string
  rule_DenyAll :: bool
  rule_AllowSubscribe :: "string list option"
  rule_AllowPublish :: "string list option"
  rule_AllowSurvey :: "string list option"
  rule_ChannelPolicySpec :: ChannelPolicySpec

record AuthorizerConfig =
  Default :: ChannelPolicySpec
  Rules :: "AuthorizerRule list"

record Authorizer =
  base :: ChannelPolicy
  rules :: "compiledRule list"

datatype Reason = reason_default | reason_deny_all | reason_allow_list | reason_effects
  | reason_not_routable | reason_missing_capability | reason_language

record Decision =
  Allow :: bool
  DecisionReason :: Reason
  Effects :: ChannelPolicy

definition compileAllowList :: "string list option \<Rightarrow> string list option \<times> bool" where
  "compileAllowList list =
     (case list of None \<Rightarrow> (None, False) | Some l \<Rightarrow> (Some l, list_ex (\<lambda>userID. userID = ''*'') l))"

definition compilePattern :: "string \<Rightarrow> authz_error + compiledRulePattern" where
  "compilePattern pat =
     (if ValidateTopic pat \<noteq> None then Inl ErrInvalidRulePattern
      else if \<not> Contains pat ''*'' then Inr \<lparr>kind = patternExact, segments = SplitSegments pat\<rparr>
      else
        let segs = SplitSegments pat;
            lst = segs ! (length segs - 1);
            prefix = take (length segs - 1) segs
        in if lst \<noteq> ''*'' \<and> lst \<noteq> ''**'' then Inl ErrInvalidRulePattern
           else if list_ex (\<lambda>seg. Contains seg ''*'') prefix then Inl ErrInvalidRulePattern
           else if prefix = [] then Inl ErrInvalidRulePattern
           else Inr \<lparr>kind = (if lst = ''**'' then patternDStar else patternStar), segments = prefix\<rparr>)"

definition compileRule ::
    "(string \<Rightarrow> duration option) \<Rightarrow> AuthorizerRule \<Rightarrow> authz_error + compiledRule" where
  "compileRule ParseDuration rule =
     (case compilePattern (rule_Pattern rule) of
        Inl err \<Rightarrow> Inl err
      | Inr p \<Rightarrow>
          let (aSub, subAll) = compileAllowList (rule_AllowSubscribe rule);
              (aPub, pubAll) = compileAllowList (rule_AllowPublish rule);
              (aSur, surAll) = compileAllowList (rule_AllowSurvey rule)
          in Inr \<lparr>raw = rule_Pattern rule, pattern = p, denyAll = rule_DenyAll rule,
               allowSubscribe = aSub, subscribeAll = subAll,
               allowPublish = aPub, publishAll = pubAll,
               allowSurvey = aSur, surveyAll = surAll,
               surveySet = (cfg_Survey (rule_ChannelPolicySpec rule) \<noteq> None),
               effects = CompilePolicySpec ParseDuration (rule_ChannelPolicySpec rule)\<rparr>)"

fun compileRules ::
    "(string \<Rightarrow> duration option) \<Rightarrow> AuthorizerRule list \<Rightarrow> authz_error + compiledRule list" where
  "compileRules ParseDuration [] = Inr []"
| "compileRules ParseDuration (rule # rs) =
     (case compileRule ParseDuration rule of
        Inl err \<Rightarrow> Inl err
      | Inr c \<Rightarrow> (case compileRules ParseDuration rs of Inl err \<Rightarrow> Inl err | Inr cs \<Rightarrow> Inr (c # cs)))"

definition NewAuthorizer ::
    "(string \<Rightarrow> duration option) \<Rightarrow> AuthorizerConfig \<Rightarrow> authz_error + Authorizer" where
  "NewAuthorizer ParseDuration cfg =
     (case compileRules ParseDuration (Rules cfg) of
        Inl err \<Rightarrow> Inl err
      | Inr rs \<Rightarrow>
          Inr \<lparr>base = Overlay DefaultChannelPolicy (CompilePolicySpec ParseDuration (Default cfg)),
               rules = rs\<rparr>)"

section \<open>Patterns\<close>

definition isPrefix :: "string list \<Rightarrow> string list \<Rightarrow> bool" where
  "isPrefix shorter longer =
     (if length shorter > length longer then False
      else list_all (\<lambda>i. shorter ! i = longer ! i) [0..<length shorter])"

definition starIntersectsDStar :: "string list \<Rightarrow> string list \<Rightarrow> bool" where
  "starIntersectsDStar S D =
     (if isPrefix D S then True
      else if isPrefix S D then length D = length S + 1
      else False)"

fun kindRank :: "patternKind \<Rightarrow> nat" where
  "kindRank patternExact = 0"
| "kindRank patternStar = 1"
| "kindRank patternDStar = 1"

text \<open>The two recursive calls swap the arguments so that the exact pattern comes first.\<close>

function patternsIntersect :: "compiledRulePattern \<Rightarrow> compiledRulePattern \<Rightarrow> bool" where
  "patternsIntersect a b =
     (case kind a of
        patternExact \<Rightarrow>
          (case kind b of
             patternExact \<Rightarrow> segments a = segments b
           | patternStar \<Rightarrow>
               length (segments a) = length (segments b) + 1 \<and> isPrefix (segments b) (segments a)
           | patternDStar \<Rightarrow> isPrefix (segments b) (segments a))
      | patternStar \<Rightarrow>
          (case kind b of
             patternExact \<Rightarrow> patternsIntersect b a
           | patternStar \<Rightarrow> segments a = segments b
           | patternDStar \<Rightarrow> starIntersectsDStar (segments a) (segments b))
      | patternDStar \<Rightarrow>
          (case kind b of
             patternExact \<Rightarrow> patternsIntersect b a
           | patternStar \<Rightarrow> starIntersectsDStar (segments b) (segments a)
           | patternDStar \<Rightarrow>
               isPrefix (segments a) (segments b) \<or> isPrefix (segments b) (segments a)))"
  by pat_completeness auto
termination
  by (relation "measure (\<lambda>(a, b). kindRank (kind a))") auto

declare patternsIntersect.simps [simp del]

section \<open>Decisions\<close>

definition ruleDenies :: "compiledRule \<Rightarrow> string list option \<Rightarrow> bool \<Rightarrow> Principal \<Rightarrow> bool" where
  "ruleDenies rule allowList wild p =
     (if denyAll rule then True
      else case allowList of
             None \<Rightarrow> False
           | Some l \<Rightarrow> if wild then False else UserID p \<notin> set l)"

definition effectsLocked :: "Authorizer \<Rightarrow> string \<Rightarrow> ChannelPolicy" where
  "effectsLocked a channel =
     (let pol = foldl (\<lambda>pol rule. if Match (raw rule) channel then Overlay pol (effects rule) else pol)
            (base a) (rules a)
      in if TransientOnly pol then pol\<lparr>History := False, Recover := False\<rparr> else pol)"

definition decision :: "bool \<Rightarrow> Reason \<Rightarrow> ChannelPolicy \<Rightarrow> Decision" where
  "decision allow reason eff = \<lparr>Allow = allow, DecisionReason = reason, Effects = eff\<rparr>"

text \<open>The loop of \<^verbatim>\<open>ActionSubscribePattern\<close>: is there a rule that returns early?\<close>

fun subscribeLoop :: "compiledRulePattern \<Rightarrow> Principal \<Rightarrow> compiledRule list \<Rightarrow> Reason option" where
  "subscribeLoop key p [] = None"
| "subscribeLoop key p (rule # rs) =
     (if ruleDenies rule (allowSubscribe rule) (subscribeAll rule) p \<and>
         patternsIntersect key (pattern rule)
      then Some reason_language else subscribeLoop key p rs)"

fun publishLoop :: "string \<Rightarrow> Principal \<Rightarrow> compiledRule list \<Rightarrow> Reason option" where
  "publishLoop channel p [] = None"
| "publishLoop channel p (rule # rs) =
     (if \<not> Match (raw rule) channel then publishLoop channel p rs
      else if denyAll rule then Some reason_deny_all
      else if ruleDenies rule (allowPublish rule) (publishAll rule) p then Some reason_allow_list
      else publishLoop channel p rs)"

fun denyAllLoop :: "string \<Rightarrow> compiledRule list \<Rightarrow> Reason option" where
  "denyAllLoop channel [] = None"
| "denyAllLoop channel (rule # rs) =
     (if denyAll rule \<and> Match (raw rule) channel then Some reason_deny_all else denyAllLoop channel rs)"

text \<open>The loop of \<^verbatim>\<open>ActionSurvey\<close> over \<open>(denied, allowed, surveyTouched)\<close>.\<close>

definition surveyStep ::
    "string \<Rightarrow> Principal \<Rightarrow> Reason option \<times> bool \<times> bool \<Rightarrow> compiledRule \<Rightarrow> Reason option \<times> bool \<times> bool" where
  "surveyStep channel p st rule =
     (case st of (denied, allowed, touched) \<Rightarrow>
        if \<not> Match (raw rule) channel then (denied, allowed, touched)
        else
          let touched = (touched \<or> surveySet rule);
              denied = (if denyAll rule then Some reason_deny_all else denied)
          in case allowSurvey rule of
               None \<Rightarrow> (denied, allowed, touched)
             | Some l \<Rightarrow>
                 if surveyAll rule \<or> UserID p \<in> set l then (denied, True, touched)
                 else if denied = None then (Some reason_allow_list, allowed, touched)
                 else (denied, allowed, touched))"

definition decideLocked :: "Authorizer \<Rightarrow> Principal \<Rightarrow> Action \<Rightarrow> string \<Rightarrow> Decision" where
  "decideLocked a p action channel =
     (let eff = effectsLocked a channel
      in case action of
           ActionSubscribePattern \<Rightarrow>
             (case compilePattern channel of
                Inl err \<Rightarrow> decision False reason_not_routable eff
              | Inr key \<Rightarrow>
                  (case subscribeLoop key p (rules a) of
                     Some r \<Rightarrow> decision False r eff
                   | None \<Rightarrow> decision True reason_default eff))
         | ActionPublish \<Rightarrow>
             (case publishLoop channel p (rules a) of
                Some r \<Rightarrow> decision False r eff
              | None \<Rightarrow> decision True reason_default eff)
         | ActionSurvey \<Rightarrow>
             (case foldl (surveyStep channel p)
                     (None, False, Survey (base a) \<noteq> Survey DefaultChannelPolicy) (rules a) of
                (denied, allowed, touched) \<Rightarrow>
                  if \<not> Survey eff then
                    decision False (if touched then reason_effects else reason_default) eff
                  else case denied of
                         Some r \<Rightarrow> decision False r eff
                       | None \<Rightarrow>
                           if \<not> allowed then decision False reason_default eff
                           else decision True reason_default eff)
         | ActionRecover \<Rightarrow>
             if IsWildcard channel then decision False reason_default eff
             else (case denyAllLoop channel (rules a) of
                     Some r \<Rightarrow> decision False r eff
                   | None \<Rightarrow>
                       if \<not> Recover eff then decision False reason_effects eff
                       else decision True reason_default eff)
         | ActionPresence \<Rightarrow>
             if IsWildcard channel then decision False reason_default eff
             else (case denyAllLoop channel (rules a) of
                     Some r \<Rightarrow> decision False r eff
                   | None \<Rightarrow>
                       if \<not> Presence eff then decision False reason_effects eff
                       else decision True reason_default eff))"

text \<open>\<^verbatim>\<open>Decide\<close> is \<^verbatim>\<open>decideLocked\<close> under the read lock.\<close>

definition Decide :: "Authorizer \<Rightarrow> Principal \<Rightarrow> Action \<Rightarrow> string \<Rightarrow> Decision" where
  "Decide a p action channel = decideLocked a p action channel"

definition ReplaceRules ::
    "(string \<Rightarrow> duration option) \<Rightarrow> Authorizer \<Rightarrow> AuthorizerConfig \<Rightarrow> authz_error option \<times> Authorizer" where
  "ReplaceRules ParseDuration a cfg =
     (case NewAuthorizer ParseDuration cfg of
        Inl err \<Rightarrow> (Some err, a)
      | Inr r \<Rightarrow> (None, a\<lparr>base := base r, rules := rules r\<rparr>))"

fun skipLoop :: "compiledRulePattern \<Rightarrow> compiledRule list \<Rightarrow> Reason option" where
  "skipLoop key [] = None"
| "skipLoop key (rule # rs) =
     (if denyAll rule \<and> patternsIntersect key (pattern rule) then Some reason_language
      else skipLoop key rs)"

definition DecideSubscribeSkipAllowLists :: "Authorizer \<Rightarrow> string \<Rightarrow> Decision" where
  "DecideSubscribeSkipAllowLists a channel =
     (let eff = effectsLocked a channel
      in case compilePattern channel of
           Inl err \<Rightarrow> decision False reason_not_routable eff
         | Inr key \<Rightarrow>
             (case skipLoop key (rules a) of
                Some r \<Rightarrow> decision False r eff
              | None \<Rightarrow> decision True reason_default eff))"

definition PatternsToRevoke :: "Authorizer \<Rightarrow> Principal \<Rightarrow> string list \<Rightarrow> string list" where
  "PatternsToRevoke a p subscribed =
     filter (\<lambda>key. \<not> Allow (Decide a p ActionSubscribePattern key)) subscribed"

section \<open>The language of a pattern\<close>

text \<open>The segment lists a compiled pattern stands for.\<close>

definition lang :: "compiledRulePattern \<Rightarrow> string list \<Rightarrow> bool" where
  "lang cp ts =
     (case kind cp of
        patternExact \<Rightarrow> ts = segments cp
      | patternStar \<Rightarrow> (\<exists>x. ts = segments cp @ [x])
      | patternDStar \<Rightarrow> (\<exists>r. ts = segments cp @ r))"

text \<open>Segments that can be part of a concrete channel.\<close>

definition concrete :: "string list \<Rightarrow> bool" where
  "concrete segs \<longleftrightarrow> segs \<noteq> [] \<and> (\<forall>seg \<in> set segs. seg \<noteq> [] \<and> (\<forall>c \<in> set seg. \<not> is_delim c))"

lemma isPrefix_eq: "isPrefix xs ys \<longleftrightarrow> prefix xs ys"
proof
  assume "isPrefix xs ys"
  then have "length xs \<le> length ys" "xs = take (length xs) ys"
    by (auto simp: isPrefix_def list_all_upt intro!: nth_equalityI split: if_splits)
  then show "prefix xs ys" using take_is_prefix [of "length xs" ys] by simp
next
  assume "prefix xs ys"
  then show "isPrefix xs ys"
    by (auto simp: isPrefix_def list_all_upt prefix_def nth_append)
qed

lemma compilePattern_Inr:
  assumes "compilePattern pat = Inr cp"
  shows "ValidateTopic pat = None" "literal_segs (segments cp)" "concrete (segments cp)"
    "SplitSegments pat = segments cp @ (case kind cp of patternExact \<Rightarrow> [] | patternStar \<Rightarrow> [wildcard]
       | patternDStar \<Rightarrow> [multiWildcard])"
proof -
  show v: "ValidateTopic pat = None" using assms by (auto simp: compilePattern_def split: if_splits)
  obtain front l where s: "SplitSegments pat = front @ [l]" using segments_snoc by blast
  show lit: "literal_segs (segments cp)" and
    eq: "SplitSegments pat = segments cp @ (case kind cp of patternExact \<Rightarrow> [] | patternStar \<Rightarrow> [wildcard]
       | patternDStar \<Rightarrow> [multiWildcard])"
    using assms s not_IsWildcard_literal [of pat]
    by (auto simp: compilePattern_def Contains_star Let_def nth_append literal_segs_def list_ex_iff
        IsWildcard_def Contains_char split: if_splits)
  have "segments cp \<noteq> []"
    using assms by (auto simp: compilePattern_def Let_def split: if_splits)
  moreover have "[] \<notin> set (SplitSegments pat)"
    using v by (auto simp: ValidateTopic_def validTopic_eq valid_segs_def split: if_splits)
  ultimately show "concrete (segments cp)"
    using eq SplitSegments_nodelim [of _ pat] by (auto simp: concrete_def)
qed

lemma seg_match_lang:
  assumes "compilePattern pat = Inr cp"
  shows "seg_match (SplitSegments pat) ts \<longleftrightarrow> lang cp ts"
proof -
  have "\<forall>p \<in> set (segments cp). CHR ''*'' \<notin> set p"
    using compilePattern_Inr(2) [OF assms] by (simp add: literal_segs_def)
  then show ?thesis
    using compilePattern_Inr(4) [OF assms]
    by (cases "kind cp") (simp_all add: lang_def seg_match_literal seg_match_star seg_match_dstar)
qed

lemma Match_lang:
  "compilePattern pat = Inr cp \<Longrightarrow> Match pat ch \<longleftrightarrow> [] \<notin> set (SplitSegments ch) \<and> lang cp (SplitSegments ch)"
  by (simp add: Match_def matchCriteria_eq seg_match_lang)

lemma concrete_append: "concrete xs \<Longrightarrow> concrete ys \<Longrightarrow> concrete (xs @ ys)"
  by (auto simp: concrete_def)

lemma patternsIntersect_concrete:
  assumes "patternsIntersect a b" "concrete (segments a)" "concrete (segments b)"
  shows "\<exists>ts. concrete ts \<and> lang a ts \<and> lang b ts"
proof -
  have x: "concrete [''x'']" by (simp add: concrete_def is_delim_def)
  have ax: "concrete (segments a @ [''x''])" "concrete (segments b @ [''x''])"
    using assms x by (simp_all add: concrete_append)
  have d1: "\<exists>x. D = S @ [x]" if "prefix S D" "length D = Suc (length S)" for S D :: "string list"
  proof -
    from that obtain zs where "D = S @ zs" "length zs = Suc 0" by (auto simp: prefix_def)
    then show ?thesis by (cases zs) auto
  qed
  have sd: "\<exists>ts. concrete ts \<and> (\<exists>x. ts = S @ [x]) \<and> (\<exists>r. ts = D @ r)"
    if "starIntersectsDStar S D" "concrete S" "concrete D" for S D
  proof (cases "prefix D S")
    case True
    then have "\<exists>r. S @ [''x''] = D @ r" by (auto simp: prefix_def)
    then show ?thesis using that concrete_append [OF that(2) x] by blast
  next
    case False
    then have "\<exists>x. D = S @ [x]"
      using that d1 [of S D] by (auto simp: starIntersectsDStar_def isPrefix_eq split: if_splits)
    then show ?thesis using that by (metis append_Nil2)
  qed
  show ?thesis
  proof (cases "kind a"; cases "kind b")
    assume k: "kind a = patternStar" "kind b = patternDStar"
    then show ?thesis
      using sd [of "segments a" "segments b"] assms by (simp add: patternsIntersect.simps lang_def)
  next
    assume k: "kind a = patternDStar" "kind b = patternStar"
    then show ?thesis
      using sd [of "segments b" "segments a"] assms by (simp add: patternsIntersect.simps lang_def) blast
  next
    assume k: "kind a = patternDStar" "kind b = patternDStar"
    then have "prefix (segments a) (segments b) \<or> prefix (segments b) (segments a)"
      using assms(1) by (simp add: patternsIntersect.simps isPrefix_eq)
    then show ?thesis
      using k assms(2,3) by (auto simp: lang_def prefix_def)
  next
    assume k: "kind a = patternStar" "kind b = patternStar"
    then show ?thesis using ax assms(1) by (auto simp: patternsIntersect.simps lang_def)
  qed (use assms d1 in \<open>auto simp: patternsIntersect.simps lang_def isPrefix_eq prefix_def\<close>)
qed

lemma lang_intersect:
  assumes "lang a ts" "lang b ts"
  shows "patternsIntersect a b"
proof -
  have pp: "prefix xs ys \<or> prefix ys xs" if "xs @ u = ys @ v" for xs ys u v :: "string list"
    using that by (auto simp: append_eq_append_conv2 prefix_def)
  have sd: "starIntersectsDStar S D" if "S @ [x] = D @ r" for S D x r
    using that by (cases r rule: rev_cases) (auto simp: starIntersectsDStar_def isPrefix_eq)
  show ?thesis
    using assms pp sd
    by (cases "kind a"; cases "kind b")
      (auto simp: patternsIntersect.simps lang_def isPrefix_eq, metis sd)
qed

lemma intersect_channel:
  assumes "compilePattern pa = Inr a" "compilePattern pb = Inr b"
  shows "patternsIntersect a b \<longleftrightarrow> (\<exists>ch. Match pa ch \<and> Match pb ch)"
proof
  assume "patternsIntersect a b"
  then obtain ts where ts: "concrete ts" "lang a ts" "lang b ts"
    using patternsIntersect_concrete compilePattern_Inr(3) [OF assms(1)]
      compilePattern_Inr(3) [OF assms(2)] by blast
  then have "SplitSegments (Join ts ''.'') = ts" "[] \<notin> set ts"
    by (auto simp: concrete_def intro!: SplitSegments_Join)
  then show "\<exists>ch. Match pa ch \<and> Match pb ch"
    using ts Match_lang [OF assms(1)] Match_lang [OF assms(2)] by metis
next
  assume "\<exists>ch. Match pa ch \<and> Match pb ch"
  then show "patternsIntersect a b"
    using lang_intersect Match_lang [OF assms(1)] Match_lang [OF assms(2)] by blast
qed

section \<open>Compiled tables\<close>

definition rule_wf :: "compiledRule \<Rightarrow> bool" where
  "rule_wf r \<longleftrightarrow> compilePattern (raw r) = Inr (pattern r)"

definition table_wf :: "Authorizer \<Rightarrow> bool" where
  "table_wf a \<longleftrightarrow> (\<forall>r \<in> set (rules a). rule_wf r)"

lemma compileRule_wf: "compileRule PD rule = Inr c \<Longrightarrow> rule_wf c"
  by (auto simp: compileRule_def rule_wf_def Let_def split_beta split: sum.splits)

lemma compileRules_wf: "compileRules PD rs = Inr cs \<Longrightarrow> \<forall>c \<in> set cs. rule_wf c"
  by (induction rs arbitrary: cs) (auto split: sum.splits dest: compileRule_wf)

lemma NewAuthorizer_wf: "NewAuthorizer PD cfg = Inr a \<Longrightarrow> table_wf a"
  by (auto simp: NewAuthorizer_def table_wf_def split: sum.splits dest: compileRules_wf)

lemma ReplaceRules_wf: "table_wf a \<Longrightarrow> table_wf (snd (ReplaceRules PD a cfg))"
  using NewAuthorizer_wf [of PD cfg] by (auto simp: ReplaceRules_def table_wf_def split: sum.splits)

lemma subscribeLoop_None:
  "subscribeLoop key p rs = None \<longleftrightarrow> (\<forall>rule \<in> set rs.
     ruleDenies rule (allowSubscribe rule) (subscribeAll rule) p \<longrightarrow> \<not> patternsIntersect key (pattern rule))"
  by (induction rs) auto

lemma skipLoop_None:
  "skipLoop key rs = None \<longleftrightarrow> (\<forall>rule \<in> set rs. denyAll rule \<longrightarrow> \<not> patternsIntersect key (pattern rule))"
  by (induction rs) auto

lemma publishLoop_None:
  "publishLoop channel p rs = None \<longleftrightarrow> (\<forall>rule \<in> set rs.
     Match (raw rule) channel \<longrightarrow> \<not> ruleDenies rule (allowPublish rule) (publishAll rule) p)"
  by (induction rs) (auto simp: ruleDenies_def)

lemma denyAllLoop_None:
  "denyAllLoop channel rs = None \<longleftrightarrow> (\<forall>rule \<in> set rs. denyAll rule \<longrightarrow> \<not> Match (raw rule) channel)"
  by (induction rs) auto

lemma Allow_decision [simp]: "Allow (decision b r e) = b"
  by (simp add: decision_def)

lemma table_intersect:
  "table_wf a \<Longrightarrow> compilePattern key = Inr cp \<Longrightarrow> rule \<in> set (rules a) \<Longrightarrow>
   patternsIntersect cp (pattern rule) \<longleftrightarrow> (\<exists>ch. Match key ch \<and> Match (raw rule) ch)"
  by (simp add: intersect_channel table_wf_def rule_wf_def)

lemma subscribe_allowed:
  assumes "table_wf a"
  shows "Allow (Decide a p ActionSubscribePattern key) \<longleftrightarrow> (\<exists>cp. compilePattern key = Inr cp) \<and>
    (\<forall>rule \<in> set (rules a). ruleDenies rule (allowSubscribe rule) (subscribeAll rule) p \<longrightarrow>
       \<not> (\<exists>ch. Match key ch \<and> Match (raw rule) ch))"
proof (cases "compilePattern key")
  case (Inr cp)
  then have "Allow (Decide a p ActionSubscribePattern key) \<longleftrightarrow> subscribeLoop cp p (rules a) = None"
    by (simp add: Decide_def decideLocked_def Let_def split: option.split)
  then show ?thesis
    using table_intersect [OF assms Inr] Inr by (simp add: subscribeLoop_None)
qed (simp add: Decide_def decideLocked_def Let_def)

lemma skip_allowed:
  assumes "table_wf a"
  shows "Allow (DecideSubscribeSkipAllowLists a key) \<longleftrightarrow> (\<exists>cp. compilePattern key = Inr cp) \<and>
    (\<forall>rule \<in> set (rules a). denyAll rule \<longrightarrow> \<not> (\<exists>ch. Match key ch \<and> Match (raw rule) ch))"
proof (cases "compilePattern key")
  case (Inr cp)
  then have "Allow (DecideSubscribeSkipAllowLists a key) \<longleftrightarrow> skipLoop cp (rules a) = None"
    by (simp add: DecideSubscribeSkipAllowLists_def Let_def split: option.split)
  then show ?thesis
    using table_intersect [OF assms Inr] Inr by (simp add: skipLoop_None)
qed (simp add: DecideSubscribeSkipAllowLists_def Let_def)

text \<open>Does a rule permit a survey, and does it forbid one?\<close>

definition survey_permits :: "Principal \<Rightarrow> compiledRule \<Rightarrow> bool" where
  "survey_permits p rule =
     (case allowSurvey rule of None \<Rightarrow> False | Some l \<Rightarrow> surveyAll rule \<or> UserID p \<in> set l)"

definition survey_forbids :: "Principal \<Rightarrow> compiledRule \<Rightarrow> bool" where
  "survey_forbids p rule = (denyAll rule \<or> allowSurvey rule \<noteq> None \<and> \<not> survey_permits p rule)"

lemma survey_fold:
  assumes "foldl (surveyStep ch p) (d, al, t) rs = (d', al', t')"
  shows "(d' = None) = (d = None \<and> (\<forall>r \<in> set rs. Match (raw r) ch \<longrightarrow> \<not> survey_forbids p r))"
    "al' = (al \<or> (\<exists>r \<in> set rs. Match (raw r) ch \<and> survey_permits p r))"
proof -
  have "(d' = None) = (d = None \<and> (\<forall>r \<in> set rs. Match (raw r) ch \<longrightarrow> \<not> survey_forbids p r)) \<and>
    al' = (al \<or> (\<exists>r \<in> set rs. Match (raw r) ch \<and> survey_permits p r))"
    using assms
  proof (induction rs arbitrary: d al t)
    case (Cons r rs)
    obtain d1 a1 t1 where s: "surveyStep ch p (d, al, t) r = (d1, a1, t1)" by (metis prod_cases3)
    then have "(d1 = None) = (d = None \<and> (Match (raw r) ch \<longrightarrow> \<not> survey_forbids p r))"
      "a1 = (al \<or> Match (raw r) ch \<and> survey_permits p r)"
      by (auto simp: surveyStep_def Let_def survey_forbids_def survey_permits_def
          split: if_splits option.splits)
    then show ?case using Cons(1) [of d1 a1 t1] Cons(2) s by auto
  qed simp
  then show "(d' = None) = (d = None \<and> (\<forall>r \<in> set rs. Match (raw r) ch \<longrightarrow> \<not> survey_forbids p r))"
    "al' = (al \<or> (\<exists>r \<in> set rs. Match (raw r) ch \<and> survey_permits p r))" by blast+
qed

text \<open>The overlays of the rules that match, in table order.\<close>

definition matching_effects :: "Authorizer \<Rightarrow> string \<Rightarrow> CompiledPolicySpec list" where
  "matching_effects a ch = map effects (filter (\<lambda>r. Match (raw r) ch) (rules a))"

lemma effectsLocked_eq:
  "effectsLocked a ch = (let pol = foldl Overlay (base a) (matching_effects a ch)
     in if TransientOnly pol then pol\<lparr>History := False, Recover := False\<rparr> else pol)"
proof -
  have "foldl (\<lambda>pol rule. if Match (raw rule) ch then Overlay pol (effects rule) else pol) b rs =
    foldl Overlay b (map effects (filter (\<lambda>r. Match (raw r) ch) rs))"
    for b and rs :: "compiledRule list"
    by (induction rs arbitrary: b) auto
  then show ?thesis unfolding effectsLocked_def matching_effects_def by (simp only:)
qed

section \<open>Properties\<close>

text \<open>
  (C16) \<^verbatim>\<open>patternsIntersect\<close> decides, without enumerating channels, whether two compiled rule
  patterns have a channel in common; the test is symmetric.
\<close>

theorem patternsIntersect_iff:
  assumes "compilePattern pa = Inr a" and "compilePattern pb = Inr b"
  shows "(patternsIntersect a b \<longleftrightarrow> (\<exists>ch. Match pa ch \<and> Match pb ch)) \<and>
    patternsIntersect a b = patternsIntersect b a"
  using intersect_channel [OF assms] intersect_channel [OF assms(2,1)] by auto

theorem patternsIntersect_iff_witness:
  "\<exists>a b. compilePattern ''acme:im.*'' = Inr a \<and> compilePattern ''acme:im.room.**'' = Inr b \<and>
     (\<exists>ch. Match ''acme:im.*'' ch \<and> Match ''acme:im.room.**'' ch)"
proof -
  define a where "a = \<lparr>kind = patternStar, segments = [''acme'', ''im'']\<rparr>"
  define b where "b = \<lparr>kind = patternDStar, segments = [''acme'', ''im'', ''room'']\<rparr>"
  have c: "compilePattern ''acme:im.*'' = Inr a" "compilePattern ''acme:im.room.**'' = Inr b"
    unfolding a_def b_def by code_simp+
  have "patternsIntersect a b" unfolding a_def b_def by code_simp
  then show ?thesis using patternsIntersect_iff [OF c] c by blast
qed

text \<open>
  (C3) A subscription is allowed exactly when its key is routable and no channel of its language
  is covered by a rule that denies the principal: allowing a pattern can never leak a denied
  channel, and no pattern is refused without such a channel.
\<close>

theorem subscribe_language:
  assumes "NewAuthorizer ParseDuration cfg = Inr a"
  shows "Allow (Decide a p ActionSubscribePattern key) \<longleftrightarrow> (\<exists>cp. compilePattern key = Inr cp) \<and>
    (\<forall>ch. Match key ch \<longrightarrow> (\<forall>rule \<in> set (rules a). Match (raw rule) ch \<longrightarrow>
       \<not> ruleDenies rule (allowSubscribe rule) (subscribeAll rule) p))"
  using subscribe_allowed [OF NewAuthorizer_wf [OF assms]] by blast

definition empty_spec :: ChannelPolicySpec where
  "empty_spec = \<lparr>cfg_History = None, cfg_HistorySize = None, cfg_HistoryTTL = [], cfg_Presence = None,
     cfg_Recover = None, cfg_Survey = None, cfg_TransientOnly = None, cfg_RecoverLimit = None,
     cfg_MaxSurveySubscribers = None, cfg_MaxSurveyTimeout = [], cfg_LegacyPresenceChannel = None,
     cfg_PresenceSnapshotLimit = None, cfg_Batching = None\<rparr>"

text \<open>A table of two rules: nobody may touch \<^verbatim>\<open>acme:secret.**\<close>, and only \<^verbatim>\<open>alice\<close> may subscribe
  and survey \<^verbatim>\<open>acme:team.*\<close>, whose channels are transient.\<close>

definition example_config :: AuthorizerConfig where
  "example_config = \<lparr>Default = empty_spec, Rules =
     [\<lparr>rule_Pattern = ''acme:secret.**'', rule_DenyAll = True, rule_AllowSubscribe = None,
       rule_AllowPublish = None, rule_AllowSurvey = None, rule_ChannelPolicySpec = empty_spec\<rparr>,
      \<lparr>rule_Pattern = ''acme:team.*'', rule_DenyAll = False, rule_AllowSubscribe = Some [''alice''],
       rule_AllowPublish = None, rule_AllowSurvey = Some [''alice''],
       rule_ChannelPolicySpec = empty_spec\<lparr>cfg_Survey := Some True, cfg_TransientOnly := Some True\<rparr>\<rparr>]\<rparr>"

definition example_authorizer :: Authorizer where
  "example_authorizer = (case NewAuthorizer (\<lambda>_. None) example_config of Inr a \<Rightarrow> a)"

definition user :: "string \<Rightarrow> Principal" where
  "user name = \<lparr>Kind = PrincipalUser, UserID = name, Caps = 0\<rparr>"

lemma example_authorizer_ok: "NewAuthorizer (\<lambda>_. None) example_config = Inr example_authorizer"
  by code_simp

theorem subscribe_language_witness:
  "\<not> Allow (Decide example_authorizer (user ''bob'') ActionSubscribePattern ''acme:**'') \<and>
   (\<exists>ch rule. Match ''acme:**'' ch \<and> rule \<in> set (rules example_authorizer) \<and> Match (raw rule) ch \<and>
      ruleDenies rule (allowSubscribe rule) (subscribeAll rule) (user ''bob''))"
proof -
  have d: "\<not> Allow (Decide example_authorizer (user ''bob'') ActionSubscribePattern ''acme:**'')"
    "\<not> isl (compilePattern ''acme:**'')"
    by code_simp+
  then obtain cp where "compilePattern ''acme:**'' = Inr cp"
    using sum.collapse(2) by metis
  then show ?thesis
    using d(1) subscribe_language [OF example_authorizer_ok, of "user ''bob''" "''acme:**''"] by blast
qed

text \<open>
  The capability to skip allow lists never punches a hole in a deny: a subscription it lets
  through contains no channel of a \<^verbatim>\<open>deny_all\<close> rule, and it lets through everything \<^verbatim>\<open>Decide\<close>
  allows to any principal.
\<close>

lemma skip_keeps_deny:
  assumes "NewAuthorizer ParseDuration cfg = Inr a"
  shows "(Allow (DecideSubscribeSkipAllowLists a key) \<longrightarrow>
      (\<forall>ch. Match key ch \<longrightarrow> (\<forall>rule \<in> set (rules a). Match (raw rule) ch \<longrightarrow> \<not> denyAll rule))) \<and>
    (Allow (Decide a p ActionSubscribePattern key) \<longrightarrow> Allow (DecideSubscribeSkipAllowLists a key))"
  using subscribe_allowed [OF NewAuthorizer_wf [OF assms], of p key]
    skip_allowed [OF NewAuthorizer_wf [OF assms], of key]
  by (auto simp: ruleDenies_def)



text \<open>
  A client survey is allowed exactly when the effective policy enables surveys, no matching
  rule denies it, and some matching rule lists the principal or \<^verbatim>\<open>*\<close>: surveys are opt-in.
\<close>

lemma survey_decision:
  "Allow (Decide a p ActionSurvey ch) \<longleftrightarrow> Survey (effectsLocked a ch) \<and>
     (\<forall>r \<in> set (rules a). Match (raw r) ch \<longrightarrow> \<not> survey_forbids p r) \<and>
     (\<exists>r \<in> set (rules a). Match (raw r) ch \<and> survey_permits p r)"
proof -
  obtain d al t where f: "foldl (surveyStep ch p)
      (None, False, Survey (base a) \<noteq> Survey DefaultChannelPolicy) (rules a) = (d, al, t)"
    by (metis prod_cases3)
  have "Allow (Decide a p ActionSurvey ch) \<longleftrightarrow> Survey (effectsLocked a ch) \<and> d = None \<and> al"
    using f by (simp add: Decide_def decideLocked_def Let_def split: option.split)
  then show ?thesis using survey_fold [OF f] by simp
qed

text \<open>
  The effective policy: each switch has the value of the last matching rule that sets it,
  else the base value; and a transient channel never keeps history nor recovers.
\<close>

lemma effects_last_match:
  "(let eff = effectsLocked a ch; specs = matching_effects a ch
    in TransientOnly eff = last_set spec_transientOnly specs (TransientOnly (base a)) \<and>
       History eff = (\<not> TransientOnly eff \<and> last_set spec_history specs (History (base a))) \<and>
       Recover eff = (\<not> TransientOnly eff \<and> last_set spec_recover specs (Recover (base a))) \<and>
       Survey eff = last_set spec_survey specs (Survey (base a)) \<and>
       Presence eff = last_set spec_presence specs (Presence (base a)))"
  by (simp add: effectsLocked_eq Let_def fold_Overlay_fields)

end
