(* ===== verification/MemoryBroker.thy ===== *)
theory MemoryBroker
  imports CSTrie Interest
begin

text \<open>
  The in-process broker, \<^verbatim>\<open>internal/stream/broker_memory.go\<close>, with the types of
  \<^verbatim>\<open>internal/stream/broker.go\<close>: ring-buffer history per channel, reference-counted interest
  (exact channels, and wildcard patterns in the subscription trie), and delivery queues sharded
  by channel. Rings live in a heap and the broker maps channels to addresses, because
  \<^verbatim>\<open>Publish\<close> resolves the ring of its channel under one lock and appends to it under another.
\<close>

unbundle bit_operations_syntax

section \<open>Types\<close>

datatype PayloadKind = PayloadKindBinary | PayloadKindText | PayloadKindJSON

record Publication =
  Channel :: string
  Payload :: bytes
  PubKind :: PayloadKind
  ContentType :: string
  Id :: string
  Metadata :: "(string, string) gomap"
  Offset :: u64
  Seq :: u64
  Time :: int
  Epoch :: string
  PubHistorySize :: int
  PubHistoryTTL :: int

datatype HistoryGapReason = HistoryGapNone | HistoryGapHeadTrimmed | HistoryGapEmptyExpired
  | HistoryGapMiddle | HistoryGapReplayTruncated

record HistoryPage =
  Publications :: "Publication list"
  Truncated :: bool
  Gap :: bool
  GapReason :: HistoryGapReason
  FirstRetained :: u64

definition defaultMemoryHistorySize :: int where
  "defaultMemoryHistorySize = 256"

definition DefaultHistoryLimit :: int where
  "DefaultHistoryLimit = 1000"

definition dispatchShardCount :: nat where
  "dispatchShardCount = 64"

definition dispatchShardDepth :: nat where
  "dispatchShardDepth = 256"

record dispatchTask =
  task_ch :: string
  task_pub :: Publication

text \<open>64-bit FNV-1a, \<^verbatim>\<open>hash/fnv\<close>, and the shard of a channel.\<close>

definition fnv64a :: "bytes \<Rightarrow> u64" where
  "fnv64a bs = foldl (\<lambda>h c. (h XOR of_char c) * 1099511628211) 14695981039346656037 bs"

definition chShard :: "string \<Rightarrow> nat" where
  "chShard ch = unat (fnv64a ch mod of_nat dispatchShardCount)"

text \<open>The ring buffer of one channel; \<^verbatim>\<open>ttlWarn\<close> only guards a log line and is left out.\<close>

record channelHistory =
  entries :: "Publication option list"
  size_of :: nat
  head :: nat
  count :: nat
  nextOff :: u64

type_synonym ring_addr = nat

record memoryBroker =
  historySize :: int
  brokerEpoch :: string
  rings :: "(ring_addr, channelHistory) gomap"
  history_of :: "(string, ring_addr) gomap"
  subs_of_ch :: "(string, int) gomap"
  wcCounts :: "(string, int) gomap"
  wcHandles :: "(string, string subscription) gomap"
  matcher :: "string main_node"
  handler :: bool
  occHandler :: bool
  dispatch :: "dispatchTask list list"
  done_closed :: bool

text \<open>\<open>epoch\<close> is the fresh identifier \<^verbatim>\<open>uuid.NewString\<close> returns.\<close>

definition NewMemoryBroker :: "int \<Rightarrow> string \<Rightarrow> memoryBroker" where
  "NewMemoryBroker sz epoch =
     \<lparr>historySize = (if sz = 0 then defaultMemoryHistorySize else sz), brokerEpoch = epoch,
      rings = [], history_of = [], subs_of_ch = [], wcCounts = [], wcHandles = [],
      matcher = NewCSTrieMatcher, handler = False, occHandler = False,
      dispatch = replicate dispatchShardCount [], done_closed = False\<rparr>"

section \<open>Interest\<close>

definition comparable_string :: "string \<Rightarrow> bool" where
  "comparable_string s = True"

definition broker_Subscribe :: "memoryBroker \<Rightarrow> string \<Rightarrow> (memoryBroker \<times> interest_error option) go" where
  "broker_Subscribe b ch =
     (case CompileInterest ch of
        Inl err \<Rightarrow> goret (b, Some err)
      | Inr _ \<Rightarrow>
          if IsWildcard ch then
            let b = b\<lparr>wcCounts := mput ch (mzero 0 (wcCounts b) ch + 1) (wcCounts b)\<rparr>
            in if mzero 0 (wcCounts b) ch = 1 then
                 gobind (Subscribe comparable_string (matcher b) ch ch) (\<lambda>(m, r).
                   let b = b\<lparr>matcher := m\<rparr>
                   in case r of
                        Inl err \<Rightarrow> goret (b\<lparr>wcCounts := mdel ch (wcCounts b)\<rparr>, Some (BadTopic err))
                      | Inr sub \<Rightarrow> goret (b\<lparr>wcHandles := mput ch sub (wcHandles b)\<rparr>, None))
               else goret (b, None)
          else goret (b\<lparr>subs_of_ch := mput ch (mzero 0 (subs_of_ch b) ch + 1) (subs_of_ch b)\<rparr>, None))"

definition broker_Unsubscribe :: "memoryBroker \<Rightarrow> string \<Rightarrow> memoryBroker go" where
  "broker_Unsubscribe b ch =
     (if IsWildcard ch then
        if mzero 0 (wcCounts b) ch > 0 then
          let b = b\<lparr>wcCounts := mput ch (mzero 0 (wcCounts b) ch - 1) (wcCounts b)\<rparr>
          in if mzero 0 (wcCounts b) ch = 0 then
               let b = b\<lparr>wcCounts := mdel ch (wcCounts b)\<rparr>
               in case mget (wcHandles b) ch of
                    Some sub \<Rightarrow>
                      gobind (Unsubscribe (matcher b) (Some sub)) (\<lambda>m.
                        goret (b\<lparr>matcher := m, wcHandles := mdel ch (wcHandles b)\<rparr>))
                  | None \<Rightarrow> goret b
             else goret b
        else goret b
      else
        let b = (if mzero 0 (subs_of_ch b) ch > 0
                 then b\<lparr>subs_of_ch := mput ch (mzero 0 (subs_of_ch b) ch - 1) (subs_of_ch b)\<rparr> else b)
        in if mzero 0 (subs_of_ch b) ch = 0 then
             let b = b\<lparr>subs_of_ch := mdel ch (subs_of_ch b)\<rparr>
             in case mget (history_of b) ch of
                  Some addr \<Rightarrow>
                    (case mget (rings b) addr of
                       Some h \<Rightarrow>
                         if count h = 0 \<and> nextOff h = 0
                         then goret (b\<lparr>history_of := mdel ch (history_of b)\<rparr>) else goret b
                     | None \<Rightarrow> Some (Inl NilDereference))
                | None \<Rightarrow> goret b
           else goret b)"

definition interested :: "memoryBroker \<Rightarrow> string \<Rightarrow> (memoryBroker \<times> bool) go" where
  "interested b ch =
     (if mzero 0 (subs_of_ch b) ch > 0 then goret (b, True)
      else gobind (Lookup (matcher b) ch) (\<lambda>(m, s). goret (b\<lparr>matcher := m\<rparr>, length s > 0)))"

section \<open>Publishing\<close>

text \<open>A fresh address of the heap of rings.\<close>

definition fresh :: "(ring_addr, channelHistory) gomap \<Rightarrow> ring_addr" where
  "fresh m = Suc (foldr max (map fst m) 0)"

text \<open>The first half of \<^verbatim>\<open>Publish\<close>: find the ring of the channel, or create it.\<close>

definition resolveRing :: "memoryBroker \<Rightarrow> string \<Rightarrow> Publication \<Rightarrow> go_panic + memoryBroker \<times> ring_addr" where
  "resolveRing b ch pub =
     (case mget (history_of b) ch of
        Some addr \<Rightarrow> Inr (b, addr)
      | None \<Rightarrow>
          let cap = (if PubHistorySize pub > 0 then PubHistorySize pub else historySize b);
              addr = fresh (rings b);
              h = \<lparr>entries = replicate (nat cap) None, size_of = nat cap, head = 0, count = 0, nextOff = 0\<rparr>
          in if cap < 0 then Inl MakeSliceLen
             else Inr (b\<lparr>rings := mput addr h (rings b), history_of := mput ch addr (history_of b)\<rparr>, addr))"

text \<open>The second half, under the lock of the ring: assign the offset and store the copy.\<close>

definition ringPut :: "channelHistory \<Rightarrow> Publication \<Rightarrow> go_panic + channelHistory" where
  "ringPut h stored =
     (if size_of h = 0 then Inl DivideByZero
      else
        let slot = (head h + count h) mod size_of h
        in if count h = size_of h
           then Inr (h\<lparr>entries := (entries h)[head h := Some stored],
                       head := (head h + 1) mod size_of h\<rparr>)
           else Inr (h\<lparr>entries := (entries h)[slot := Some stored], count := count h + 1\<rparr>))"

definition stamp :: "memoryBroker \<Rightarrow> string \<Rightarrow> int \<Rightarrow> u64 \<Rightarrow> Publication \<Rightarrow> Publication" where
  "stamp b ch now off pub =
     pub\<lparr>Channel := ch, Offset := off, Epoch := brokerEpoch b, Time := now\<rparr>"

definition appendRing ::
    "memoryBroker \<Rightarrow> ring_addr \<Rightarrow> string \<Rightarrow> int \<Rightarrow> Publication \<Rightarrow> go_panic + memoryBroker \<times> Publication" where
  "appendRing b addr ch now pub =
     (case mget (rings b) addr of
        None \<Rightarrow> Inl NilDereference
      | Some h \<Rightarrow>
          let h = h\<lparr>nextOff := nextOff h + 1\<rparr>;
              stored = stamp b ch now (nextOff h) pub
          in (case ringPut h stored of
                Inl e \<Rightarrow> Inl e
              | Inr h' \<Rightarrow> Inr (b\<lparr>rings := mput addr h' (rings b)\<rparr>, stored)))"

text \<open>
  \<^verbatim>\<open>enqueue\<close>: send to the shard queue when it has room, or give up once the broker is
  shutting down; with neither the caller blocks, and with both Go picks either.
\<close>

definition shard_send :: "memoryBroker \<Rightarrow> string \<Rightarrow> Publication \<Rightarrow> memoryBroker" where
  "shard_send b ch pub = b\<lparr>dispatch := (dispatch b)[chShard ch :=
     dispatch b ! chShard ch @ [\<lparr>task_ch = ch, task_pub = pub\<rparr>]]\<rparr>"

inductive enqueue :: "memoryBroker \<Rightarrow> string \<Rightarrow> Publication \<Rightarrow> memoryBroker \<Rightarrow> bool" where
  send: "length (dispatch b ! chShard ch) < dispatchShardDepth \<Longrightarrow>
    enqueue b ch pub (shard_send b ch pub)"
| drop: "done_closed b \<Longrightarrow> enqueue b ch pub b"

text \<open>\<^verbatim>\<open>Publish\<close> run without interleaving, at time \<open>now\<close>, up to the hand-over to the shard:
  the result, and the publication to enqueue if there is interest.\<close>

definition Publish ::
    "memoryBroker \<Rightarrow> string \<Rightarrow> int \<Rightarrow> Publication \<Rightarrow>
     (memoryBroker \<times> (topic_error + u64) \<times> Publication option) go" where
  "Publish b ch now pub =
     (case ValidateTopic ch of
        Some err \<Rightarrow> goret (b, Inl err, None)
      | None \<Rightarrow>
          (case resolveRing b ch pub of
             Inl e \<Rightarrow> Some (Inl e)
           | Inr (b, addr) \<Rightarrow>
               gobind (if handler b then interested b ch else goret (b, False)) (\<lambda>(b, wantDelivery).
                 (case appendRing b addr ch now pub of
                    Inl e \<Rightarrow> Some (Inl e)
                  | Inr (b, stored) \<Rightarrow>
                      goret (b, Inr (Offset stored), if wantDelivery then Some stored else None)))))"

definition PublishTransient ::
    "memoryBroker \<Rightarrow> string \<Rightarrow> int \<Rightarrow> Publication \<Rightarrow>
     (memoryBroker \<times> topic_error option \<times> Publication option) go" where
  "PublishTransient b ch now pub =
     (case ValidateTopic ch of
        Some err \<Rightarrow> goret (b, Some err, None)
      | None \<Rightarrow>
          let stored = stamp b ch now 0 pub
          in gobind (if handler b then interested b ch else goret (b, False)) (\<lambda>(b, want).
               goret (b, None, if want then Some stored else None)))"

text \<open>\<^verbatim>\<open>PublishOccupancy\<close>: is the occupancy handler invoked?\<close>

definition PublishOccupancy :: "memoryBroker \<Rightarrow> string \<Rightarrow> (memoryBroker \<times> topic_error option \<times> bool) go" where
  "PublishOccupancy b ch =
     (case ValidateTopic ch of
        Some err \<Rightarrow> goret (b, Some err, False)
      | None \<Rightarrow>
          if \<not> occHandler b then goret (b, None, False)
          else gobind (interested b ch) (\<lambda>(b, want). goret (b, None, want)))"

definition SetOccupancyHandler :: "memoryBroker \<Rightarrow> memoryBroker" where
  "SetOccupancyHandler b = b\<lparr>occHandler := True\<rparr>"

text \<open>\<^verbatim>\<open>Start\<close> registers the handler; a worker takes the first task of its shard.\<close>

definition Start :: "memoryBroker \<Rightarrow> memoryBroker" where
  "Start b = b\<lparr>handler := True\<rparr>"

definition work :: "memoryBroker \<Rightarrow> nat \<Rightarrow> (memoryBroker \<times> dispatchTask) option" where
  "work b i =
     (case dispatch b ! i of
        [] \<Rightarrow> None
      | task # rest \<Rightarrow> Some (b\<lparr>dispatch := (dispatch b)[i := rest]\<rparr>, task))"

section \<open>History\<close>

definition emptyPage :: HistoryPage where
  "emptyPage = \<lparr>Publications = [], Truncated = False, Gap = False, GapReason = HistoryGapNone,
     FirstRetained = 0\<rparr>"

definition expiredPage :: "u64 \<Rightarrow> HistoryPage" where
  "expiredPage sinceOffset =
     (if sinceOffset > 0 then emptyPage\<lparr>Gap := True, GapReason := HistoryGapEmptyExpired\<rparr>
      else emptyPage)"

text \<open>The loop of \<^verbatim>\<open>History\<close>, with \<open>n\<close> entries to go from index \<open>i\<close>.\<close>

fun historyLoop ::
    "channelHistory \<Rightarrow> u64 \<Rightarrow> int \<Rightarrow> nat \<Rightarrow> nat \<Rightarrow> Publication list \<Rightarrow> Publication list" where
  "historyLoop h since limit i 0 result = result"
| "historyLoop h since limit i (Suc n) result =
     (case entries h ! ((head h + i) mod size_of h) of
        None \<Rightarrow> historyLoop h since limit (i + 1) n result
      | Some pub \<Rightarrow>
          if Offset pub < since then historyLoop h since limit (i + 1) n result
          else if int (length (result @ [pub])) \<ge> limit then result @ [pub]
          else historyLoop h since limit (i + 1) n (result @ [pub]))"

definition ringPage :: "channelHistory \<Rightarrow> u64 \<Rightarrow> int \<Rightarrow> go_panic + HistoryPage" where
  "ringPage h sinceOffset limit =
     (let limit = (if limit \<le> 0 then DefaultHistoryLimit else limit)
      in if count h = 0 then Inr (expiredPage sinceOffset)
         else case entries h ! head h of
                None \<Rightarrow> Inl NilDereference
              | Some first \<Rightarrow>
                  let gap = (sinceOffset > 0 \<and> Offset first > sinceOffset);
                      result = historyLoop h sinceOffset limit 0 (count h) []
                  in Inr \<lparr>Publications = result,
                       Truncated = (limit > 0 \<and> int (length result) = limit),
                       Gap = gap,
                       GapReason = (if gap then HistoryGapHeadTrimmed else HistoryGapNone),
                       FirstRetained = Offset first\<rparr>)"

definition broker_History :: "memoryBroker \<Rightarrow> string \<Rightarrow> u64 \<Rightarrow> int \<Rightarrow> go_panic + HistoryPage" where
  "broker_History b ch sinceOffset limit =
     (case mget (history_of b) ch of
        None \<Rightarrow> Inr (expiredPage sinceOffset)
      | Some addr \<Rightarrow>
          (case mget (rings b) addr of
             None \<Rightarrow> Inl NilDereference
           | Some h \<Rightarrow> ringPage h sinceOffset limit))"

section \<open>The ring as a list\<close>

lemma ring_index:
  "h < s \<Longrightarrow> i \<le> s \<Longrightarrow> (h + i) mod s = (if h + i < s then h + i else h + i - s)" for h i s :: nat
  by (simp add: mod_if)

text \<open>The retained publications, oldest first.\<close>

definition ring_list :: "channelHistory \<Rightarrow> Publication list" where
  "ring_list h = map (\<lambda>i. the (entries h ! ((head h + i) mod size_of h))) [0..<count h]"

text \<open>The window of the ring is filled, and offsets are dense: the retained publications carry the
  last \<open>count\<close> offsets that were assigned.\<close>

definition ring_shape :: "channelHistory \<Rightarrow> bool" where
  "ring_shape h \<longleftrightarrow> size_of h > 0 \<and> length (entries h) = size_of h \<and> head h < size_of h \<and>
     count h \<le> size_of h \<and> (\<forall>i < count h. entries h ! ((head h + i) mod size_of h) \<noteq> None)"

definition ring_dense :: "channelHistory \<Rightarrow> bool" where
  "ring_dense h \<longleftrightarrow> count h \<le> unat (nextOff h) \<and> (count h = 0 \<longleftrightarrow> nextOff h = 0) \<and>
     (\<forall>i < count h. unat (Offset (ring_list h ! i)) = unat (nextOff h) - count h + i + 1)"

definition ring_inv :: "channelHistory \<Rightarrow> bool" where
  "ring_inv h \<longleftrightarrow> ring_shape h \<and> ring_dense h"

lemma length_ring_list [simp]: "length (ring_list h) = count h"
  by (simp add: ring_list_def)

lemma ring_list_nth:
  "i < count h \<Longrightarrow> ring_list h ! i = the (entries h ! ((head h + i) mod size_of h))"
  by (simp add: ring_list_def)

lemma ring_entry:
  "ring_shape h \<Longrightarrow> i < count h \<Longrightarrow> entries h ! ((head h + i) mod size_of h) = Some (ring_list h ! i)"
  by (auto simp: ring_shape_def ring_list_nth)

lemma ringPut_room:
  assumes "ring_shape h" "count h < size_of h"
  shows "\<exists>h'. ringPut h p = Inr h' \<and> ring_shape h' \<and> nextOff h' = nextOff h \<and>
    size_of h' = size_of h \<and> ring_list h' = ring_list h @ [p]"
proof -
  define s where "s = size_of h"
  define slot where "slot = (head h + count h) mod s"
  define h' where "h' = h\<lparr>entries := (entries h)[slot := Some p], count := count h + 1\<rparr>"
  have sh: "s > 0" "length (entries h) = s" "head h < s" "count h < s" "slot < s"
    using assms by (auto simp: ring_shape_def s_def slot_def)
  have old: "(entries h') ! ((head h + i) mod s) = Some (ring_list h ! i)" if "i < count h" for i
  proof -
    have "(head h + i) mod s \<noteq> slot"
      using sh that by (auto simp: slot_def ring_index split: if_splits)
    then show ?thesis using ring_entry [OF assms(1) that] sh by (simp add: h'_def s_def)
  qed
  have new: "(entries h') ! slot = Some p" using sh by (simp add: h'_def)
  have ent: "(entries h') ! ((head h + i) mod s) = Some ((ring_list h @ [p]) ! i)" if "i < Suc (count h)" for i
    using old [of i] new that by (cases "i = count h") (auto simp: nth_append slot_def)
  have "ring_list h' = ring_list h @ [p]"
  proof (rule nth_equalityI)
    show "length (ring_list h') = length (ring_list h @ [p])" by (simp add: h'_def)
    fix i assume "i < length (ring_list h')"
    then have "i < Suc (count h)" by (simp add: h'_def)
    then show "ring_list h' ! i = (ring_list h @ [p]) ! i"
      using ent [of i] ring_list_nth [of i h'] by (simp add: h'_def s_def)
  qed
  moreover have "ring_shape h'"
    using sh ent by (auto simp: ring_shape_def h'_def s_def)
  moreover have "ringPut h p = Inr h'"
    using sh by (simp add: ringPut_def Let_def h'_def slot_def s_def)
  ultimately show ?thesis by (simp add: h'_def)
qed

lemma ringPut_full:
  assumes "ring_shape h" "count h = size_of h"
  shows "\<exists>h'. ringPut h p = Inr h' \<and> ring_shape h' \<and> nextOff h' = nextOff h \<and>
    size_of h' = size_of h \<and> ring_list h' = tl (ring_list h) @ [p]"
proof -
  define s where "s = size_of h"
  define h' where "h' = h\<lparr>entries := (entries h)[head h := Some p], head := (head h + 1) mod s\<rparr>"
  have sh: "s > 0" "length (entries h) = s" "head h < s" "count h = s"
    using assms by (auto simp: ring_shape_def s_def)
  have hd': "head h' = (if head h + 1 < s then head h + 1 else 0)"
    using sh by (simp add: h'_def mod_if)
  have ent: "(entries h') ! ((head h' + i) mod s) = Some ((tl (ring_list h) @ [p]) ! i)" if "i < s" for i
  proof (cases "i < s - 1")
    case True
    then have i1: "(head h' + i) mod s = (head h + (i + 1)) mod s"
      by (simp add: h'_def mod_simps)
    moreover have "(head h + (i + 1)) mod s \<noteq> head h"
      using sh True ring_index [of "head h" s "i + 1"] by (auto split: if_splits)
    moreover have "entries h ! ((head h + (i + 1)) mod s) = Some (ring_list h ! (i + 1))"
      using ring_entry [OF assms(1), of "i + 1"] True sh by (simp add: s_def)
    ultimately show ?thesis
      using True sh by (simp add: h'_def nth_append nth_tl)
  next
    case False
    then have "i = s - 1" using that by simp
    moreover from this have "(head h' + i) mod s = head h"
      using sh hd' by (auto simp: ring_index split: if_splits)
    ultimately show ?thesis using sh by (simp add: h'_def nth_append)
  qed
  have "ring_list h' = tl (ring_list h) @ [p]"
  proof (rule nth_equalityI)
    show "length (ring_list h') = length (tl (ring_list h) @ [p])" using sh by (simp add: h'_def)
    fix i assume "i < length (ring_list h')"
    then have "i < s" using sh by (simp add: h'_def)
    then show "ring_list h' ! i = (tl (ring_list h) @ [p]) ! i"
      using ent [of i] ring_list_nth [of i h'] sh by (simp add: h'_def s_def)
  qed
  moreover have "ring_shape h'"
    using sh ent hd' by (auto simp: ring_shape_def h'_def s_def)
  moreover have "ringPut h p = Inr h'"
    using sh by (simp add: ringPut_def Let_def h'_def s_def)
  ultimately show ?thesis by (simp add: h'_def)
qed

text \<open>The ring refines "append and keep the last \<open>size\<close>".\<close>

lemma ringPut_refines:
  assumes "ring_shape h"
  shows "\<exists>h'. ringPut h p = Inr h' \<and> ring_shape h' \<and> nextOff h' = nextOff h \<and>
    size_of h' = size_of h \<and>
    ring_list h' = drop (Suc (count h) - size_of h) (ring_list h @ [p])"
proof (cases "count h = size_of h")
  case True
  then have c: "count h > 0" using assms by (simp add: ring_shape_def)
  then have "ring_list h \<noteq> []" using length_ring_list [of h] by fastforce
  then show ?thesis
    using ringPut_full [OF assms True, of p] True c by (auto simp: drop_Suc)
next
  case False
  then have "count h < size_of h" using assms by (simp add: ring_shape_def)
  then show ?thesis using ringPut_room [OF assms, of p] by simp
qed

section \<open>History pages\<close>

lemma historyLoop_eq:
  assumes "ring_shape h" "i + n \<le> count h" "int (length result) < limit"
  shows "historyLoop h since limit i n result = result @
    take (nat limit - length result) (filter (\<lambda>p. since \<le> Offset p) (take n (drop i (ring_list h))))"
  using assms(2,3)
proof (induction n arbitrary: i result)
  case (Suc n)
  define p where "p = ring_list h ! i"
  have e: "entries h ! ((head h + i) mod size_of h) = Some p"
    using ring_entry [OF assms(1)] Suc by (simp add: p_def)
  have d: "drop i (ring_list h) = p # drop (Suc i) (ring_list h)"
    using Suc by (simp add: p_def Cons_nth_drop_Suc)
  show ?case
  proof (cases "Offset p < since")
    case True
    then show ?thesis using Suc e d by (simp add: not_le [symmetric])
  next
    case False
    then have le: "since \<le> Offset p" by simp
    show ?thesis
    proof (cases "int (length result) + 1 < limit")
      case True
      then have "nat limit - length result = Suc (nat limit - Suc (length result))"
        using Suc(3) by linarith
      then show ?thesis
        using Suc(1) [of "Suc i" "result @ [p]"] Suc(2) True False le e d by simp
    next
      case l: False
      then have "nat limit - length result = 1" using Suc(3) by linarith
      then show ?thesis using False le e d l by simp
    qed
  qed
qed simp

definition effective_limit :: "int \<Rightarrow> nat" where
  "effective_limit limit = nat (if limit \<le> 0 then DefaultHistoryLimit else limit)"

lemma ringPage_eq:
  assumes "ring_shape h" "count h > 0"
  shows "ringPage h since limit = Inr \<lparr>
    Publications = take (effective_limit limit) (filter (\<lambda>p. since \<le> Offset p) (ring_list h)),
    Truncated = (length (take (effective_limit limit) (filter (\<lambda>p. since \<le> Offset p) (ring_list h)))
      = effective_limit limit),
    Gap = (since > 0 \<and> Offset (hd (ring_list h)) > since),
    GapReason = (if since > 0 \<and> Offset (hd (ring_list h)) > since then HistoryGapHeadTrimmed
      else HistoryGapNone),
    FirstRetained = Offset (hd (ring_list h))\<rparr>"
proof -
  have l: "(if limit \<le> 0 then DefaultHistoryLimit else limit) > 0" by (simp add: DefaultHistoryLimit_def)
  have "entries h ! head h = Some (ring_list h ! 0)"
    using ring_entry [OF assms, simplified] assms(1) by (simp add: ring_shape_def)
  moreover have "ring_list h ! 0 = hd (ring_list h)"
    using assms(2) length_ring_list [of h] by (metis hd_conv_nth less_irrefl list.size(3))
  moreover have "historyLoop h since (if limit \<le> 0 then DefaultHistoryLimit else limit) 0 (count h) [] =
      take (effective_limit limit) (filter (\<lambda>p. since \<le> Offset p) (ring_list h))"
    using historyLoop_eq [OF assms(1), of 0 "count h" "[]" _ since] l by (simp add: effective_limit_def)
  ultimately show ?thesis
    using l assms(2) unfolding ringPage_def Let_def by (auto simp: effective_limit_def)
qed

text \<open>Dense offsets: which offsets are retained.\<close>

lemma ring_offsets:
  assumes "ring_dense h"
  shows "map (unat \<circ> Offset) (ring_list h) = [Suc (unat (nextOff h)) - count h..<Suc (unat (nextOff h))]"
  using assms by (intro nth_equalityI) (auto simp: ring_dense_def simp del: upt_Suc)

lemma ring_retained:
  assumes "ring_dense h"
  shows "unat ` Offset ` set (ring_list h) = {Suc (unat (nextOff h)) - count h..unat (nextOff h)}"
proof -
  have "unat ` Offset ` set (ring_list h) = set (map (unat \<circ> Offset) (ring_list h))"
    by (simp add: image_image)
  then show ?thesis using ring_offsets [OF assms] by auto
qed

lemma ring_first:
  assumes "ring_dense h" "count h > 0"
  shows "unat (Offset (hd (ring_list h))) = Suc (unat (nextOff h)) - count h"
proof -
  have "ring_list h \<noteq> []" using assms(2) length_ring_list [of h] by fastforce
  then show ?thesis
    using assms by (auto simp: ring_dense_def hd_conv_nth)
qed

section \<open>Appending\<close>

lemma ring_list_nextOff [simp]: "ring_list (h\<lparr>nextOff := n\<rparr>) = ring_list h"
  by (simp add: ring_list_def)

lemma ring_shape_nextOff [simp]: "ring_shape (h\<lparr>nextOff := n\<rparr>) = ring_shape h"
  by (simp add: ring_shape_def)

lemma unat_Suc_word: "unat (n :: u64) < 2 ^ 64 - 1 \<Longrightarrow> unat (n + 1) = Suc (unat n)"
  by (subst unat_add_lem [THEN iffD1]) simp_all

lemma ring_append:
  assumes inv: "ring_inv h" and room: "unat (nextOff h) < 2 ^ 64 - 1"
    and off: "Offset stored = nextOff h + 1"
  shows "\<exists>h'. ringPut (h\<lparr>nextOff := nextOff h + 1\<rparr>) stored = Inr h' \<and> ring_inv h' \<and>
    nextOff h' = nextOff h + 1 \<and> size_of h' = size_of h \<and> count h' > 0 \<and>
    ring_list h' = drop (Suc (count h) - size_of h) (ring_list h @ [stored])"
proof -
  have sh: "ring_shape h" and de: "ring_dense h" using inv by (auto simp: ring_inv_def)
  define d where "d = Suc (count h) - size_of h"
  obtain h' where h': "ringPut (h\<lparr>nextOff := nextOff h + 1\<rparr>) stored = Inr h'" "ring_shape h'"
    "nextOff h' = nextOff h + 1" "size_of h' = size_of h" "ring_list h' = drop d (ring_list h @ [stored])"
    using ringPut_refines [of "h\<lparr>nextOff := nextOff h + 1\<rparr>" stored] sh by (auto simp: d_def)
  have c: "count h' = Suc (count h) - d" using h'(5) length_ring_list [of h'] by simp
  have d: "d \<le> count h" using sh by (auto simp: d_def ring_shape_def)
  have n: "unat (nextOff h + 1) = Suc (unat (nextOff h))" using unat_Suc_word [OF room] .
  have all: "unat (Offset ((ring_list h @ [stored]) ! j)) = unat (nextOff h) - count h + j + 1"
    if "j < Suc (count h)" for j
    using that de n off by (cases "j = count h") (auto simp: ring_dense_def nth_append)
  have "unat (Offset (ring_list h' ! i)) = unat (nextOff h') - count h' + i + 1" if "i < count h'" for i
  proof -
    have "ring_list h' ! i = (ring_list h @ [stored]) ! (d + i)"
      unfolding h'(5) by (rule nth_drop) (use d in simp)
    then have "unat (Offset (ring_list h' ! i)) = unat (nextOff h) - count h + (d + i) + 1"
      using that all [of "d + i"] c by simp
    then show ?thesis using c d h'(3) n de by (simp add: ring_dense_def)
  qed
  moreover have "nextOff h + 1 \<noteq> 0" using n by (metis nat.distinct(1) unat_0)
  moreover have "count h \<le> unat (nextOff h)" using de by (simp add: ring_dense_def)
  then have "count h' \<le> unat (nextOff h')" "count h' \<noteq> 0" unfolding h'(3) n c using d by linarith+
  ultimately have "ring_dense h'" using h'(3) by (simp add: ring_dense_def)
  then show ?thesis using h' c d by (auto simp: ring_inv_def d_def)
qed

section \<open>The broker invariant\<close>

definition ring_at :: "memoryBroker \<Rightarrow> string \<Rightarrow> channelHistory option" where
  "ring_at b ch = Option.bind (mget (history_of b) ch) (mget (rings b))"

definition rings_inv :: "memoryBroker \<Rightarrow> bool" where
  "rings_inv b \<longleftrightarrow> historySize b > 0 \<and>
     (\<forall>ch a. mget (history_of b) ch = Some a \<longrightarrow> (\<exists>h. mget (rings b) a = Some h \<and> ring_inv h)) \<and>
     (\<forall>c1 c2 a. mget (history_of b) c1 = Some a \<longrightarrow> mget (history_of b) c2 = Some a \<longrightarrow> c1 = c2)"

text \<open>
  The wildcard side: the trie holds exactly the patterns with a handle, those are the patterns
  with a positive count, and all of them are routable wildcard keys. Such keys never extend one
  another, so no tomb ever appears in the trie.
\<close>

definition wildcard_inv :: "memoryBroker \<Rightarrow> bool" where
  "wildcard_inv b \<longleftrightarrow> trie_inv (matcher b) \<and> no_tomb (matcher b) \<and>
     subs_at (matcher b) = (\<lambda>q. {p. mget (wcHandles b) p \<noteq> None \<and> SplitSegments p = q}) \<and>
     (\<forall>p s. mget (wcHandles b) p = Some s \<longrightarrow>
        s = \<lparr>Topic = p, Subscriber = p\<rparr> \<and> routable p \<and> IsWildcard p) \<and>
     (\<forall>p. (mget (wcCounts b) p = None) = (mget (wcHandles b) p = None)) \<and>
     (\<forall>p n. mget (wcCounts b) p = Some n \<longrightarrow> n > 0) \<and>
     (\<forall>c n. mget (subs_of_ch b) c = Some n \<longrightarrow> n > 0)"

definition broker_inv :: "memoryBroker \<Rightarrow> bool" where
  "broker_inv b \<longleftrightarrow> rings_inv b \<and> wildcard_inv b \<and> length (dispatch b) = dispatchShardCount"

definition wants :: "memoryBroker \<Rightarrow> string \<Rightarrow> bool" where
  "wants b ch \<longleftrightarrow> mget (subs_of_ch b) ch \<noteq> None \<or> (\<exists>p. mget (wcCounts b) p \<noteq> None \<and> Match p ch)"

lemma mzero_pos: "(\<And>n. mget m k = Some n \<Longrightarrow> n > 0) \<Longrightarrow> mzero (0::int) m k > 0 \<longleftrightarrow> mget m k \<noteq> None"
  by (cases "mget m k") (auto simp: mzero_def)

lemma NewMemoryBroker_inv: "sz \<ge> 0 \<Longrightarrow> broker_inv (NewMemoryBroker sz epoch)"
  by (auto simp: broker_inv_def rings_inv_def wildcard_inv_def NewMemoryBroker_def trie_inv_new
      defaultMemoryHistorySize_def)

lemma interested_spec:
  assumes "wildcard_inv b"
  shows "interested b ch = goret (b, wants b ch)"
proof (cases "mget (subs_of_ch b) ch = None")
  case False
  then show ?thesis
    using assms mzero_pos [of "subs_of_ch b" ch] by (auto simp: interested_def wants_def wildcard_inv_def)
next
  case True
  have m: "trie_inv (matcher b)" "no_tomb (matcher b)" using assms by (auto simp: wildcard_inv_def)
  have "\<exists>s. Lookup (matcher b) ch = Some (Inr (matcher b, s)) \<and>
      set s = (if [] \<in> set (SplitSegments ch) then {} else matches (matcher b) (SplitSegments ch))"
    using lookup_loop_no_tomb [OF m(1) _ _ m(2), of "SplitSegments ch"]
    by (auto simp: Lookup_def Let_def list_ex_iff)
  then obtain s where s: "Lookup (matcher b) ch = goret (matcher b, s)"
    "set s = (if [] \<in> set (SplitSegments ch) then {} else matches (matcher b) (SplitSegments ch))"
    by (auto simp: goret_def)
  have "set s = {p. mget (wcCounts b) p \<noteq> None \<and> Match p ch}"
    using s(2) assms by (auto simp: wildcard_inv_def matches_def Match_def matchCriteria_eq)
  then have "(length s > 0) = wants b ch" using True by (auto simp: wants_def simp flip: set_empty)
  then show ?thesis using s(1) True by (simp add: interested_def mzero_def)
qed

lemma fresh_new: "mget m (fresh m) = None"
proof -
  have "a \<le> foldr max (map fst m) 0" if "a \<in> fst ` set m" for a
    using that
  proof (induction m)
    case (Cons x m)
    then show ?case by (cases "a = fst x") (auto simp: le_max_iff_disj)
  qed simp
  then show ?thesis by (auto simp: mget_None_iff fresh_def) force
qed

lemma rings_inv_ring:
  "rings_inv b \<Longrightarrow> mget (history_of b) ch = Some a \<Longrightarrow> \<exists>h. mget (rings b) a = Some h \<and> ring_inv h"
  unfolding rings_inv_def by blast

lemma rings_inv_ring_at: "rings_inv b \<Longrightarrow> ring_at b ch = Some h \<Longrightarrow> ring_inv h"
  by (auto simp: ring_at_def bind_eq_Some_conv dest!: rings_inv_ring)

lemma ring_inv_new:
  "cap > 0 \<Longrightarrow> ring_inv \<lparr>entries = replicate cap None, size_of = cap, head = 0, count = 0, nextOff = 0\<rparr>"
  by (simp add: ring_inv_def ring_shape_def ring_dense_def)

text \<open>The ring of a channel as the publisher finds it: the existing one, or a new empty one.\<close>

definition ring_or_new :: "memoryBroker \<Rightarrow> string \<Rightarrow> Publication \<Rightarrow> channelHistory" where
  "ring_or_new b ch pub =
     (case ring_at b ch of
        Some h \<Rightarrow> h
      | None \<Rightarrow>
          let cap = nat (if PubHistorySize pub > 0 then PubHistorySize pub else historySize b)
          in \<lparr>entries = replicate cap None, size_of = cap, head = 0, count = 0, nextOff = 0\<rparr>)"

lemma resolveRing_spec:
  assumes "rings_inv b"
  shows "\<exists>b' a. resolveRing b ch pub = Inr (b', a) \<and> rings_inv b' \<and>
    mget (history_of b') ch = Some a \<and> mget (rings b') a = Some (ring_or_new b ch pub) \<and>
    ring_inv (ring_or_new b ch pub) \<and>
    (\<forall>c. c \<noteq> ch \<longrightarrow> ring_at b' c = ring_at b c) \<and>
    b' = b\<lparr>rings := rings b', history_of := history_of b'\<rparr>"
proof (cases "mget (history_of b) ch")
  case (Some a)
  then obtain h where "mget (rings b) a = Some h" "ring_inv h"
    using rings_inv_ring [OF assms Some] by blast
  then show ?thesis
    using assms Some by (simp add: resolveRing_def ring_or_new_def ring_at_def)
next
  case None
  define cap where "cap = (if PubHistorySize pub > 0 then PubHistorySize pub else historySize b)"
  define h where "h = \<lparr>entries = replicate (nat cap) None, size_of = nat cap, head = 0, count = 0, nextOff = 0 :: u64\<rparr>"
  define b' where "b' = b\<lparr>rings := mput (fresh (rings b)) h (rings b),
    history_of := mput ch (fresh (rings b)) (history_of b)\<rparr>"
  have cap: "cap > 0" using assms by (simp add: cap_def rings_inv_def)
  have old: "a \<noteq> fresh (rings b)" if "mget (history_of b) c = Some a" for c a
    using rings_inv_ring [OF assms that] fresh_new [of "rings b"] by auto
  have "ring_inv h" using ring_inv_new [of "nat cap"] cap by (simp add: h_def)
  moreover from this have "rings_inv b'"
    using assms old None by (auto simp: rings_inv_def b'_def)
  moreover have "ring_or_new b ch pub = h"
    using None by (simp add: ring_or_new_def ring_at_def h_def cap_def Let_def)
  moreover have "resolveRing b ch pub = Inr (b', fresh (rings b))"
    using None cap by (simp add: resolveRing_def Let_def b'_def h_def cap_def)
  moreover have "ring_at b' c = ring_at b c" if "c \<noteq> ch" for c
    using that old by (cases "mget (history_of b) c") (auto simp: ring_at_def b'_def)
  ultimately show ?thesis by (simp add: b'_def)
qed

lemma appendRing_spec:
  assumes "rings_inv b" "mget (history_of b) ch = Some a" "mget (rings b) a = Some h"
    and "unat (nextOff h) < 2 ^ 64 - 1"
  shows "\<exists>b' h' stored. appendRing b a ch now pub = Inr (b', stored) \<and> rings_inv b' \<and>
    stored = stamp b ch now (nextOff h + 1) pub \<and> ring_at b' ch = Some h' \<and>
    nextOff h' = nextOff h + 1 \<and> ring_list h' = drop (Suc (count h) - size_of h) (ring_list h @ [stored]) \<and>
    size_of h' = size_of h \<and>
    (\<forall>c. c \<noteq> ch \<longrightarrow> ring_at b' c = ring_at b c) \<and> b' = b\<lparr>rings := rings b'\<rparr>"
proof -
  have inv: "ring_inv h" using rings_inv_ring [OF assms(1,2)] assms(3) by auto
  define stored where "stored = stamp b ch now (nextOff h + 1) pub"
  have off: "Offset stored = nextOff h + 1" by (simp add: stored_def stamp_def)
  obtain h' where h': "ringPut (h\<lparr>nextOff := nextOff h + 1\<rparr>) stored = Inr h'" "ring_inv h'"
    "nextOff h' = nextOff h + 1" "ring_list h' = drop (Suc (count h) - size_of h) (ring_list h @ [stored])"
    "size_of h' = size_of h"
    using ring_append [OF inv assms(4) off] by blast
  define b' where "b' = b\<lparr>rings := mput a h' (rings b)\<rparr>"
  have "appendRing b a ch now pub = Inr (b', stored)"
    using assms(3) h'(1) by (simp add: appendRing_def Let_def stored_def b'_def)
  moreover have "rings_inv b'" using assms(1) h'(2) by (auto simp: rings_inv_def b'_def)
  moreover have "ring_at b' ch = Some h'" using assms(2) by (simp add: ring_at_def b'_def)
  moreover have "ring_at b' c = ring_at b c" if "c \<noteq> ch" for c
  proof (cases "mget (history_of b) c")
    case (Some a')
    then have "a' \<noteq> a" using that assms(1,2) unfolding rings_inv_def by blast
    then show ?thesis using Some by (simp add: ring_at_def b'_def)
  qed (simp add: ring_at_def b'_def)
  ultimately show ?thesis using h' by (auto simp: stored_def b'_def)
qed

lemma wildcard_inv_rings [simp]:
  "wildcard_inv (b\<lparr>rings := r, history_of := x\<rparr>) = wildcard_inv b"
  "wildcard_inv (b\<lparr>rings := r\<rparr>) = wildcard_inv b"
  "wildcard_inv (b\<lparr>history_of := x\<rparr>) = wildcard_inv b"
  "wildcard_inv (b\<lparr>dispatch := d\<rparr>) = wildcard_inv b"
  by (simp_all add: wildcard_inv_def)

lemma wants_rings [simp]:
  "wants (b\<lparr>rings := r, history_of := x\<rparr>) = wants b" "wants (b\<lparr>rings := r\<rparr>) = wants b"
  by (simp_all add: wants_def fun_eq_iff)

lemma Publish_spec:
  assumes inv: "broker_inv b" and v: "ValidateTopic ch = None"
    and room: "unat (nextOff (ring_or_new b ch pub)) < 2 ^ 64 - 1"
  shows "\<exists>b' h' stored. Publish b ch now pub =
      goret (b', Inr (Offset stored), if handler b \<and> wants b ch then Some stored else None) \<and>
    broker_inv b' \<and> ring_at b' ch = Some h' \<and>
    stored = stamp b ch now (nextOff (ring_or_new b ch pub) + 1) pub \<and>
    nextOff h' = nextOff (ring_or_new b ch pub) + 1 \<and>
    ring_list h' = drop (Suc (count (ring_or_new b ch pub)) - size_of (ring_or_new b ch pub))
      (ring_list (ring_or_new b ch pub) @ [stored]) \<and>
    (\<forall>c. c \<noteq> ch \<longrightarrow> ring_at b' c = ring_at b c) \<and> dispatch b' = dispatch b \<and>
    wants b' = wants b \<and> handler b' = handler b \<and> wcCounts b' = wcCounts b \<and> subs_of_ch b' = subs_of_ch b"
proof -
  have ri: "rings_inv b" and wi: "wildcard_inv b" using inv by (auto simp: broker_inv_def)
  obtain b1 a where r: "resolveRing b ch pub = Inr (b1, a)" "rings_inv b1"
    "mget (history_of b1) ch = Some a" "mget (rings b1) a = Some (ring_or_new b ch pub)"
    "\<forall>c. c \<noteq> ch \<longrightarrow> ring_at b1 c = ring_at b c"
    and b1: "b1 = b\<lparr>rings := rings b1, history_of := history_of b1\<rparr>"
    using resolveRing_spec [OF ri] by blast
  obtain b2 h' stored where ap: "appendRing b1 a ch now pub = Inr (b2, stored)" "rings_inv b2"
    "stored = stamp b1 ch now (nextOff (ring_or_new b ch pub) + 1) pub" "ring_at b2 ch = Some h'"
    "nextOff h' = nextOff (ring_or_new b ch pub) + 1"
    "ring_list h' = drop (Suc (count (ring_or_new b ch pub)) - size_of (ring_or_new b ch pub))
      (ring_list (ring_or_new b ch pub) @ [stored])"
    "\<forall>c. c \<noteq> ch \<longrightarrow> ring_at b2 c = ring_at b1 c"
    and b2: "b2 = b1\<lparr>rings := rings b2\<rparr>"
    using appendRing_spec [OF r(2-4) room] by blast
  have w1: "wildcard_inv b1" "wants b1 = wants b" "handler b1 = handler b" "dispatch b1 = dispatch b"
      "wcCounts b1 = wcCounts b" "subs_of_ch b1 = subs_of_ch b"
    by (subst b1, simp add: wi)+
  have w2: "wildcard_inv b2" "wants b2 = wants b1" "handler b2 = handler b1" "dispatch b2 = dispatch b1"
      "wcCounts b2 = wcCounts b1" "subs_of_ch b2 = subs_of_ch b1"
    by (subst b2, simp add: w1)+
  have st: "stamp b1 ch now off pub = stamp b ch now off pub" for off
    by (subst b1) (simp add: stamp_def)
  have "Publish b ch now pub =
      goret (b2, Inr (Offset stored), if handler b \<and> wants b ch then Some stored else None)"
    using v r(1) interested_spec [OF w1(1)] ap(1) w1 by (simp add: Publish_def)
  moreover have "broker_inv b2" using ap(2) w1 w2 inv by (simp add: broker_inv_def)
  ultimately show ?thesis using ap r(5) st w1 w2 by auto
qed

section \<open>Interest is reference counted\<close>

definition interest_count :: "memoryBroker \<Rightarrow> string \<Rightarrow> int" where
  "interest_count b ch = (if IsWildcard ch then mzero 0 (wcCounts b) ch else mzero 0 (subs_of_ch b) ch)"

lemma routable_iff: "(\<exists>ci. CompileInterest key = Inr ci) \<longleftrightarrow> routable key"
proof (cases "ValidateTopic key")
  case None
  obtain front l where s: "SplitSegments key = front @ [l]" using segments_snoc by blast
  show ?thesis
    using None CompileInterest_wild [OF None _ s] CompileInterest_literal [OF None] s
      not_IsWildcard_literal [of key]
    by (cases "IsWildcard key") (auto simp: routable_def)
qed (auto simp: routable_def CompileInterest_invalid)

lemma routable_valid: "routable key \<Longrightarrow> validTopic key"
  by (auto simp: routable_def ValidateTopic_def split: if_splits)

text \<open>A routable wildcard key without its last segment is literal, hence not a wildcard key.\<close>

lemma routable_butlast:
  assumes "routable p" "IsWildcard p" "SplitSegments p' = butlast (SplitSegments p)"
  shows "\<not> IsWildcard p'"
  using assms not_IsWildcard_literal [of p] not_IsWildcard_literal [of p']
  by (auto simp: routable_def)

lemma Subscribe_wildcard:
  assumes "wildcard_inv b" "routable ch" "IsWildcard ch" "mget (wcCounts b) ch = None"
  shows "\<exists>m. Subscribe comparable_string (matcher b) ch ch = goret (m, Inr \<lparr>Topic = ch, Subscriber = ch\<rparr>) \<and>
    wildcard_inv (b\<lparr>wcCounts := mput ch 1 (wcCounts b), matcher := m,
      wcHandles := mput ch \<lparr>Topic = ch, Subscriber = ch\<rparr> (wcHandles b)\<rparr>)"
proof -
  have m: "trie_inv (matcher b)" "no_tomb (matcher b)" using assms by (auto simp: wildcard_inv_def)
  obtain t where t: "subscribe_loop (matcher b) (SplitSegments ch) ch = Some (Inr t)" "trie_inv t"
    "no_tomb t" "subs_at t = (subs_at (matcher b))(SplitSegments ch :=
       insert ch (subs_at (matcher b) (SplitSegments ch)))"
    using subscribe_loop_no_tomb [OF m(1) _ m(2), of "SplitSegments ch" ch] by auto
  have "Subscribe comparable_string (matcher b) ch ch = goret (t, Inr \<lparr>Topic = ch, Subscriber = ch\<rparr>)"
    using t(1) routable_valid [OF assms(2)]
    by (simp add: Subscribe_def validateSubscriber_def comparable_string_def goret_def)
  moreover have "wildcard_inv (b\<lparr>wcCounts := mput ch 1 (wcCounts b), matcher := t,
      wcHandles := mput ch \<lparr>Topic = ch, Subscriber = ch\<rparr> (wcHandles b)\<rparr>)"
    using assms t by (auto simp: wildcard_inv_def fun_eq_iff)
  ultimately show ?thesis by blast
qed

lemma Unsubscribe_wildcard:
  assumes "wildcard_inv b" "mget (wcHandles b) ch = Some s"
  shows "\<exists>m. Unsubscribe (matcher b) (Some s) = goret m \<and>
    wildcard_inv (b\<lparr>wcCounts := mdel ch (wcCounts b), matcher := m, wcHandles := mdel ch (wcHandles b)\<rparr>)"
proof -
  have s: "s = \<lparr>Topic = ch, Subscriber = ch\<rparr>" "routable ch" "IsWildcard ch"
    using assms by (auto simp: wildcard_inv_def)
  have m: "trie_inv (matcher b)" "no_tomb (matcher b)" using assms by (auto simp: wildcard_inv_def)
  have "subs_at (matcher b) (butlast (SplitSegments ch)) = {}"
    using assms(1) routable_butlast [OF s(2,3)] by (auto simp: wildcard_inv_def)
  then obtain t where t: "unsubscribe_loop (matcher b) (SplitSegments ch) ch = Some (Inr t)" "trie_inv t"
    "no_tomb t" "subs_at t = (subs_at (matcher b))(SplitSegments ch :=
       subs_at (matcher b) (SplitSegments ch) - {ch})"
    using unsubscribe_loop_no_tomb [OF m(1) _ m(2), of "SplitSegments ch" ch] by auto
  have "Unsubscribe (matcher b) (Some s) = goret t"
    using t(1) s by (simp add: Unsubscribe_def goret_def)
  moreover have "wildcard_inv (b\<lparr>wcCounts := mdel ch (wcCounts b), matcher := t,
      wcHandles := mdel ch (wcHandles b)\<rparr>)"
    using assms t by (auto simp: wildcard_inv_def fun_eq_iff)
  ultimately show ?thesis by blast
qed

lemma wildcard_inv_wcCounts:
  assumes "wildcard_inv b" "mget (wcCounts b) ch = Some n" "k > 0"
  shows "wildcard_inv (b\<lparr>wcCounts := mput ch k (wcCounts b)\<rparr>)"
proof -
  have "mget (wcHandles b) ch \<noteq> None" using assms unfolding wildcard_inv_def by (metis option.distinct(1))
  then show ?thesis using assms unfolding wildcard_inv_def by simp
qed

lemma wildcard_inv_subs:
  assumes "wildcard_inv b" "\<forall>c n. mget m c = Some n \<longrightarrow> n > 0"
  shows "wildcard_inv (b\<lparr>subs_of_ch := m\<rparr>)"
  using assms unfolding wildcard_inv_def by simp

lemma wildcard_inv_pos:
  assumes "wildcard_inv b"
  shows "mget (subs_of_ch b) c = Some n \<Longrightarrow> n > 0" "mget (wcCounts b) c = Some n \<Longrightarrow> n > 0"
  using assms unfolding wildcard_inv_def by blast+

lemma broker_Subscribe_spec:
  assumes inv: "broker_inv b"
  shows "\<exists>b' r. broker_Subscribe b ch = goret (b', r) \<and> broker_inv b' \<and> (r = None) = routable ch \<and>
    (\<forall>c. interest_count b' c = interest_count b c + (if c = ch \<and> routable ch then 1 else 0)) \<and>
    (\<forall>c. ring_at b' c = ring_at b c)"
proof (cases "routable ch")
  case False
  then obtain e where "CompileInterest ch = Inl e"
    using routable_iff [of ch] by (cases "CompileInterest ch") auto
  then show ?thesis using inv False by (auto simp: broker_Subscribe_def)
next
  case True
  then obtain ci where ci: "CompileInterest ch = Inr ci" using routable_iff [of ch] by blast
  have wi: "wildcard_inv b" using inv by (simp add: broker_inv_def)
  have keep: "rings_inv b' \<and> (\<forall>c. ring_at b' c = ring_at b c)"
    if "historySize b' = historySize b" "rings b' = rings b" "history_of b' = history_of b" for b'
    using that inv by (simp add: broker_inv_def rings_inv_def ring_at_def)
  consider (exact) "\<not> IsWildcard ch" | (more) n where "IsWildcard ch" "mget (wcCounts b) ch = Some n"
    | (first) "IsWildcard ch" "mget (wcCounts b) ch = None" by fastforce
  then show ?thesis
  proof cases
    case exact
    define b' where "b' = b\<lparr>subs_of_ch := mput ch (mzero 0 (subs_of_ch b) ch + 1) (subs_of_ch b)\<rparr>"
    have "broker_Subscribe b ch = goret (b', None)"
      using ci exact by (simp add: broker_Subscribe_def b'_def)
    moreover have "mzero 0 (subs_of_ch b) ch \<ge> 0"
      using wildcard_inv_pos(1) [OF wi, of ch] by (cases "mget (subs_of_ch b) ch") (auto simp: mzero_def)
    then have "wildcard_inv b'"
      unfolding b'_def using wildcard_inv_pos(1) [OF wi] by (intro wildcard_inv_subs [OF wi]) auto
    then have "broker_inv b'" using inv keep [of b'] by (simp add: broker_inv_def b'_def)
    ultimately show ?thesis
      using exact True keep [of b'] by (auto simp: b'_def interest_count_def mzero_def)
  next
    case more
    then have n: "n > 0" using wi by (auto simp: wildcard_inv_def)
    define b' where "b' = b\<lparr>wcCounts := mput ch (n + 1) (wcCounts b)\<rparr>"
    have "broker_Subscribe b ch = goret (b', None)"
      using ci more n by (simp add: broker_Subscribe_def b'_def mzero_def Let_def)
    moreover have "broker_inv b'"
      using inv wildcard_inv_wcCounts [OF wi more(2), of "n + 1"] n keep [of b']
      by (simp add: broker_inv_def b'_def)
    ultimately show ?thesis
      using more True keep [of b'] by (auto simp: b'_def interest_count_def mzero_def)
  next
    case first
    obtain m where m: "Subscribe comparable_string (matcher b) ch ch =
        goret (m, Inr \<lparr>Topic = ch, Subscriber = ch\<rparr>)"
      "wildcard_inv (b\<lparr>wcCounts := mput ch 1 (wcCounts b), matcher := m,
        wcHandles := mput ch \<lparr>Topic = ch, Subscriber = ch\<rparr> (wcHandles b)\<rparr>)"
      using Subscribe_wildcard [OF wi True first] by blast
    define b' where "b' = b\<lparr>wcCounts := mput ch 1 (wcCounts b), matcher := m,
        wcHandles := mput ch \<lparr>Topic = ch, Subscriber = ch\<rparr> (wcHandles b)\<rparr>"
    have "broker_Subscribe b ch = goret (b', None)"
      using ci first m(1) by (simp add: broker_Subscribe_def b'_def mzero_def Let_def)
    moreover have "broker_inv b'"
      using inv m(2) keep [of b'] by (simp add: broker_inv_def b'_def)
    ultimately show ?thesis
      using first True keep [of b'] by (auto simp: b'_def interest_count_def mzero_def)
  qed
qed

text \<open>What cancelling interest does to the exact side: count down, and reclaim a ring that never
  received a publication when the last subscriber leaves.\<close>

lemma broker_Unsubscribe_exact:
  assumes inv: "broker_inv b" and e: "\<not> IsWildcard ch"
  shows "\<exists>b'. broker_Unsubscribe b ch = goret b' \<and> broker_inv b' \<and>
    (\<forall>c. interest_count b' c = (if c = ch then max 0 (interest_count b c - 1) else interest_count b c)) \<and>
    (\<forall>c. ring_at b' c = ring_at b c \<or> c = ch \<and> ring_at b' c = None \<and>
       (\<exists>h. ring_at b c = Some h \<and> count h = 0 \<and> nextOff h = 0))"
proof -
  define n where "n = mzero 0 (subs_of_ch b) ch"
  define b1 where "b1 = (if n > 0 then b\<lparr>subs_of_ch := mput ch (n - 1) (subs_of_ch b)\<rparr> else b)"
  have ri: "rings_inv b" using inv by (simp add: broker_inv_def)
  have wi: "wildcard_inv b" using inv by (simp add: broker_inv_def)
  note pos = wildcard_inv_pos(1) [OF wi]
  have n0: "n \<ge> 0" using pos [of ch] by (cases "mget (subs_of_ch b) ch") (auto simp: n_def mzero_def)
  have z1: "mzero 0 (subs_of_ch b1) ch = max 0 (n - 1)"
    using n0 by (auto simp: b1_def mzero_def n_def)
  have cnt: "interest_count b' c = (if c = ch then max 0 (interest_count b c - 1) else interest_count b c)"
    if "mzero 0 (subs_of_ch b') ch = max 0 (n - 1)" "wcCounts b' = wcCounts b"
      "\<And>c. c \<noteq> ch \<Longrightarrow> mget (subs_of_ch b') c = mget (subs_of_ch b) c" for b' c
    using that e by (auto simp: interest_count_def n_def mzero_def)
  have unf: "broker_Unsubscribe b ch =
    (if mzero 0 (subs_of_ch b1) ch = 0 then
       let b = b1\<lparr>subs_of_ch := mdel ch (subs_of_ch b1)\<rparr>
       in case mget (history_of b) ch of
            Some addr \<Rightarrow>
              (case mget (rings b) addr of
                 Some h \<Rightarrow>
                   if count h = 0 \<and> nextOff h = 0
                   then goret (b\<lparr>history_of := mdel ch (history_of b)\<rparr>) else goret b
               | None \<Rightarrow> Some (Inl NilDereference))
          | None \<Rightarrow> goret b
     else goret b1)"
    using e unfolding broker_Unsubscribe_def b1_def n_def Let_def by (simp only: if_False)
  show ?thesis
  proof (cases "max 0 (n - 1) = 0")
    case False
    then have "broker_Unsubscribe b ch = goret b1" unfolding unf z1 by (simp only: if_False)
    moreover have "wildcard_inv b1"
      using wi wildcard_inv_subs [OF wi, of "mput ch (n - 1) (subs_of_ch b)"] pos False
      by (auto simp: b1_def)
    then have "broker_inv b1" using inv by (simp add: broker_inv_def rings_inv_def b1_def)
    moreover have "ring_at b1 = ring_at b" by (simp add: b1_def ring_at_def fun_eq_iff)
    ultimately show ?thesis using cnt [of b1] z1 by (auto simp: b1_def)
  next
    case True
    define b2 where "b2 = b1\<lparr>subs_of_ch := mdel ch (subs_of_ch b1)\<rparr>"
    have b2: "rings b2 = rings b" "history_of b2 = history_of b" "historySize b2 = historySize b"
      "dispatch b2 = dispatch b" "wcCounts b2 = wcCounts b" "mget (subs_of_ch b2) ch = None"
      "\<And>c. c \<noteq> ch \<Longrightarrow> mget (subs_of_ch b2) c = mget (subs_of_ch b) c"
      by (auto simp: b2_def b1_def)
    have "b2 = b\<lparr>subs_of_ch := subs_of_ch b2\<rparr>" by (simp add: b2_def b1_def)
    moreover have "\<forall>c n. mget (subs_of_ch b2) c = Some n \<longrightarrow> n > 0"
      using pos b2(6,7) by (metis option.distinct(1))
    ultimately have w2: "wildcard_inv b2" using wildcard_inv_subs [OF wi] by metis
    have inv2: "broker_inv b2" "ring_at b2 = ring_at b"
      using inv b2 w2 by (auto simp: broker_inv_def rings_inv_def ring_at_def fun_eq_iff)
    define b3 where "b3 = b2\<lparr>history_of := mdel ch (history_of b2)\<rparr>"
    have inv3: "broker_inv b3" using inv2(1) by (auto simp: broker_inv_def rings_inv_def b3_def)
    have at3: "ring_at b3 c = (if c = ch then None else ring_at b c)" for c
      using b2 by (simp add: ring_at_def b3_def)
    have res: "broker_Unsubscribe b ch = goret (case ring_at b ch of
        Some h \<Rightarrow> if count h = 0 \<and> nextOff h = 0 then b3 else b2 | None \<Rightarrow> b2)"
    proof (cases "mget (history_of b) ch")
      case None
      then show ?thesis using unf z1 True b2 by (simp add: ring_at_def flip: b2_def)
    next
      case (Some a)
      then obtain h where "mget (rings b) a = Some h" using rings_inv_ring [OF ri] by blast
      then show ?thesis using unf z1 True b2 Some by (simp add: ring_at_def b3_def flip: b2_def)
    qed
    have "mzero 0 (subs_of_ch b2) ch = max 0 (n - 1)" using b2(6) True by (simp add: mzero_def)
    then have c2: "\<forall>c. interest_count b2 c = (if c = ch then max 0 (interest_count b c - 1) else interest_count b c)"
      using cnt [of b2] b2 by blast
    moreover have "interest_count b3 = interest_count b2"
      by (simp add: b3_def interest_count_def fun_eq_iff)
    ultimately show ?thesis
      using res inv2 inv3 at3 by (auto split: option.splits)
  qed
qed

lemma broker_Unsubscribe_spec:
  assumes inv: "broker_inv b"
  shows "\<exists>b'. broker_Unsubscribe b ch = goret b' \<and> broker_inv b' \<and>
    (\<forall>c. interest_count b' c = (if c = ch then max 0 (interest_count b c - 1) else interest_count b c)) \<and>
    (\<forall>c. ring_at b' c = ring_at b c \<or> c = ch \<and> ring_at b' c = None \<and>
       (\<exists>h. ring_at b c = Some h \<and> count h = 0 \<and> nextOff h = 0))"
proof (cases "IsWildcard ch")
  case False
  then show ?thesis using broker_Unsubscribe_exact [OF inv] by blast
next
  case True
  have wi: "wildcard_inv b" using inv by (simp add: broker_inv_def)
  have keep: "rings_inv b' \<and> (\<forall>c. ring_at b' c = ring_at b c)"
    if "historySize b' = historySize b" "rings b' = rings b" "history_of b' = history_of b" for b'
    using that inv by (simp add: broker_inv_def rings_inv_def ring_at_def)
  consider (none) "mget (wcCounts b) ch = None" | (many) n where "mget (wcCounts b) ch = Some n" "n > 1"
    | (last) "mget (wcCounts b) ch = Some 1"
    using wildcard_inv_pos(2) [OF wi, of ch] by (cases "mget (wcCounts b) ch") force+
  then show ?thesis
  proof cases
    case none
    then have "broker_Unsubscribe b ch = goret b" using True by (simp add: broker_Unsubscribe_def mzero_def)
    then show ?thesis using inv none True by (auto simp: interest_count_def mzero_def)
  next
    case many
    define b' where "b' = b\<lparr>wcCounts := mput ch (n - 1) (wcCounts b)\<rparr>"
    have "broker_Unsubscribe b ch = goret b'"
      using True many by (simp add: broker_Unsubscribe_def mzero_def Let_def b'_def)
    moreover have "broker_inv b'"
      using inv wildcard_inv_wcCounts [OF wi many(1), of "n - 1"] many(2) keep [of b']
      by (simp add: broker_inv_def b'_def)
    ultimately show ?thesis
      using True many keep [of b'] by (auto simp: b'_def interest_count_def mzero_def)
  next
    case last
    then obtain s where s: "mget (wcHandles b) ch = Some s"
      using wi unfolding wildcard_inv_def by (metis not_None_eq)
    obtain m where m: "Unsubscribe (matcher b) (Some s) = goret m"
      "wildcard_inv (b\<lparr>wcCounts := mdel ch (wcCounts b), matcher := m, wcHandles := mdel ch (wcHandles b)\<rparr>)"
      using Unsubscribe_wildcard [OF wi s] by blast
    define c0 where "c0 = mdel ch (mput ch 0 (wcCounts b))"
    have c0: "mget c0 = mget (mdel ch (wcCounts b))" by (simp add: c0_def fun_eq_iff)
    define b' where "b' = b\<lparr>wcCounts := c0, matcher := m, wcHandles := mdel ch (wcHandles b)\<rparr>"
    have "broker_Unsubscribe b ch = goret b'"
      using True last s m(1) by (simp add: broker_Unsubscribe_def mzero_def Let_def b'_def c0_def)
    moreover have "wildcard_inv b'" using m(2) c0 by (simp add: wildcard_inv_def b'_def)
    then have "broker_inv b'" using inv keep [of b'] by (simp add: broker_inv_def b'_def)
    ultimately show ?thesis
      using True last keep [of b'] c0 by (auto simp: b'_def interest_count_def mzero_def)
  qed
qed

section \<open>Delivery\<close>

text \<open>
  The broker with the delivery workers: \<open>accepted\<close> and \<open>delivered\<close> record the tasks sent to the
  shard queues and the tasks handed to the handler. The guard on \<open>nextOff\<close> excludes the wrap-around
  of the 64-bit offsets of a channel.
\<close>

record delivery =
  broker :: memoryBroker
  accepted :: "dispatchTask list"
  delivered :: "dispatchTask list"

definition sent :: "delivery \<Rightarrow> memoryBroker \<Rightarrow> string \<Rightarrow> Publication \<Rightarrow> delivery" where
  "sent d b ch pub = d\<lparr>broker := shard_send b ch pub,
     accepted := accepted d @ [\<lparr>task_ch = ch, task_pub = pub\<rparr>]\<rparr>"

inductive dstep :: "delivery \<Rightarrow> delivery \<Rightarrow> bool" where
  subscribe: "broker_Subscribe (broker d) ch = goret (b, r) \<Longrightarrow> dstep d (d\<lparr>broker := b\<rparr>)"
| unsubscribe: "broker_Unsubscribe (broker d) ch = goret b \<Longrightarrow> dstep d (d\<lparr>broker := b\<rparr>)"
| publish_quiet: "Publish (broker d) ch now pub = goret (b, r, None) \<Longrightarrow>
    unat (nextOff (ring_or_new (broker d) ch pub)) < 2 ^ 64 - 1 \<Longrightarrow> dstep d (d\<lparr>broker := b\<rparr>)"
| publish_sent: "Publish (broker d) ch now pub = goret (b, r, Some stored) \<Longrightarrow>
    unat (nextOff (ring_or_new (broker d) ch pub)) < 2 ^ 64 - 1 \<Longrightarrow>
    length (dispatch b ! chShard ch) < dispatchShardDepth \<Longrightarrow> dstep d (sent d b ch stored)"
| publish_dropped: "Publish (broker d) ch now pub = goret (b, r, Some stored) \<Longrightarrow>
    unat (nextOff (ring_or_new (broker d) ch pub)) < 2 ^ 64 - 1 \<Longrightarrow>
    done_closed b \<Longrightarrow> dstep d (d\<lparr>broker := b\<rparr>)"
| transient_sent: "PublishTransient (broker d) ch now pub = goret (b, r, Some stored) \<Longrightarrow>
    length (dispatch b ! chShard ch) < dispatchShardDepth \<Longrightarrow> dstep d (sent d b ch stored)"
| transient_quiet: "PublishTransient (broker d) ch now pub = goret (b, r, None) \<Longrightarrow>
    dstep d (d\<lparr>broker := b\<rparr>)"
| deliver: "i < dispatchShardCount \<Longrightarrow> work (broker d) i = Some (b, task) \<Longrightarrow>
    dstep d (d\<lparr>broker := b, delivered := delivered d @ [task]\<rparr>)"
| shutdown: "dstep d (d\<lparr>broker := (broker d)\<lparr>done_closed := True\<rparr>\<rparr>)"

inductive reachable :: "int \<Rightarrow> string \<Rightarrow> delivery \<Rightarrow> bool" for sz epoch where
  init: "sz \<ge> 0 \<Longrightarrow>
    reachable sz epoch \<lparr>broker = Start (NewMemoryBroker sz epoch), accepted = [], delivered = []\<rparr>"
| step: "reachable sz epoch d \<Longrightarrow> dstep d d' \<Longrightarrow> reachable sz epoch d'"

abbreviation on_channel :: "string \<Rightarrow> dispatchTask list \<Rightarrow> dispatchTask list" where
  "on_channel c \<equiv> filter (\<lambda>t. task_ch t = c)"

definition assigned :: "memoryBroker \<Rightarrow> string \<Rightarrow> nat" where
  "assigned b c = (case ring_at b c of None \<Rightarrow> 0 | Some h \<Rightarrow> unat (nextOff h))"

text \<open>The offsets of the logged publications accepted on a channel; transient ones have offset 0.\<close>

definition logged :: "string \<Rightarrow> dispatchTask list \<Rightarrow> nat list" where
  "logged c ts = filter (\<lambda>n. n \<noteq> 0) (map (\<lambda>t. unat (Offset (task_pub t))) (on_channel c ts))"

definition queues_ok :: "delivery \<Rightarrow> bool" where
  "queues_ok d \<longleftrightarrow> length (dispatch (broker d)) = dispatchShardCount \<and>
     (\<forall>i < dispatchShardCount. \<forall>t \<in> set (dispatch (broker d) ! i). chShard (task_ch t) = i) \<and>
     (\<forall>c. on_channel c (delivered d) @ on_channel c (dispatch (broker d) ! chShard c) =
       on_channel c (accepted d))"

definition offsets_ok :: "delivery \<Rightarrow> bool" where
  "offsets_ok d \<longleftrightarrow> (\<forall>c. sorted_wrt (<) (logged c (accepted d)) \<and>
     (\<forall>n \<in> set (logged c (accepted d)). n \<le> assigned (broker d) c))"

definition delivery_inv :: "delivery \<Rightarrow> bool" where
  "delivery_inv d \<longleftrightarrow> broker_inv (broker d) \<and> queues_ok d \<and> offsets_ok d"

lemma chShard_less: "chShard ch < dispatchShardCount"
proof -
  have "unat (fnv64a ch mod 64) < 64"
    using word_mod_less_divisor [of "64 :: u64" "fnv64a ch"] by (simp add: word_less_nat_alt)
  then show ?thesis by (simp add: chShard_def dispatchShardCount_def)
qed

lemma queues_ok_broker:
  "queues_ok d \<Longrightarrow> dispatch b = dispatch (broker d) \<Longrightarrow> queues_ok (d\<lparr>broker := b\<rparr>)"
  by (simp add: queues_ok_def)

lemma queues_ok_sent:
  assumes "queues_ok d" "dispatch b = dispatch (broker d)"
  shows "queues_ok (sent d b ch pub)"
proof -
  have len: "length (dispatch (broker d)) = dispatchShardCount"
    and shard: "\<forall>i < dispatchShardCount. \<forall>t \<in> set (dispatch (broker d) ! i). chShard (task_ch t) = i"
    and fifo: "on_channel c (delivered d) @ on_channel c (dispatch (broker d) ! chShard c) =
      on_channel c (accepted d)" for c
    using assms(1) unfolding queues_ok_def by blast+
  define d' where "d' = sent d b ch pub"
  have d': "dispatch (broker d') = (dispatch (broker d))[chShard ch :=
      dispatch (broker d) ! chShard ch @ [\<lparr>task_ch = ch, task_pub = pub\<rparr>]]"
    "accepted d' = accepted d @ [\<lparr>task_ch = ch, task_pub = pub\<rparr>]" "delivered d' = delivered d"
    using assms(2) by (simp_all add: d'_def sent_def shard_send_def)
  have "on_channel c (delivered d') @ on_channel c (dispatch (broker d') ! chShard c) =
      on_channel c (accepted d')" for c
    using fifo [of c] d' len chShard_less [of ch] by (cases "chShard c = chShard ch") auto
  moreover have "chShard (task_ch t) = i"
    if "i < dispatchShardCount" "t \<in> set (dispatch (broker d') ! i)" for i t
    using that shard d'(1) len by (cases "chShard ch = i") auto
  ultimately show ?thesis using len d'(1) unfolding queues_ok_def d'_def [symmetric] by simp
qed

lemma queues_ok_work:
  assumes "queues_ok d" "i < dispatchShardCount" "work (broker d) i = Some (b, task)"
  shows "queues_ok (d\<lparr>broker := b, delivered := delivered d @ [task]\<rparr>)"
proof -
  obtain rest where q: "dispatch (broker d) ! i = task # rest"
    "b = (broker d)\<lparr>dispatch := (dispatch (broker d))[i := rest]\<rparr>"
    using assms(3) by (auto simp: work_def split: list.splits)
  have len: "length (dispatch (broker d)) = dispatchShardCount"
    and shard: "\<forall>i < dispatchShardCount. \<forall>t \<in> set (dispatch (broker d) ! i). chShard (task_ch t) = i"
    and fifo: "on_channel c (delivered d) @ on_channel c (dispatch (broker d) ! chShard c) =
      on_channel c (accepted d)" for c
    using assms(1) unfolding queues_ok_def by blast+
  have t: "chShard (task_ch task) = i" using shard assms(2) q(1) by simp
  have "on_channel c (delivered d @ [task]) @ on_channel c (dispatch b ! chShard c) =
      on_channel c (accepted d)" for c
    using fifo [of c] q t len assms(2) by (cases "chShard c = i") auto
  moreover have "\<forall>j < dispatchShardCount. \<forall>t \<in> set (dispatch b ! j). chShard (task_ch t) = j"
    using shard q len assms(2) by (auto simp: nth_list_update)
  ultimately show ?thesis using len q(2) unfolding queues_ok_def by simp
qed

lemma assigned_le:
  assumes "offsets_ok d" "\<And>c. assigned (broker d) c \<le> assigned b c"
  shows "offsets_ok (d\<lparr>broker := b\<rparr>)"
  using assms order.trans unfolding offsets_ok_def by (auto; blast)

lemma logged_snoc:
  "logged c (ts @ [\<lparr>task_ch = ch, task_pub = pub\<rparr>]) =
     logged c ts @ (if c = ch \<and> Offset pub \<noteq> 0 then [unat (Offset pub)] else [])"
  by (auto simp: logged_def unat_eq_0)

lemma assigned_send [simp]: "assigned (shard_send b ch pub) = assigned b"
  by (simp add: assigned_def shard_send_def ring_at_def fun_eq_iff)

lemma broker_inv_send [simp]: "broker_inv (shard_send b ch pub) = broker_inv b"
  by (simp add: broker_inv_def shard_send_def rings_inv_def)

text \<open>Sending a publication whose offset is new on its channel, or 0, keeps offsets sorted.\<close>

lemma offsets_ok_sent:
  assumes ok: "offsets_ok d" and le: "\<And>c. assigned (broker d) c \<le> assigned b c"
    and new: "Offset pub = 0 \<or> assigned (broker d) ch < unat (Offset pub) \<and> unat (Offset pub) \<le> assigned b ch"
  shows "offsets_ok (sent d b ch pub)"
proof -
  have old: "sorted_wrt (<) (logged c (accepted d))"
    "n \<in> set (logged c (accepted d)) \<Longrightarrow> n \<le> assigned (broker d) c" for c n
    using ok unfolding offsets_ok_def by blast+
  have "sorted_wrt (<) (logged c (accepted (sent d b ch pub)))" for c
    using old(1) [of c] old(2) [where c = c] new by (fastforce simp: sent_def logged_snoc sorted_wrt_append)
  moreover have "n \<le> assigned (broker (sent d b ch pub)) c"
    if "n \<in> set (logged c (accepted (sent d b ch pub)))" for n c
    using that old(2) [of n c] le [of c] new
    by (auto simp: sent_def logged_snoc split: if_splits)
  ultimately show ?thesis unfolding offsets_ok_def by blast
qed

lemma assigned_eq: "(\<And>c. ring_at b' c = ring_at b c) \<Longrightarrow> assigned b' c = assigned b c"
  by (simp add: assigned_def)

lemma assigned_ring_or_new: "unat (nextOff (ring_or_new b ch pub)) = assigned b ch"
  by (simp add: assigned_def ring_or_new_def Let_def split: option.split)

lemma Publish_assigned:
  assumes inv: "broker_inv b" and room: "unat (nextOff (ring_or_new b ch pub)) < 2 ^ 64 - 1"
    and P: "Publish b ch now pub = goret (b', r, s)"
  shows "broker_inv b'" "dispatch b' = dispatch b" "assigned b c \<le> assigned b' c"
    "s = Some stored \<Longrightarrow> assigned b ch < unat (Offset stored) \<and> unat (Offset stored) \<le> assigned b' ch"
proof -
  have "broker_inv b' \<and> dispatch b' = dispatch b \<and> assigned b c \<le> assigned b' c \<and>
    (s = Some stored \<longrightarrow> assigned b ch < unat (Offset stored) \<and> unat (Offset stored) \<le> assigned b' ch)"
  proof (cases "ValidateTopic ch")
    case (Some e)
    then show ?thesis using P inv by (simp add: Publish_def)
  next
    case None
    obtain h' st where h': "broker_inv b'" "ring_at b' ch = Some h'"
      "st = stamp b ch now (nextOff (ring_or_new b ch pub) + 1) pub"
      "nextOff h' = nextOff (ring_or_new b ch pub) + 1" "\<forall>c. c \<noteq> ch \<longrightarrow> ring_at b' c = ring_at b c"
      "dispatch b' = dispatch b" "s = (if handler b \<and> wants b ch then Some st else None)"
      using Publish_spec [OF inv None room, of now] P by auto
    have n: "unat (nextOff h') = Suc (assigned b ch)"
      using h'(4) unat_Suc_word [OF room] by (simp add: assigned_ring_or_new)
    then have "assigned b' ch = Suc (assigned b ch)" using h'(2) by (simp add: assigned_def)
    moreover have "c \<noteq> ch \<Longrightarrow> assigned b' c = assigned b c" using h'(5) by (simp add: assigned_def)
    ultimately show ?thesis
      using h' n by (cases "c = ch") (auto simp: stamp_def split: if_splits)
  qed
  then show "broker_inv b'" "dispatch b' = dispatch b" "assigned b c \<le> assigned b' c"
    "s = Some stored \<Longrightarrow> assigned b ch < unat (Offset stored) \<and> unat (Offset stored) \<le> assigned b' ch"
    by blast+
qed

lemma PublishTransient_spec:
  assumes inv: "broker_inv b"
  shows "PublishTransient b ch now pub =
    (case ValidateTopic ch of
       Some err \<Rightarrow> goret (b, Some err, None)
     | None \<Rightarrow> goret (b, None, if handler b \<and> wants b ch then Some (stamp b ch now 0 pub) else None))"
  using interested_spec inv by (auto simp: PublishTransient_def broker_inv_def Let_def split: option.split)

lemma broker_Subscribe_dispatch:
  "broker_Subscribe b ch = goret (b', r) \<Longrightarrow> dispatch b' = dispatch b"
  apply (auto simp: broker_Subscribe_def Let_def gobind_eq_goret split: sum.splits if_splits)
  subgoal for x2 a ba by (cases ba) auto
  done

lemma panic_neq_goret: "Some (Inl p) = goret x \<longleftrightarrow> False"
  by (simp add: goret_def)

lemma broker_Unsubscribe_dispatch:
  "broker_Unsubscribe b ch = goret b' \<Longrightarrow> dispatch b' = dispatch b"
  by (auto simp: broker_Unsubscribe_def Let_def gobind_eq_goret panic_neq_goret split: option.splits if_splits)

lemma delivery_keep:
  assumes "delivery_inv d" "broker_inv b" "dispatch b = dispatch (broker d)"
    and "\<And>c. assigned (broker d) c \<le> assigned b c"
  shows "delivery_inv (d\<lparr>broker := b\<rparr>)"
proof -
  have "queues_ok (d\<lparr>broker := b\<rparr>)" "offsets_ok (d\<lparr>broker := b\<rparr>)"
    using assms(1) queues_ok_broker [OF _ assms(3)] assigned_le [OF _ assms(4)]
    unfolding delivery_inv_def by blast+
  then show ?thesis using assms(2) unfolding delivery_inv_def by simp
qed

lemma delivery_send:
  assumes "delivery_inv d" "broker_inv b" "dispatch b = dispatch (broker d)"
    and "\<And>c. assigned (broker d) c \<le> assigned b c"
    and "Offset pub = 0 \<or> assigned (broker d) ch < unat (Offset pub) \<and> unat (Offset pub) \<le> assigned b ch"
  shows "delivery_inv (sent d b ch pub)"
proof -
  have "broker_inv (broker (sent d b ch pub))" using assms(2) by (simp add: sent_def)
  moreover have "queues_ok (sent d b ch pub)" "offsets_ok (sent d b ch pub)"
    using assms(1) queues_ok_sent [OF _ assms(3)] offsets_ok_sent [OF _ assms(4,5)]
    unfolding delivery_inv_def by blast+
  ultimately show ?thesis unfolding delivery_inv_def by blast
qed

lemma delivery_work:
  assumes "delivery_inv d" "i < dispatchShardCount" "work (broker d) i = Some (b, task)"
  shows "delivery_inv (d\<lparr>broker := b, delivered := delivered d @ [task]\<rparr>)"
proof -
  obtain rest where b: "b = (broker d)\<lparr>dispatch := (dispatch (broker d))[i := rest]\<rparr>"
    using assms(3) by (auto simp: work_def split: list.splits)
  then have "broker_inv b" "assigned b = assigned (broker d)"
    using assms(1) by (simp_all add: delivery_inv_def broker_inv_def rings_inv_def assigned_def ring_at_def fun_eq_iff)
  moreover from this have "offsets_ok (d\<lparr>broker := b, delivered := delivered d @ [task]\<rparr>)"
    using assms(1) unfolding delivery_inv_def offsets_ok_def by simp
  moreover have "queues_ok (d\<lparr>broker := b, delivered := delivered d @ [task]\<rparr>)"
    using assms(1) queues_ok_work [OF _ assms(2,3)] unfolding delivery_inv_def by blast
  ultimately show ?thesis unfolding delivery_inv_def by simp
qed

lemma delivery_unsubscribe:
  assumes "delivery_inv d" "broker_Unsubscribe (broker d) ch = goret b"
  shows "delivery_inv (d\<lparr>broker := b\<rparr>)"
proof -
  obtain b' where b': "broker_Unsubscribe (broker d) ch = goret b'" "broker_inv b'"
    and ring: "\<forall>c. ring_at b' c = ring_at (broker d) c \<or> c = ch \<and> ring_at b' c = None \<and>
       (\<exists>h. ring_at (broker d) c = Some h \<and> count h = 0 \<and> nextOff h = 0)"
    using broker_Unsubscribe_spec [of "broker d" ch] assms(1) unfolding delivery_inv_def by metis
  have "b' = b" using b'(1) assms(2) by simp
  moreover have "assigned (broker d) c \<le> assigned b' c" for c
    using ring [rule_format, of c] by (auto simp: assigned_def)
  ultimately show ?thesis
    using delivery_keep [OF assms(1)] b'(2) broker_Unsubscribe_dispatch [OF assms(2)] by blast
qed

lemma delivery_subscribe:
  assumes "delivery_inv d" "broker_Subscribe (broker d) ch = goret (b, r)"
  shows "delivery_inv (d\<lparr>broker := b\<rparr>)"
proof -
  obtain b' r' where b': "broker_Subscribe (broker d) ch = goret (b', r')" "broker_inv b'"
    and ring: "\<forall>c. ring_at b' c = ring_at (broker d) c"
    using broker_Subscribe_spec [of "broker d" ch] assms(1) unfolding delivery_inv_def by metis
  have "b' = b" using b'(1) assms(2) by simp
  moreover have "assigned (broker d) c \<le> assigned b' c" for c
    using ring [rule_format, of c] by (simp add: assigned_def)
  ultimately show ?thesis
    using delivery_keep [OF assms(1)] b'(2) broker_Subscribe_dispatch [OF assms(2)] by blast
qed

lemma dstep_inv:
  assumes inv: "delivery_inv d" and "dstep d d'"
  shows "delivery_inv d'"
proof -
  have bi: "broker_inv (broker d)" using inv unfolding delivery_inv_def by blast
  show ?thesis
    using assms(2)
  proof cases
    case (subscribe ch b r)
    then show ?thesis using delivery_subscribe [OF inv] by blast
  next
    case (unsubscribe ch b)
    then show ?thesis using delivery_unsubscribe [OF inv] by blast
  next
    case (publish_quiet ch now pub b r)
    then show ?thesis using delivery_keep [OF inv] Publish_assigned [OF bi publish_quiet(3,2)] by blast
  next
    case (publish_sent ch now pub b r stored)
    then show ?thesis using delivery_send [OF inv] Publish_assigned [OF bi publish_sent(3,2)] by blast
  next
    case (publish_dropped ch now pub b r stored)
    then show ?thesis using delivery_keep [OF inv] Publish_assigned [OF bi publish_dropped(3,2)] by blast
  next
    case (transient_sent ch now pub b r stored)
    then have "b = broker d" "Offset stored = 0"
      using PublishTransient_spec [OF bi, of ch now pub] by (auto simp: stamp_def split: option.splits if_splits)
    then show ?thesis using delivery_send [OF inv, of b stored ch] bi transient_sent by simp
  next
    case (transient_quiet ch now pub b r)
    then have "b = broker d"
      using PublishTransient_spec [OF bi, of ch now pub] by (auto split: option.splits if_splits)
    then show ?thesis using inv transient_quiet by simp
  next
    case (deliver i b task)
    then show ?thesis using delivery_work [OF inv] by blast
  next
    case shutdown
    have "broker_inv ((broker d)\<lparr>done_closed := True\<rparr>)"
      "assigned ((broker d)\<lparr>done_closed := True\<rparr>) = assigned (broker d)"
      using bi by (simp_all add: broker_inv_def rings_inv_def wildcard_inv_def assigned_def ring_at_def fun_eq_iff)
    then show ?thesis using delivery_keep [OF inv, of "(broker d)\<lparr>done_closed := True\<rparr>"] shutdown by simp
  qed
qed

lemma reachable_inv: "reachable sz epoch d \<Longrightarrow> delivery_inv d"
proof (induction rule: reachable.induct)
  case init
  have "broker_inv (NewMemoryBroker sz epoch)" using init NewMemoryBroker_inv by simp
  then have "broker_inv (Start (NewMemoryBroker sz epoch))"
    by (simp add: Start_def broker_inv_def rings_inv_def wildcard_inv_def)
  then show ?case
    using chShard_less by (simp add: delivery_inv_def queues_ok_def offsets_ok_def logged_def
        Start_def NewMemoryBroker_def)
qed (rule dstep_inv)

section \<open>The promises of the memory broker\<close>

text \<open>What \<^verbatim>\<open>History\<close> can return for a channel.\<close>

definition retained :: "memoryBroker \<Rightarrow> string \<Rightarrow> Publication list" where
  "retained b ch = (case ring_at b ch of None \<Rightarrow> [] | Some h \<Rightarrow> ring_list h)"

lemma History_ring:
  assumes "broker_inv b" "ring_at b ch = Some h"
  shows "broker_History b ch since limit = ringPage h since limit"
  using assms by (auto simp: broker_History_def ring_at_def bind_eq_Some_conv)

lemma History_no_ring:
  assumes "broker_inv b" "ring_at b ch = None"
  shows "broker_History b ch since limit = Inr (expiredPage since)"
proof -
  have "mget (history_of b) ch = None"
    using assms unfolding broker_inv_def rings_inv_def ring_at_def
    by (cases "mget (history_of b) ch") fastforce+
  then show ?thesis by (simp add: broker_History_def)
qed

lemma filter_upt_ge: "filter (\<lambda>n. k \<le> n) [i..<j] = [max k i..<j]"
  by (induction j) (auto simp: max_def upt_conv_Nil)

lemma ring_page_offsets:
  assumes "ring_dense h"
  shows "map (unat \<circ> Offset) (filter (\<lambda>p. since \<le> Offset p) (ring_list h)) =
    [max (unat since) (Suc (unat (nextOff h)) - count h)..<Suc (unat (nextOff h))]"
proof -
  have "map (unat \<circ> Offset) (filter (\<lambda>p. since \<le> Offset p) (ring_list h)) =
      filter (\<lambda>n. unat since \<le> n) (map (unat \<circ> Offset) (ring_list h))"
    by (simp add: filter_map comp_def word_le_nat_alt)
  then show ?thesis using ring_offsets [OF assms] filter_upt_ge by metis
qed

text \<open>The gap flag of a page: some assigned offset the reader asked for is no longer retained.\<close>

lemma ring_gap:
  assumes "ring_dense h" "count h > 0" "since > 0"
  shows "since < Offset (hd (ring_list h)) \<longleftrightarrow>
    (\<exists>n \<ge> unat since. n \<le> unat (nextOff h) \<and> n \<notin> unat ` Offset ` set (ring_list h))"
proof -
  have "unat since > 0" using assms(3) by (simp add: word_less_nat_alt)
  moreover have "count h \<le> unat (nextOff h)" using assms(1) by (simp add: ring_dense_def)
  ultimately show ?thesis
    using ring_first [OF assms(1,2)] ring_retained [OF assms(1)] assms(2)
    by (auto simp: word_less_nat_alt intro: exI [of _ "unat since"])
qed

lemma History_spec:
  assumes inv: "broker_inv b"
  shows "\<exists>page. broker_History b ch since limit = Inr page \<and>
    Publications page = take (effective_limit limit) (filter (\<lambda>p. since \<le> Offset p) (retained b ch)) \<and>
    (Gap page \<longleftrightarrow> since > 0 \<and> (retained b ch = [] \<or>
       (\<exists>n \<ge> unat since. n \<le> assigned b ch \<and> n \<notin> unat ` Offset ` set (retained b ch)))) \<and>
    (since > 0 \<and> \<not> Gap page \<and> \<not> Truncated page \<longrightarrow>
       map (unat \<circ> Offset) (Publications page) = [unat since..<Suc (assigned b ch)])"
proof (cases "ring_at b ch")
  case None
  then show ?thesis
    using History_no_ring [OF inv None] by (simp add: retained_def expiredPage_def emptyPage_def)
next
  case (Some h)
  then have h: "ring_shape h" "ring_dense h" and a: "assigned b ch = unat (nextOff h)"
    and r: "retained b ch = ring_list h"
    using rings_inv_ring_at inv by (auto simp: broker_inv_def ring_inv_def assigned_def retained_def)
  show ?thesis
  proof (cases "count h = 0")
    case True
    then have "ring_list h = []" by (simp add: ring_list_def)
    then show ?thesis
      using History_ring [OF inv Some] True r by (simp add: ringPage_def expiredPage_def emptyPage_def)
  next
    case False
    then have pos: "count h > 0" by simp
    let ?sel = "filter (\<lambda>p. since \<le> Offset p) (ring_list h)"
    have ne: "ring_list h \<noteq> []" using pos length_ring_list [of h] by fastforce
    have all: "map (unat \<circ> Offset) (take (effective_limit limit) ?sel) = [unat since..<Suc (unat (nextOff h))]"
      if "since > 0" "\<not> since < Offset (hd (ring_list h))"
        "length (take (effective_limit limit) ?sel) \<noteq> effective_limit limit"
    proof -
      have "take (effective_limit limit) ?sel = ?sel" using that(3) by (simp add: min_def split: if_splits)
      then show ?thesis
        using ring_page_offsets [OF h(2), of since] ring_first [OF h(2) pos] that(2)
        by (simp add: word_less_nat_alt max_def del: upt_Suc)
    qed
    define page where "page = projr (ringPage h since limit)"
    have page: "broker_History b ch since limit = Inr page" "Publications page = take (effective_limit limit) ?sel"
      "Truncated page \<longleftrightarrow> length (take (effective_limit limit) ?sel) = effective_limit limit"
      "Gap page \<longleftrightarrow> since > 0 \<and> since < Offset (hd (ring_list h))"
      using History_ring [OF inv Some] ringPage_eq [OF h(1) pos, of since limit] by (simp_all add: page_def)
    have "Gap page \<longleftrightarrow> since > 0 \<and> (ring_list h = [] \<or>
        (\<exists>n \<ge> unat since. n \<le> unat (nextOff h) \<and> n \<notin> unat ` Offset ` set (ring_list h)))"
      using page(4) ring_gap [OF h(2) pos, of since] ne by blast
    moreover have "map (unat \<circ> Offset) (Publications page) = [unat since..<Suc (unat (nextOff h))]"
      if "since > 0 \<and> \<not> Gap page \<and> \<not> Truncated page"
      unfolding page(2) by (rule all) (use that page(3,4) in blast)+
    ultimately show ?thesis using page(1,2) unfolding r a by blast
  qed
qed

text \<open>The offsets of a page, and of a page without a gap.\<close>

lemma retained_offsets:
  assumes "broker_inv b"
  shows "map (unat \<circ> Offset) (filter (\<lambda>p. since \<le> Offset p) (retained b ch)) =
    [max (unat since) (Suc (assigned b ch) - length (retained b ch))..<Suc (assigned b ch)]"
proof (cases "ring_at b ch")
  case None
  then show ?thesis by (simp add: retained_def assigned_def)
next
  case (Some h)
  then have "ring_dense h" using rings_inv_ring_at assms by (auto simp: broker_inv_def ring_inv_def)
  from ring_page_offsets [OF this, of since] show ?thesis
    using Some by (simp add: retained_def assigned_def del: upt_Suc)
qed

lemma page_no_gap:
  assumes inv: "broker_inv b" and page: "broker_History b ch since limit = Inr page" and "since > 0" "\<not> Gap page"
  shows "map (unat \<circ> Offset) (Publications page) = take (effective_limit limit) [unat since..<Suc (assigned b ch)]"
proof -
  have P: "Publications page = take (effective_limit limit) (filter (\<lambda>p. since \<le> Offset p) (retained b ch))"
    and cover: "\<forall>n \<ge> unat since. n \<le> assigned b ch \<longrightarrow> n \<in> unat ` Offset ` set (retained b ch)"
    using History_spec [OF inv, of ch since limit] page assms(3,4) by auto
  have "map (unat \<circ> Offset) (filter (\<lambda>p. 0 \<le> Offset p) (retained b ch)) =
      [Suc (assigned b ch) - length (retained b ch)..<Suc (assigned b ch)]"
    using retained_offsets [OF inv, of 0 ch] by simp
  then have "unat ` Offset ` set (retained b ch) \<subseteq> {Suc (assigned b ch) - length (retained b ch)..assigned b ch}"
    by (metis (no_types, lifting) atLeastLessThanSuc_atLeastAtMost filter_True image_comp list.set_map order_refl set_upt word_zero_le)
  moreover have "unat since \<le> assigned b ch \<Longrightarrow> unat since \<in> unat ` Offset ` set (retained b ch)"
    using cover by blast
  ultimately have "unat since \<le> assigned b ch \<Longrightarrow> Suc (assigned b ch) - length (retained b ch) \<le> unat since"
    by fastforce
  then have "[max (unat since) (Suc (assigned b ch) - length (retained b ch))..<Suc (assigned b ch)] =
      [unat since..<Suc (assigned b ch)]"
    by (cases "unat since \<le> assigned b ch") (simp_all add: max_def)
  then show ?thesis
    using retained_offsets [OF inv, of since ch] unfolding P take_map [symmetric] by metis
qed


text \<open>
  Publishing is total and dense. On a valid channel the publication gets the next offset of
  its channel, no ring of another channel changes, the ring keeps the most recent publications up
  to its capacity, and the interested handler gets the very copy that was stored.
\<close>

lemma publish_appends:
  assumes "broker_inv b" "ValidateTopic ch = None" "assigned b ch < 2 ^ 64 - 1"
  shows "\<exists>b' stored. Publish b ch now pub =
      goret (b', Inr (Offset stored), if handler b \<and> wants b ch then Some stored else None) \<and>
    broker_inv b' \<and> unat (Offset stored) = Suc (assigned b ch) \<and> assigned b' ch = Suc (assigned b ch) \<and>
    stored = stamp b ch now (Offset stored) pub \<and>
    retained b' ch = drop (Suc (length (retained b ch)) - size_of (ring_or_new b ch pub))
      (retained b ch @ [stored]) \<and>
    (\<forall>c. c \<noteq> ch \<longrightarrow> retained b' c = retained b c)"
proof -
  have room: "unat (nextOff (ring_or_new b ch pub)) < 2 ^ 64 - 1"
    using assms(3) by (simp add: assigned_ring_or_new)
  have r: "retained b ch = ring_list (ring_or_new b ch pub)"
    by (simp add: retained_def ring_or_new_def Let_def ring_list_def split: option.split)
  obtain b' h' stored where P: "Publish b ch now pub =
      goret (b', Inr (Offset stored), if handler b \<and> wants b ch then Some stored else None)"
    "broker_inv b'" "ring_at b' ch = Some h'"
    "stored = stamp b ch now (nextOff (ring_or_new b ch pub) + 1) pub"
    "nextOff h' = nextOff (ring_or_new b ch pub) + 1"
    "ring_list h' = drop (Suc (count (ring_or_new b ch pub)) - size_of (ring_or_new b ch pub))
      (ring_list (ring_or_new b ch pub) @ [stored])"
    "\<forall>c. c \<noteq> ch \<longrightarrow> ring_at b' c = ring_at b c"
    using Publish_spec [OF assms(1,2) room, of now] by auto
  have n: "unat (nextOff (ring_or_new b ch pub) + 1) = Suc (assigned b ch)"
    using unat_Suc_word [OF room] by (simp add: assigned_ring_or_new)
  have o: "Offset stored = nextOff (ring_or_new b ch pub) + 1" using P(4) by (simp add: stamp_def)
  show ?thesis
    by (rule exI [of _ b'], rule exI [of _ stored], intro conjI)
      (use P n r o in \<open>simp_all add: assigned_def retained_def\<close>)
qed

definition example_pub :: "string \<Rightarrow> Publication" where
  "example_pub body = \<lparr>Channel = [], Payload = body, PubKind = PayloadKindText, ContentType = [],
     Id = [], Metadata = [], Offset = 0, Seq = 0, Time = 0, Epoch = [], PubHistorySize = 0,
     PubHistoryTTL = 0\<rparr>"



text \<open>A run: subscribe, publish, deliver.\<close>

definition example_run :: "nat \<Rightarrow> delivery" where
  "example_run n =
     (let b0 = Start (NewMemoryBroker 2 ''e1'');
          d0 = \<lparr>broker = b0, accepted = [], delivered = []\<rparr>;
          b1 = fst (projr (the (broker_Subscribe b0 ''acme:lobby'')));
          p = projr (the (Publish b1 ''acme:lobby'' 1 (example_pub ''hi'')));
          d2 = sent (d0\<lparr>broker := b1\<rparr>) (fst p) ''acme:lobby'' (the (snd (snd p)));
          w = the (work (broker d2) (chShard ''acme:lobby''))
      in if n = 0 then d0 else if n = 1 then d0\<lparr>broker := b1\<rparr> else if n = 2 then d2
         else d2\<lparr>broker := fst w, delivered := delivered d2 @ [snd w]\<rparr>)"

lemma example_run_reachable: "reachable 2 ''e1'' (example_run 3)"
proof -
  have "reachable 2 ''e1'' (example_run 0)"
    unfolding example_run_def Let_def if_True by (simp add: reachable.init)
  moreover have "dstep (example_run 0) (example_run 1)"
  proof -
    have "example_run 1 = (example_run 0)\<lparr>broker := broker (example_run 1)\<rparr>"
      "broker_Subscribe (broker (example_run 0)) ''acme:lobby'' = goret (broker (example_run 1), None)"
      by code_simp+
    then show ?thesis by (metis dstep.subscribe)
  qed
  moreover have "dstep (example_run 1) (example_run 2)"
  proof -
    define p where "p = projr (the (Publish (broker (example_run 1)) ''acme:lobby'' 1 (example_pub ''hi'')))"
    have "nextOff (ring_or_new (broker (example_run 1)) ''acme:lobby'' (example_pub ''hi'')) = 0"
      by code_simp
    then have room: "unat (nextOff (ring_or_new (broker (example_run 1)) ''acme:lobby'' (example_pub ''hi''))) < 2 ^ 64 - 1"
      by simp
    have "Publish (broker (example_run 1)) ''acme:lobby'' 1 (example_pub ''hi'') =
        goret (fst p, fst (snd p), Some (the (snd (snd p))))"
      "length (dispatch (fst p) ! chShard ''acme:lobby'') < dispatchShardDepth"
      "example_run 2 = sent (example_run 1) (fst p) ''acme:lobby'' (the (snd (snd p)))"
      unfolding p_def by code_simp+
    then show ?thesis using room by (metis dstep.publish_sent)
  qed
  moreover have "dstep (example_run 2) (example_run 3)"
  proof -
    define w where "w = the (work (broker (example_run 2)) (chShard ''acme:lobby''))"
    have "work (broker (example_run 2)) (chShard ''acme:lobby'') = Some (fst w, snd w)"
      "example_run 3 = (example_run 2)\<lparr>broker := fst w, delivered := delivered (example_run 2) @ [snd w]\<rparr>"
      unfolding w_def by code_simp+
    then show ?thesis using chShard_less by (metis dstep.deliver)
  qed
  ultimately show ?thesis by (meson reachable.step)
qed


text \<open>Interest: any sequence of subscriptions and cancellations from a new broker.\<close>

datatype interest_op = Acquire string | Release string

fun interest_run :: "interest_op list \<Rightarrow> memoryBroker \<Rightarrow> memoryBroker go" where
  "interest_run [] b = goret b"
| "interest_run (Acquire ch # ops) b = gobind (broker_Subscribe b ch) (\<lambda>(b, _). interest_run ops b)"
| "interest_run (Release ch # ops) b = gobind (broker_Unsubscribe b ch) (interest_run ops)"

fun net_interest :: "interest_op list \<Rightarrow> (string \<Rightarrow> int) \<Rightarrow> string \<Rightarrow> int" where
  "net_interest [] n = n"
| "net_interest (Acquire ch # ops) n = net_interest ops (n(ch := if routable ch then n ch + 1 else n ch))"
| "net_interest (Release ch # ops) n = net_interest ops (n(ch := max 0 (n ch - 1)))"

lemma interest_run_spec:
  "broker_inv b \<Longrightarrow> \<exists>b'. interest_run ops b = goret b' \<and> broker_inv b' \<and>
     interest_count b' = net_interest ops (interest_count b)"
proof (induction ops arbitrary: b)
  case (Cons op ops)
  show ?case
  proof (cases op)
    case (Acquire ch)
    obtain b1 r where b1: "broker_Subscribe b ch = goret (b1, r)" "broker_inv b1"
      "\<forall>c. interest_count b1 c = interest_count b c + (if c = ch \<and> routable ch then 1 else 0)"
      using broker_Subscribe_spec [OF Cons.prems] by blast
    have "interest_count b1 = (interest_count b)(ch := if routable ch then interest_count b ch + 1
        else interest_count b ch)"
      using b1(3) by (auto simp: fun_eq_iff)
    then have "net_interest (op # ops) (interest_count b) = net_interest ops (interest_count b1)"
      unfolding Acquire by (simp only: net_interest.simps)
    moreover have "interest_run (op # ops) b = interest_run ops b1" using b1(1) Acquire by simp
    ultimately show ?thesis using Cons.IH [OF b1(2)] by simp
  next
    case (Release ch)
    obtain b1 where b1: "broker_Unsubscribe b ch = goret b1" "broker_inv b1"
      "\<forall>c. interest_count b1 c = (if c = ch then max 0 (interest_count b c - 1) else interest_count b c)"
      using broker_Unsubscribe_spec [OF Cons.prems] by blast
    have "interest_count b1 = (interest_count b)(ch := max 0 (interest_count b ch - 1))"
      using b1(3) by (auto simp: fun_eq_iff)
    then have "net_interest (op # ops) (interest_count b) = net_interest ops (interest_count b1)"
      unfolding Release by (simp only: net_interest.simps)
    moreover have "interest_run (op # ops) b = interest_run ops b1" using b1(1) Release by simp
    ultimately show ?thesis using Cons.IH [OF b1(2)] by simp
  qed
qed simp

lemma wants_interest:
  assumes "broker_inv b" "\<not> IsWildcard ch"
  shows "wants b ch \<longleftrightarrow> interest_count b ch > 0 \<or> (\<exists>p. IsWildcard p \<and> interest_count b p > 0 \<and> Match p ch)"
proof -
  have w: "wildcard_inv b" using assms(1) by (simp add: broker_inv_def)
  have "IsWildcard p" if "mget (wcCounts b) p \<noteq> None" for p
  proof -
    have "mget (wcHandles b) p \<noteq> None" using w that unfolding wildcard_inv_def by simp
    then obtain s where "mget (wcHandles b) p = Some s" by blast
    then show ?thesis using w unfolding wildcard_inv_def by blast
  qed
  moreover have "mzero 0 (wcCounts b) p > 0 \<longleftrightarrow> mget (wcCounts b) p \<noteq> None" for p
    by (rule mzero_pos) (use w in \<open>simp add: wildcard_inv_def\<close>)
  moreover have "mzero 0 (subs_of_ch b) ch > 0 \<longleftrightarrow> mget (subs_of_ch b) ch \<noteq> None"
    by (rule mzero_pos) (use w in \<open>simp add: wildcard_inv_def\<close>)
  ultimately show ?thesis using assms(2) by (auto simp: wants_def interest_count_def)
qed

text \<open>
  (C21) Interest bookkeeping returns and counts. Whatever subscriptions and cancellations arrive, no
  call panics and none of the retry loops of the trie spins forever; every key ends with its net
  count; and a channel is wanted exactly when its own count or that of a matching pattern is
  positive.
\<close>

theorem interest_refcount:
  assumes "sz \<ge> 0" "\<not> IsWildcard ch"
  shows "\<exists>b. interest_run ops (NewMemoryBroker sz epoch) = goret b \<and> broker_inv b \<and>
    (\<forall>key. interest_count b key = net_interest ops (\<lambda>_. 0) key) \<and>
    (wants b ch \<longleftrightarrow> net_interest ops (\<lambda>_. 0) ch > 0 \<or>
      (\<exists>p. IsWildcard p \<and> net_interest ops (\<lambda>_. 0) p > 0 \<and> Match p ch))"
proof -
  have "interest_count (NewMemoryBroker sz epoch) = (\<lambda>_. 0)"
    by (simp add: fun_eq_iff interest_count_def NewMemoryBroker_def mzero_def)
  then show ?thesis
    using interest_run_spec [OF NewMemoryBroker_inv [OF assms(1)], of ops epoch] wants_interest [OF _ assms(2)]
    by auto
qed

theorem interest_refcount_witness:
  "\<exists>b. interest_run [Acquire ''acme:team.*'', Acquire ''acme:a**'', Release ''acme:x''] (NewMemoryBroker 2 ''e1'') = goret b \<and>
     wants b ''acme:team.red''"
proof -
  have p: "\<not> IsWildcard ''acme:team.red''" "IsWildcard ''acme:team.*''" "Match ''acme:team.*'' ''acme:team.red''"
    by code_simp+
  have "\<not> isl (CompileInterest ''acme:team.*'')" by code_simp
  then have r: "routable ''acme:team.*''" using routable_iff [of "''acme:team.*''"] sum.collapse(2) by metis
  then have "net_interest [Acquire ''acme:team.*'', Acquire ''acme:a**'', Release ''acme:x''] (\<lambda>_. 0) ''acme:team.*'' > 0"
    by simp
  then show ?thesis
    using interest_refcount [of 2 "''acme:team.red''" "[Acquire ''acme:team.*'', Acquire ''acme:a**'', Release ''acme:x'']" "''e1''"] p
    by auto
qed

text \<open>
  A concrete run of \<^verbatim>\<open>Publish\<close> interleaved with the last \<^verbatim>\<open>Unsubscribe\<close>: the publisher has
  resolved the ring and released the broker lock, the unsubscriber drops the still empty ring from
  the map, and the publisher appends to the orphan.
\<close>

definition orphan_run :: "go_panic + (memoryBroker \<times> Publication)" where
  "orphan_run =
     (case broker_Subscribe (Start (NewMemoryBroker 4 ''e1'')) ''acme:lobby'' of
        Some (Inr (b, _)) \<Rightarrow>
          (case resolveRing b ''acme:lobby'' (example_pub ''one'') of
             Inl e \<Rightarrow> Inl e
           | Inr (b, addr) \<Rightarrow>
               (case broker_Unsubscribe b ''acme:lobby'' of
                  Some (Inr b) \<Rightarrow> appendRing b addr ''acme:lobby'' 1 (example_pub ''one'')
                | Some (Inl e) \<Rightarrow> Inl e
                | None \<Rightarrow> Inl InvalidState))
      | Some (Inl e) \<Rightarrow> Inl e
      | None \<Rightarrow> Inl InvalidState)"

text \<open>
  The window between finding a ring and appending to it is not protected: a first publication
  that overlaps the last cancellation of its channel is acknowledged with offset 1 but never
  readable, and after a new subscription the next publication is acknowledged with offset 1 again.
\<close>

lemma orphan_ring_duplicates_offset:
  "case orphan_run of
     Inl _ \<Rightarrow> False
   | Inr (b, stored) \<Rightarrow>
       Offset stored = 1 \<and> Payload stored = ''one'' \<and>
       broker_History b ''acme:lobby'' 0 0 = Inr emptyPage \<and>
       (case broker_Subscribe b ''acme:lobby'' of
          Some (Inr (b, _)) \<Rightarrow>
            (case Publish b ''acme:lobby'' 2 (example_pub ''two'') of
               Some (Inr (b', r, _)) \<Rightarrow> r = Inr 1 \<and> map Payload (retained b' ''acme:lobby'') = [''two'']
             | _ \<Rightarrow> False)
        | _ \<Rightarrow> False)"
  by code_simp

end
