(* ===== verification/Strconv.thy ===== *)
theory Strconv
  imports Base
begin

text \<open>
  The number and byte encodings of the Go standard library the sources rely on:
  \<^verbatim>\<open>strconv.FormatUint\<close>, \<^verbatim>\<open>FormatInt\<close> and \<^verbatim>\<open>ParseUint\<close> in base 10, \<^verbatim>\<open>encoding/hex\<close> and
  big-endian \<^verbatim>\<open>uint32\<close>, with their round trips.
\<close>

section \<open>Decimal numbers\<close>

definition digit :: "nat \<Rightarrow> char" where
  "digit d = char_of (48 + d)"

fun FormatUint :: "nat \<Rightarrow> string" where
  "FormatUint n = (if n < 10 then [digit n] else FormatUint (n div 10) @ [digit (n mod 10)])"

declare FormatUint.simps [simp del]

definition FormatInt :: "int \<Rightarrow> string" where
  "FormatInt i = (if i < 0 then ''-'' @ FormatUint (nat (- i)) else FormatUint (nat i))"

definition isDigit :: "char \<Rightarrow> bool" where
  "isDigit c \<longleftrightarrow> 48 \<le> (of_char c :: nat) \<and> (of_char c :: nat) \<le> 57"

text \<open>\<^verbatim>\<open>ParseUint(s, 10, 64)\<close>: digits only, not empty, and no overflow on the way.\<close>

fun parseDigits :: "nat \<Rightarrow> string \<Rightarrow> nat option" where
  "parseDigits n [] = Some n"
| "parseDigits n (c # s) =
     (if isDigit c \<and> n * 10 + (of_char c - 48) < 2 ^ 64 then parseDigits (n * 10 + (of_char c - 48)) s
      else None)"

definition ParseUint :: "string \<Rightarrow> u64 option" where
  "ParseUint s = (if s = [] then None else map_option of_nat (parseDigits 0 s))"

lemma of_char_digit: "d < 10 \<Longrightarrow> (of_char (digit d) :: nat) = 48 + d"
  by (simp add: digit_def of_char_of)

lemma isDigit_digit [simp]: "d < 10 \<Longrightarrow> isDigit (digit d)"
  by (simp add: isDigit_def of_char_digit)

lemma digit_inject: "d < 10 \<Longrightarrow> e < 10 \<Longrightarrow> digit d = digit e \<longleftrightarrow> d = e"
  by (metis add_left_cancel of_char_digit)

lemma FormatUint_digits: "c \<in> set (FormatUint n) \<Longrightarrow> isDigit c"
  by (induction n rule: FormatUint.induct)
    (subst (asm) (2) FormatUint.simps, auto split: if_splits)

lemma FormatUint_not_Nil [simp]: "FormatUint n \<noteq> []"
  by (subst FormatUint.simps) simp

lemma parseDigits_append:
  "parseDigits n (s @ t) = Option.bind (parseDigits n s) (\<lambda>m. parseDigits m t)"
  by (induction s arbitrary: n) auto

lemma parseDigits_FormatUint: "n < 2 ^ 64 \<Longrightarrow> parseDigits 0 (FormatUint n) = Some n"
proof (induction n rule: FormatUint.induct)
  case (1 n)
  show ?case
  proof (cases "n < 10")
    case True
    then show ?thesis using 1 by (subst FormatUint.simps) (simp add: of_char_digit)
  next
    case False
    then have "parseDigits 0 (FormatUint (n div 10)) = Some (n div 10)" using 1 by simp
    moreover have "n div 10 * 10 + n mod 10 = n" by simp
    ultimately show ?thesis
      using False 1(2) by (subst FormatUint.simps) (simp add: parseDigits_append of_char_digit)
  qed
qed

lemma unat_less_2p: "unat (e :: u64) < 2 ^ 64" "unat (n :: u32) < 2 ^ 32"
  using unsigned_less [where 'a = nat and w = e] unsigned_less [where 'a = nat and w = n] by simp_all

lemma ParseUint_FormatUint: "ParseUint (FormatUint (unat e)) = Some e"
  using parseDigits_FormatUint [OF unat_less_2p(1)] by (simp add: ParseUint_def)

lemma FormatUint_inject [simp]: "FormatUint m = FormatUint n \<longleftrightarrow> m = n"
proof (induction m arbitrary: n rule: FormatUint.induct)
  case (1 m)
  have fm: "FormatUint m = (if m < 10 then [digit m] else FormatUint (m div 10) @ [digit (m mod 10)])"
    and fn: "FormatUint n = (if n < 10 then [digit n] else FormatUint (n div 10) @ [digit (n mod 10)])"
    by (subst FormatUint.simps, simp)+
  show ?case
  proof (cases "m < 10 \<or> n < 10")
    case True
    then show ?thesis unfolding fm fn by (auto simp: digit_inject dest: sym)
  next
    case False
    then have "FormatUint m = FormatUint n \<longleftrightarrow> m div 10 = n div 10 \<and> m mod 10 = n mod 10"
      unfolding fm fn using 1 by (simp add: digit_inject)
    then show ?thesis by (metis div_mult_mod_eq)
  qed
qed

lemma minus_not_digit [simp]: "\<not> isDigit (CHR ''-'')" "\<not> isDigit (CHR '':'')" "\<not> isDigit (CHR 0x0A)"
  by (simp_all add: isDigit_def)

lemma FormatInt_inject [simp]: "FormatInt i = FormatInt j \<longleftrightarrow> i = j"
proof -
  have "''-'' @ s \<noteq> FormatUint n" for s n
    using FormatUint_digits [of "CHR ''-''" n] by (metis append_Cons list.set_intros(1) minus_not_digit(1))
  then show ?thesis by (auto simp: FormatInt_def dest: sym)
qed

section \<open>Hexadecimal\<close>

definition hexDigit :: "nat \<Rightarrow> char" where
  "hexDigit d = (if d < 10 then char_of (48 + d) else char_of (87 + d))"

definition EncodeToString :: "bytes \<Rightarrow> string" where
  "EncodeToString bs = concat (map (\<lambda>b. [hexDigit (of_char b div 16), hexDigit (of_char b mod 16)]) bs)"

text \<open>\<^verbatim>\<open>hex.DecodeString\<close> accepts both cases and refuses odd lengths.\<close>

definition fromHex :: "char \<Rightarrow> nat option" where
  "fromHex c = (let n = of_char c
     in if 48 \<le> n \<and> n \<le> 57 then Some (n - 48)
        else if 97 \<le> n \<and> n \<le> 102 then Some (n - 87)
        else if 65 \<le> n \<and> n \<le> 70 then Some (n - 55) else None)"

fun DecodeString :: "string \<Rightarrow> bytes option" where
  "DecodeString [] = Some []"
| "DecodeString [c] = None"
| "DecodeString (c # d # s) =
     (case (fromHex c, fromHex d, DecodeString s) of
        (Some x, Some y, Some bs) \<Rightarrow> Some (char_of (x * 16 + y) # bs)
      | _ \<Rightarrow> None)"

lemma fromHex_hexDigit: "d < 16 \<Longrightarrow> fromHex (hexDigit d) = Some d"
  by (simp add: fromHex_def hexDigit_def Let_def of_char_of)

lemma of_char_less: "(of_char c :: nat) < 256"
  by (simp add: of_char_def)

lemma Decode_Encode [simp]: "DecodeString (EncodeToString bs) = Some bs"
proof (induction bs)
  case (Cons b bs)
  have "(of_char b :: nat) div 16 < 16" "(of_char b :: nat) mod 16 < 16"
    using of_char_less [of b] by (simp_all add: less_mult_imp_div_less)
  then show ?case using Cons by (simp add: EncodeToString_def fromHex_hexDigit char_of_char)
qed (simp add: EncodeToString_def)

lemma EncodeToString_inject [simp]: "EncodeToString a = EncodeToString b \<longleftrightarrow> a = b"
  by (metis Decode_Encode option.inject)

section \<open>Big-endian 32-bit lengths\<close>

definition PutUint32 :: "u32 \<Rightarrow> bytes" where
  "PutUint32 n = map (\<lambda>k. char_of (unat (drop_bit k n) mod 256)) [24, 16, 8, 0]"

definition Uint32 :: "bytes \<Rightarrow> u32" where
  "Uint32 bs = foldl (\<lambda>n b. n * 256 + of_char b) 0 bs"

lemma length_PutUint32 [simp]: "length (PutUint32 n) = 4"
  by (simp add: PutUint32_def)

lemma base256_split:
  fixes m :: nat
  assumes "m < 2 ^ 32"
  shows "((m div 2 ^ 24 mod 256 * 256 + m div 2 ^ 16 mod 256) * 256 + m div 2 ^ 8 mod 256) * 256 + m mod 256 = m"
proof -
  have "m div 2 ^ 16 = m div 2 ^ 8 div 256" "m div 2 ^ 24 = m div 2 ^ 16 div 256"
    using div_mult2_eq [of m "2 ^ 8" 256] div_mult2_eq [of m "2 ^ 16" 256] by simp_all
  moreover have "m div 2 ^ 24 < 256" using assms by (simp add: less_mult_imp_div_less)
  ultimately have "m div 2 ^ 24 mod 256 * 256 + m div 2 ^ 16 mod 256 = m div 2 ^ 16"
    "m div 2 ^ 16 * 256 + m div 2 ^ 8 mod 256 = m div 2 ^ 8" "m div 2 ^ 8 * 256 + m mod 256 = m"
    by (metis div_mult_mod_eq mod_less, metis div_mult_mod_eq, simp)
  then show ?thesis by simp
qed

lemma of_nat_of_char: "of_nat (of_char c :: nat) = (of_char c :: 'a :: len word)"
  by (cases c) (simp add: of_char_def)

lemma of_char_char_of: "(of_char (char_of m) :: 'a :: len word) = of_nat (m mod 256)" for m :: nat
  unfolding of_nat_of_char [symmetric] by (simp add: of_char_of)

lemma Uint32_PutUint32 [simp]: "Uint32 (PutUint32 n) = n"
proof -
  have d: "unat (drop_bit k n) = unat n div 2 ^ k" for k
    unfolding unat_drop_bit_eq by (rule drop_bit_eq_div)
  have "Uint32 (PutUint32 n) = of_nat (((unat n div 2 ^ 24 mod 256 * 256 + unat n div 2 ^ 16 mod 256) * 256 +
      unat n div 2 ^ 8 mod 256) * 256 + unat n mod 256)"
    by (simp add: PutUint32_def Uint32_def d of_char_char_of)
  then show ?thesis unfolding base256_split [OF unat_less_2p(2)] by simp
qed

end
