(* ===== verification/NodeEpoch.thy ===== *)
theory NodeEpoch
  imports Strconv
begin

text \<open>
  Node generations, \<^verbatim>\<open>internal/cluster/epoch.go\<close>: the decimal incarnation identifiers,
  their comparison, the process-local allocator and the choice of an allocator at start-up.
\<close>

definition FormatNodeEpoch :: "u64 \<Rightarrow> string" where
  "FormatNodeEpoch epoch = FormatUint (unat epoch)"

definition ParseNodeEpoch :: "string \<Rightarrow> u64 option" where
  "ParseNodeEpoch incarnationID =
     (if incarnationID = [] then None
      else case ParseUint incarnationID of
             None \<Rightarrow> None
           | Some epoch \<Rightarrow>
               if epoch = 0 then None
               else if FormatNodeEpoch epoch \<noteq> incarnationID then None
               else Some epoch)"

definition NodeEpochNewer :: "string \<Rightarrow> string \<Rightarrow> bool" where
  "NodeEpochNewer a b =
     (case ParseNodeEpoch a of
        None \<Rightarrow> False
      | Some epochA \<Rightarrow> (case ParseNodeEpoch b of None \<Rightarrow> False | Some epochB \<Rightarrow> epochA > epochB))"

text \<open>The process-local allocator: a counter per node, first issue 1.\<close>

record MemoryNodeEpochAllocator =
  epochs :: "(string, u64) gomap"

definition NewMemoryNodeEpochAllocator :: MemoryNodeEpochAllocator where
  "NewMemoryNodeEpochAllocator = \<lparr>epochs = []\<rparr>"

datatype epoch_error = NodeIDRequired | RedisNeedsAllocator | AllocatorFailed string

definition NextNodeEpoch ::
    "MemoryNodeEpochAllocator \<Rightarrow> string \<Rightarrow> MemoryNodeEpochAllocator \<times> (epoch_error + u64)" where
  "NextNodeEpoch a nodeID =
     (if nodeID = [] then (a, Inl NodeIDRequired)
      else let e = mzero 0 (epochs a) nodeID + 1
           in (a\<lparr>epochs := mput nodeID e (epochs a)\<rparr>, Inr e))"

text \<open>
  \<open>directory\<close> is the answer of the session directory when it is an allocator itself (the Redis
  one is); \<open>shared\<close> is the allocator the whole process shares.
\<close>

definition AllocateNodeIncarnation ::
    "MemoryNodeEpochAllocator \<Rightarrow> string \<Rightarrow> string \<Rightarrow> (string \<Rightarrow> epoch_error + u64) option \<Rightarrow>
     MemoryNodeEpochAllocator \<times> (epoch_error + string)" where
  "AllocateNodeIncarnation shared backend nodeID directory =
     (case directory of
        Some next_epoch \<Rightarrow>
          (case next_epoch nodeID of
             Inl err \<Rightarrow> (shared, Inl err)
           | Inr epoch \<Rightarrow> (shared, Inr (FormatNodeEpoch epoch)))
      | None \<Rightarrow>
          if backend = ''redis'' then (shared, Inl RedisNeedsAllocator)
          else case NextNodeEpoch shared nodeID of
                 (shared, Inl err) \<Rightarrow> (shared, Inl err)
               | (shared, Inr epoch) \<Rightarrow> (shared, Inr (FormatNodeEpoch epoch)))"

section \<open>Incarnation identifiers\<close>

lemma ParseNodeEpoch_Some: "ParseNodeEpoch s = Some e \<longleftrightarrow> e \<noteq> 0 \<and> s = FormatNodeEpoch e"
proof
  assume "ParseNodeEpoch s = Some e"
  then show "e \<noteq> 0 \<and> s = FormatNodeEpoch e"
    by (auto simp: ParseNodeEpoch_def split: if_splits option.splits)
next
  assume "e \<noteq> 0 \<and> s = FormatNodeEpoch e"
  then show "ParseNodeEpoch s = Some e"
    by (simp add: ParseNodeEpoch_def FormatNodeEpoch_def ParseUint_FormatUint)
qed

lemma NodeEpochNewer_format:
  "NodeEpochNewer (FormatNodeEpoch a) (FormatNodeEpoch b) \<longleftrightarrow> 0 < b \<and> b < a"
proof -
  have p: "ParseNodeEpoch (FormatNodeEpoch e) = (if e = 0 then None else Some e)" for e
  proof (cases "ParseNodeEpoch (FormatNodeEpoch e)")
    case (Some x)
    then have "x \<noteq> 0" "FormatNodeEpoch e = FormatNodeEpoch x" using ParseNodeEpoch_Some by blast+
    moreover from this(2) have "x = e" by (simp add: FormatNodeEpoch_def word_unat_eq_iff)
    ultimately show ?thesis using Some by simp
  next
    case None
    then have "e = 0" using ParseNodeEpoch_Some [of "FormatNodeEpoch e" e] by (cases "e = 0") simp_all
    then show ?thesis using None by simp
  qed
  show ?thesis
    by (cases "a = 0"; cases "b = 0") (simp_all add: NodeEpochNewer_def p word_gt_0)
qed

section \<open>Allocation\<close>

text \<open>A node that starts for the \<open>n\<close>-th time in this process.\<close>

definition starts :: "string list \<Rightarrow> MemoryNodeEpochAllocator" where
  "starts nodes = fold (\<lambda>node a. fst (AllocateNodeIncarnation a ''memory'' node None)) nodes NewMemoryNodeEpochAllocator"

lemma fst_Allocate:
  "fst (AllocateNodeIncarnation a ''memory'' node None) = fst (NextNodeEpoch a node)"
  by (simp add: AllocateNodeIncarnation_def split: prod.split sum.split)

lemma starts_epochs:
  "node \<noteq> [] \<Longrightarrow> mzero 0 (epochs (starts nodes)) node = of_nat (count_list nodes node)"
  by (induction nodes rule: rev_induct)
    (auto simp: starts_def fst_Allocate NextNodeEpoch_def NewMemoryNodeEpochAllocator_def mzero_def Let_def)

lemma start_incarnation:
  "node \<noteq> [] \<Longrightarrow> snd (AllocateNodeIncarnation (starts nodes) ''memory'' node None) =
     Inr (FormatNodeEpoch (of_nat (Suc (count_list nodes node))))"
  by (simp add: AllocateNodeIncarnation_def NextNodeEpoch_def starts_epochs Let_def add.commute)

lemma of_nat_less_u64: "m < n \<Longrightarrow> n < 2 ^ 64 \<Longrightarrow> (of_nat m :: u64) < of_nat n"
  by (simp add: word_less_nat_alt unat_of_nat)

text \<open>
  (C26) Incarnation identifiers: \<^verbatim>\<open>ParseNodeEpoch\<close> accepts exactly the canonical renderings of the
  non-zero epochs and inverts \<^verbatim>\<open>FormatNodeEpoch\<close>; leading zeros, signs, zero, overflow and
  foreign identifiers are refused. \<^verbatim>\<open>NodeEpochNewer\<close> is the numeric order on those renderings.
\<close>

theorem incarnation_exact:
  "(ParseNodeEpoch s = Some e \<longleftrightarrow> e \<noteq> 0 \<and> s = FormatNodeEpoch e) \<and>
   (NodeEpochNewer a b \<longleftrightarrow> (\<exists>ea eb. a = FormatNodeEpoch ea \<and> b = FormatNodeEpoch eb \<and> 0 < eb \<and> eb < ea))"
proof -
  have "NodeEpochNewer a b \<Longrightarrow> \<exists>ea eb. a = FormatNodeEpoch ea \<and> b = FormatNodeEpoch eb"
    using ParseNodeEpoch_Some by (fastforce simp: NodeEpochNewer_def split: option.splits)
  then have "NodeEpochNewer a b \<longleftrightarrow> (\<exists>ea eb. a = FormatNodeEpoch ea \<and> b = FormatNodeEpoch eb \<and> 0 < eb \<and> eb < ea)"
    by (metis NodeEpochNewer_format)
  then show ?thesis using ParseNodeEpoch_Some by blast
qed

text \<open>
  Of two starts of one node on a process-local backend, with any other starts before and
  between them, the later one has the newer incarnation.
\<close>

lemma later_start_newer:
  assumes "node \<noteq> []" "length before + length between + 2 < 2 ^ 64"
  shows "\<exists>early late.
    snd (AllocateNodeIncarnation (starts before) ''memory'' node None) = Inr early \<and>
    snd (AllocateNodeIncarnation (starts (before @ [node] @ between)) ''memory'' node None) = Inr late \<and>
    NodeEpochNewer late early"
proof -
  define i j where "i = Suc (count_list before node)" and "j = Suc (count_list (before @ [node] @ between) node)"
  have "count_list before node \<le> length before" "count_list between node \<le> length between"
    by (rule count_le_length)+
  then have "j < 2 ^ 64" "i < j" "0 < i" using assms(2) by (simp_all add: i_def j_def)
  then have "NodeEpochNewer (FormatNodeEpoch (of_nat j)) (FormatNodeEpoch (of_nat i))"
    using of_nat_less_u64 [of i j] of_nat_less_u64 [of 0 i] by (simp add: NodeEpochNewer_format)
  then show ?thesis
    using start_incarnation [OF assms(1)] unfolding i_def j_def by blast
qed

end
