(* ===== verification/ClusterHmac.thy ===== *)
theory ClusterHmac
  imports Strconv "HOL-Library.List_Lexorder" "HOL-Library.Char_ord"
begin

text \<open>
  The signing gate of the cluster command bus, \<^verbatim>\<open>internal/cluster/hmac/hmac.go\<close>: the canonical
  byte encoding of commands and results, signing, and verification with its clock-skew window.
  The digests are parameters: \<open>sha256\<close> of a payload and \<open>mac\<close> of a key and a message. A time is
  its distance from the Unix epoch in nanoseconds.
\<close>

type_synonym time = int

definition unix :: "time \<Rightarrow> int" where
  "unix t = t div 1000000000"

definition zero_time :: time where
  "zero_time = - 62135596800 * 1000000000"

text \<open>Command types and statuses are strings in the code, with the constants of
  \<^verbatim>\<open>internal/cluster/contracts.go\<close>.\<close>

record ClusterCommand =
  CommandID :: string
  Type :: string
  TargetNodeID :: string
  TargetIncarnationID :: string
  cmd_SessionID :: string
  cmd_Channel :: string
  LeaseVersion :: u64
  IssuedAt :: time
  IssuedBy :: string
  cmd_Payload :: bytes
  cmd_Metadata :: "(string, string) gomap"
  Signature :: string

record ClusterCommandResult =
  res_CommandID :: string
  res_SessionID :: string
  res_NodeID :: string
  res_IncarnationID :: string
  Status :: string
  ErrorCode :: string
  ErrorMessage :: string
  res_Metadata :: "(string, string) gomap"
  res_IssuedAt :: time
  res_Signature :: string

definition MaxClockSkew :: int where
  "MaxClockSkew = 30"

datatype RejectReason = RejectMissing | RejectBad | RejectSkew | RejectID

abbreviation newline :: char where
  "newline \<equiv> CHR 0x0A"

section \<open>The canonical encoding\<close>

definition writeField :: "string \<Rightarrow> bytes" where
  "writeField field = FormatUint (length field) @ '':'' @ field @ [newline]"

definition writeMetadata :: "(string, string) gomap \<Rightarrow> bytes" where
  "writeMetadata metadata =
     (let keys = sort (map fst metadata)
      in FormatUint (length keys) @ [newline] @
         concat (map (\<lambda>key. writeField key @ writeField (mzero [] metadata key)) keys))"

definition canonicalCommand :: "(bytes \<Rightarrow> bytes) \<Rightarrow> ClusterCommand \<Rightarrow> bytes" where
  "canonicalCommand sha256 cmd = ''v2'' @ [newline] @
     writeField (Type cmd) @
     writeField (cmd_SessionID cmd) @
     writeField (TargetIncarnationID cmd) @
     writeField (FormatUint (unat (LeaseVersion cmd))) @
     writeField (EncodeToString (sha256 (cmd_Payload cmd))) @
     writeField (CommandID cmd) @
     writeField (FormatInt (unix (IssuedAt cmd))) @
     writeField (cmd_Channel cmd) @
     writeMetadata (cmd_Metadata cmd)"

definition canonicalResult :: "ClusterCommandResult \<Rightarrow> bytes" where
  "canonicalResult res = ''v2-result'' @ [newline] @
     writeField (res_CommandID res) @
     writeField (Status res) @
     writeField (ErrorCode res) @
     writeField (res_SessionID res) @
     writeField (res_NodeID res) @
     writeField (res_IncarnationID res) @
     writeField (FormatInt (unix (res_IssuedAt res))) @
     writeMetadata (res_Metadata res)"

section \<open>Signing and verification\<close>

definition checkSkew :: "time \<Rightarrow> time \<Rightarrow> RejectReason option" where
  "checkSkew issuedAt now =
     (if issuedAt = zero_time then Some RejectSkew
      else let diff = unix now - unix issuedAt; diff = (if diff < 0 then - diff else diff)
           in if diff > MaxClockSkew then Some RejectSkew else None)"

definition compute :: "(bytes \<Rightarrow> bytes \<Rightarrow> bytes) \<Rightarrow> bytes \<Rightarrow> bytes \<Rightarrow> string" where
  "compute mac key canonical = EncodeToString (mac key canonical)"

definition verify :: "(bytes \<Rightarrow> bytes \<Rightarrow> bytes) \<Rightarrow> bytes \<Rightarrow> bytes \<Rightarrow> string \<Rightarrow> bool" where
  "verify mac key canonical signature =
     (case DecodeString signature of
        None \<Rightarrow> False
      | Some received \<Rightarrow> received = mac key canonical)"

text \<open>A nil command or result is \<open>None\<close>.\<close>

definition SignCommand ::
    "(bytes \<Rightarrow> bytes \<Rightarrow> bytes) \<Rightarrow> (bytes \<Rightarrow> bytes) \<Rightarrow> bytes \<Rightarrow> ClusterCommand option \<Rightarrow> ClusterCommand option" where
  "SignCommand mac sha256 key cmd =
     (case cmd of
        None \<Rightarrow> None
      | Some cmd \<Rightarrow> Some (cmd\<lparr>Signature := compute mac key (canonicalCommand sha256 cmd)\<rparr>))"

definition VerifyCommand ::
    "(bytes \<Rightarrow> bytes \<Rightarrow> bytes) \<Rightarrow> (bytes \<Rightarrow> bytes) \<Rightarrow> bytes \<Rightarrow> ClusterCommand option \<Rightarrow> time \<Rightarrow> RejectReason option" where
  "VerifyCommand mac sha256 key cmd now =
     (case cmd of
        None \<Rightarrow> Some RejectBad
      | Some cmd \<Rightarrow>
          if Signature cmd = [] then Some RejectMissing
          else if CommandID cmd = [] then Some RejectID
          else case checkSkew (IssuedAt cmd) now of
                 Some err \<Rightarrow> Some err
               | None \<Rightarrow>
                   if \<not> verify mac key (canonicalCommand sha256 cmd) (Signature cmd) then Some RejectBad
                   else None)"

definition SignResult ::
    "(bytes \<Rightarrow> bytes \<Rightarrow> bytes) \<Rightarrow> bytes \<Rightarrow> ClusterCommandResult option \<Rightarrow> ClusterCommandResult option" where
  "SignResult mac key res =
     (case res of
        None \<Rightarrow> None
      | Some res \<Rightarrow> Some (res\<lparr>res_Signature := compute mac key (canonicalResult res)\<rparr>))"

definition VerifyResult ::
    "(bytes \<Rightarrow> bytes \<Rightarrow> bytes) \<Rightarrow> bytes \<Rightarrow> ClusterCommandResult option \<Rightarrow> time \<Rightarrow> RejectReason option" where
  "VerifyResult mac key res now =
     (case res of
        None \<Rightarrow> Some RejectBad
      | Some res \<Rightarrow>
          if res_Signature res = [] then Some RejectMissing
          else case checkSkew (res_IssuedAt res) now of
                 Some err \<Rightarrow> Some err
               | None \<Rightarrow>
                   if \<not> verify mac key (canonicalResult res) (res_Signature res) then Some RejectBad
                   else None)"

section \<open>The encoding is self-delimiting\<close>

lemma digits_cancel:
  assumes "\<not> isDigit c"
  shows "FormatUint m @ c # s = FormatUint n @ c # t \<longleftrightarrow> m = n \<and> s = t"
proof
  assume eq: "FormatUint m @ c # s = FormatUint n @ c # t"
  have t: "takeWhile isDigit (FormatUint k @ c # u) = FormatUint k" for k u
    using assms FormatUint_digits by (simp add: takeWhile_append)
  have "FormatUint m = FormatUint n" using arg_cong [OF eq, of "takeWhile isDigit"] t by simp
  then show "m = n \<and> s = t" using eq by simp
qed simp

lemma writeField_cancel: "writeField f @ s = writeField g @ t \<longleftrightarrow> f = g \<and> s = t"
proof
  assume "writeField f @ s = writeField g @ t"
  then have "FormatUint (length f) @ CHR '':'' # (f @ newline # s) = FormatUint (length g) @ CHR '':'' # (g @ newline # t)"
    by (simp add: writeField_def)
  then have "length f = length g" "f @ newline # s = g @ newline # t" by (simp_all add: digits_cancel)
  then show "f = g \<and> s = t" by simp
qed simp

lemma pairs_cancel:
  assumes "length ks = length ls"
  shows "concat (map (\<lambda>k. writeField k @ writeField (f k)) ks) =
      concat (map (\<lambda>k. writeField k @ writeField (g k)) ls) \<longleftrightarrow>
    ks = ls \<and> (\<forall>k \<in> set ks. f k = g k)"
  using assms by (induction ks ls rule: list_induct2) (auto simp: writeField_cancel)

lemma writeMetadata_cancel:
  assumes "mwf m" "mwf m'"
  shows "writeMetadata m = writeMetadata m' \<longleftrightarrow> mget m = mget m'"
proof
  assume "writeMetadata m = writeMetadata m'"
  then have len: "length (sort (map fst m)) = length (sort (map fst m'))"
    and eq: "concat (map (\<lambda>k. writeField k @ writeField (mzero [] m k)) (sort (map fst m))) =
      concat (map (\<lambda>k. writeField k @ writeField (mzero [] m' k)) (sort (map fst m')))"
    by (simp_all add: writeMetadata_def Let_def digits_cancel)
  from eq have "sort (map fst m) = sort (map fst m')" "\<forall>k \<in> set (map fst m). mzero [] m k = mzero [] m' k"
    unfolding pairs_cancel [OF len] by simp_all
  moreover from this(1) have "fst ` set m = fst ` set m'" by (metis list.set_map set_sort)
  ultimately have "mget m k = mget m' k" for k
    using mget_None_iff [of m k] mget_None_iff [of m' k]
    by (cases "k \<in> fst ` set m") (auto simp: mzero_def split: option.splits)
  then show "mget m = mget m'" by blast
next
  assume eq: "mget m = mget m'"
  then have "k \<in> fst ` set m \<longleftrightarrow> k \<in> fst ` set m'" for k
    using mget_None_iff [of m k] mget_None_iff [of m' k] by simp
  then have "set (sort (map fst m)) = set (sort (map fst m'))" unfolding set_sort set_map by blast
  moreover have "distinct (sort (map fst m))" "distinct (sort (map fst m'))"
    using assms unfolding mwf_def distinct_sort by blast+
  ultimately have k: "sort (map fst m) = sort (map fst m')"
    using sorted_distinct_set_unique [OF sorted_sort _ sorted_sort] by blast
  show "writeMetadata m = writeMetadata m'" unfolding writeMetadata_def Let_def mzero_def k eq ..
qed

text \<open>The covered fields of a command: everything but \<^verbatim>\<open>IssuedBy\<close>, \<^verbatim>\<open>TargetNodeID\<close> and the
  signature; of the time only the second, of the payload only its digest.\<close>

definition covered :: "(bytes \<Rightarrow> bytes) \<Rightarrow> ClusterCommand \<Rightarrow>
    (string \<times> string \<times> string \<times> u64 \<times> bytes) \<times> (string \<times> int \<times> string \<times> (string \<Rightarrow> string option))" where
  "covered sha256 c =
     ((Type c, cmd_SessionID c, TargetIncarnationID c, LeaseVersion c, sha256 (cmd_Payload c)),
      (CommandID c, unix (IssuedAt c), cmd_Channel c, mget (cmd_Metadata c)))"

lemma canonicalCommand_eq_iff:
  assumes "mwf (cmd_Metadata c)" "mwf (cmd_Metadata c')"
  shows "canonicalCommand sha256 c = canonicalCommand sha256 c' \<longleftrightarrow> covered sha256 c = covered sha256 c'"
  unfolding canonicalCommand_def covered_def same_append_eq writeField_cancel prod.inject
    FormatUint_inject FormatInt_inject EncodeToString_inject writeMetadata_cancel [OF assms] word_unat_eq_iff
  by blast

lemma canonical_kinds_differ: "canonicalCommand sha256 c \<noteq> canonicalResult r"
  by (simp add: canonicalCommand_def canonicalResult_def)

lemma verify_compute: "verify mac key m (compute mac key m') \<longleftrightarrow> mac key m = mac key m'"
  by (auto simp: verify_def compute_def)

text \<open>
  (C25) The canonical encoding is injective: two commands have the same canonical bytes exactly when
  they agree on every covered field, the metadata as maps, the payload by digest and the time by
  second; and no command shares its bytes with a command result.
\<close>

theorem canonical_injective:
  assumes "mwf (cmd_Metadata c)" "mwf (cmd_Metadata c')"
  shows "(canonicalCommand sha256 c = canonicalCommand sha256 c' \<longleftrightarrow>
      Type c = Type c' \<and> cmd_SessionID c = cmd_SessionID c' \<and>
      TargetIncarnationID c = TargetIncarnationID c' \<and> LeaseVersion c = LeaseVersion c' \<and>
      sha256 (cmd_Payload c) = sha256 (cmd_Payload c') \<and> CommandID c = CommandID c' \<and>
      unix (IssuedAt c) = unix (IssuedAt c') \<and> cmd_Channel c = cmd_Channel c' \<and>
      mget (cmd_Metadata c) = mget (cmd_Metadata c')) \<and>
    canonicalCommand sha256 c \<noteq> canonicalResult r"
  using canonicalCommand_eq_iff [OF assms] canonical_kinds_differ by (auto simp: covered_def)

definition example_command :: "string \<Rightarrow> ClusterCommand" where
  "example_command ch = \<lparr>CommandID = ''c1'', Type = ''subscribe'', TargetNodeID = ''n1'',
     TargetIncarnationID = ''7'', cmd_SessionID = ''s1'', cmd_Channel = ch, LeaseVersion = 3,
     IssuedAt = 1700000000000000000, IssuedBy = ''n2'', cmd_Payload = ''x'',
     cmd_Metadata = [(''b'', ''2''), (''a'', ''1'')], Signature = []\<rparr>"

theorem canonical_injective_witness:
  "mwf (cmd_Metadata (example_command ''acme:a'')) \<and>
   canonicalCommand id (example_command ''acme:a'') \<noteq> canonicalCommand id (example_command ''acme:b'')"
proof -
  have "mwf (cmd_Metadata (example_command ch))" for ch by (simp add: example_command_def mwf_def)
  then show ?thesis
    using canonical_injective [of "example_command ''acme:a''" "example_command ''acme:b''"]
    by (simp add: example_command_def)
qed

text \<open>
  (C12) What verification guarantees. A signed command is accepted exactly when it has an identifier
  and was issued within 30 seconds of the verifier's clock; and any command accepted under the
  signature of another one agrees with it on every covered field, unless the two canonical
  encodings are a collision of the keyed digest.
\<close>

theorem signed_commands:
  assumes digest: "\<And>k m. length (mac k m) = 32"
    and "SignCommand mac sha256 key (Some c) = Some stamped"
    and "mwf (cmd_Metadata c)" "mwf (cmd_Metadata c')" "Signature c' = Signature stamped"
  shows "(VerifyCommand mac sha256 key (Some stamped) now = None \<longleftrightarrow>
      CommandID c \<noteq> [] \<and> IssuedAt c \<noteq> zero_time \<and> \<bar>unix now - unix (IssuedAt c)\<bar> \<le> 30) \<and>
    (VerifyCommand mac sha256 key (Some c') now = None \<longrightarrow>
      covered sha256 c' = covered sha256 c \<or>
      canonicalCommand sha256 c' \<noteq> canonicalCommand sha256 c \<and>
      mac key (canonicalCommand sha256 c') = mac key (canonicalCommand sha256 c))"
proof -
  have s: "stamped = c\<lparr>Signature := compute mac key (canonicalCommand sha256 c)\<rparr>"
    using assms(2) by (simp add: SignCommand_def)
  have can: "canonicalCommand sha256 stamped = canonicalCommand sha256 c"
    by (simp add: s canonicalCommand_def)
  have "Signature stamped \<noteq> []"
    using digest [of key "canonicalCommand sha256 c"]
    by (cases "mac key (canonicalCommand sha256 c)") (auto simp: s compute_def EncodeToString_def)
  moreover have "verify mac key (canonicalCommand sha256 x) (Signature stamped) \<longleftrightarrow>
      mac key (canonicalCommand sha256 x) = mac key (canonicalCommand sha256 c)" for x
    by (simp add: s verify_compute)
  ultimately show ?thesis
    using assms(5) can canonicalCommand_eq_iff [OF assms(4,3)]
    by (auto simp: VerifyCommand_def checkSkew_def MaxClockSkew_def Let_def s split: option.splits if_splits)
qed

theorem signed_commands_witness:
  "VerifyCommand (\<lambda>k m. replicate 32 (CHR ''m'')) id ''key''
     (SignCommand (\<lambda>k m. replicate 32 (CHR ''m'')) id ''key'' (Some (example_command ''acme:a'')))
     1700000000000000000 = None"
proof -
  define stamped where "stamped = (example_command ''acme:a'')\<lparr>Signature :=
    compute (\<lambda>k m. replicate 32 (CHR ''m'')) ''key'' (canonicalCommand id (example_command ''acme:a''))\<rparr>"
  have s: "SignCommand (\<lambda>k m. replicate 32 (CHR ''m'')) id ''key'' (Some (example_command ''acme:a'')) = Some stamped"
    by (simp add: SignCommand_def stamped_def)
  have wf: "mwf (cmd_Metadata (example_command ''acme:a''))" "mwf (cmd_Metadata stamped)"
    by (simp_all add: example_command_def mwf_def stamped_def)
  from signed_commands [OF _ s wf, of 1700000000000000000]
  show ?thesis unfolding s by (simp add: example_command_def zero_time_def)
qed

end
