(* ===== verification/Framing.thy ===== *)
theory Framing
  imports Strconv
begin

text \<open>
  Length-prefixed frames over byte streams: \<^verbatim>\<open>protocol/streamframe.go\<close> (writing and reading one
  frame, ALPN identifiers), \<^verbatim>\<open>pkg/transport/framing/framing.go\<close> (the bounded writer the QUIC and
  KCP transports share) and the disconnect codes of \<^verbatim>\<open>internal/wire/disconnect.go\<close>.

  The stream below is a parameter: \<open>Write w p\<close> is one call of \<^verbatim>\<open>io.Writer\<close>, giving the new
  stream, the number of bytes taken and whether it failed. A stream being read is the list of bytes
  still to come, \<^verbatim>\<open>io.ReadFull\<close> taking a whole block from it.
\<close>

section \<open>Frames\<close>

definition FrameHeaderSize :: nat where
  "FrameHeaderSize = 4"

datatype frame_error = ErrFrameTooLarge | ErrEmptyFrame | ErrEOF | ErrUnexpectedEOF | ErrShortWrite
  | ErrWrite | ErrClosed | ErrMarshal

function writeFull :: "('w \<Rightarrow> bytes \<Rightarrow> 'w \<times> nat \<times> bool) \<Rightarrow> 'w \<Rightarrow> bytes \<Rightarrow> go_panic + 'w \<times> frame_error option" where
  "writeFull Write w p =
     (if p = [] then Inr (w, None)
      else case Write w p of
             (w, n, err) \<Rightarrow>
               if err then Inr (w, Some ErrWrite)
               else if n = 0 then Inr (w, Some ErrShortWrite)
               else if n > length p then Inl IndexOutOfRange
               else writeFull Write w (drop n p))"
  by pat_completeness auto
termination
  by (relation "measure (\<lambda>(Write, w, p). length p)") auto

declare writeFull.simps [simp del]

definition WriteFrame :: "('w \<Rightarrow> bytes \<Rightarrow> 'w \<times> nat \<times> bool) \<Rightarrow> 'w \<Rightarrow> bytes \<Rightarrow> go_panic + 'w \<times> frame_error option" where
  "WriteFrame Write w payload =
     (if length payload = 0 then Inr (w, Some ErrEmptyFrame)
      else case writeFull Write w (PutUint32 (of_nat (length payload))) of
             Inl e \<Rightarrow> Inl e
           | Inr (w, Some err) \<Rightarrow> Inr (w, Some err)
           | Inr (w, None) \<Rightarrow> writeFull Write w payload)"

definition ReadFull :: "bytes \<Rightarrow> nat \<Rightarrow> bytes \<times> (frame_error + bytes)" where
  "ReadFull r n =
     (if length r < n then ([], if r = [] then Inl ErrEOF else Inl ErrUnexpectedEOF)
      else (drop n r, Inr (take n r)))"

definition ReadFrame :: "bytes \<Rightarrow> int \<Rightarrow> bytes \<times> (frame_error + bytes)" where
  "ReadFrame r maxSize =
     (case ReadFull r FrameHeaderSize of
        (r, Inl err) \<Rightarrow> (r, Inl err)
      | (r, Inr hdr) \<Rightarrow>
          let n = Uint32 hdr
          in if n = 0 then (r, Inl ErrEmptyFrame)
             else if maxSize > 0 \<and> int (unat n) > maxSize then (r, Inl ErrFrameTooLarge)
             else ReadFull r (unat n))"

text \<open>ALPN identifiers and the encoding they select.\<close>

definition ALPNMessageLoop :: string where "ALPNMessageLoop = ''messageloop''"
definition ALPNMessageLoopJSON :: string where "ALPNMessageLoopJSON = ''messageloop+json''"
definition ALPNMessageLoopProto :: string where "ALPNMessageLoopProto = ''messageloop+proto''"

definition ALPNProtocols :: "string list" where
  "ALPNProtocols = [ALPNMessageLoopProto, ALPNMessageLoopJSON, ALPNMessageLoop]"

datatype Marshaler = ProtobufMarshaler | JSONMarshaler

definition MarshalerForALPN :: "string \<Rightarrow> Marshaler" where
  "MarshalerForALPN alpn = (if alpn = ALPNMessageLoopProto then ProtobufMarshaler else JSONMarshaler)"

section \<open>Disconnect codes\<close>

record Disconnect =
  Code :: u32
  Reason :: string

definition Disconnect_String :: "Disconnect \<Rightarrow> string" where
  "Disconnect_String d = ''code: '' @ FormatUint (unat (Code d)) @ '', reason: '' @ Reason d"

definition DisconnectConnectionClosed :: Disconnect where
  "DisconnectConnectionClosed = \<lparr>Code = 3000, Reason = ''connection closed''\<rparr>"
definition DisconnectInvalidToken :: Disconnect where
  "DisconnectInvalidToken = \<lparr>Code = 3500, Reason = ''invalid token''\<rparr>"
definition DisconnectBadRequest :: Disconnect where
  "DisconnectBadRequest = \<lparr>Code = 3501, Reason = ''bad request''\<rparr>"
definition DisconnectStale :: Disconnect where
  "DisconnectStale = \<lparr>Code = 3502, Reason = ''stale''\<rparr>"
definition DisconnectForceNoReconnect :: Disconnect where
  "DisconnectForceNoReconnect = \<lparr>Code = 3503, Reason = ''force disconnect''\<rparr>"
definition DisconnectConnectionLimit :: Disconnect where
  "DisconnectConnectionLimit = \<lparr>Code = 3504, Reason = ''connection limit''\<rparr>"
definition DisconnectChannelLimit :: Disconnect where
  "DisconnectChannelLimit = \<lparr>Code = 3505, Reason = ''channel limit''\<rparr>"
definition DisconnectInappropriateProtocol :: Disconnect where
  "DisconnectInappropriateProtocol = \<lparr>Code = 3506, Reason = ''inappropriate protocol''\<rparr>"
definition DisconnectPermissionDenied :: Disconnect where
  "DisconnectPermissionDenied = \<lparr>Code = 3507, Reason = ''permission denied''\<rparr>"
definition DisconnectNotAvailable :: Disconnect where
  "DisconnectNotAvailable = \<lparr>Code = 3508, Reason = ''not available''\<rparr>"
definition DisconnectTooManyErrors :: Disconnect where
  "DisconnectTooManyErrors = \<lparr>Code = 3509, Reason = ''too many errors''\<rparr>"
definition DisconnectIdleTimeout :: Disconnect where
  "DisconnectIdleTimeout = \<lparr>Code = 3511, Reason = ''idle timeout''\<rparr>"
definition DisconnectSlowConsumer :: Disconnect where
  "DisconnectSlowConsumer = \<lparr>Code = 3512, Reason = ''slow consumer''\<rparr>"
definition DisconnectInternal :: Disconnect where
  "DisconnectInternal = \<lparr>Code = 3513, Reason = ''internal error''\<rparr>"
definition DisconnectUnsupportedVersion :: Disconnect where
  "DisconnectUnsupportedVersion = \<lparr>Code = 3514, Reason = ''unsupported version''\<rparr>"

section \<open>The bounded writer\<close>

text \<open>\<open>w\<close> is the stream; deadlines are set around each frame and have no other effect.\<close>

record 'w Writer =
  stream :: 'w
  writeTimeout :: int
  closed :: bool

definition NewWriter :: "'w \<Rightarrow> int \<Rightarrow> 'w Writer" where
  "NewWriter w timeout = \<lparr>stream = w, writeTimeout = timeout, closed = False\<rparr>"

definition DefaultWriteTimeout :: int where
  "DefaultWriteTimeout = 10 * 1000000000"

definition EffectiveTimeout :: "'w Writer \<Rightarrow> int" where
  "EffectiveTimeout fw = (if writeTimeout fw > 0 then writeTimeout fw else DefaultWriteTimeout)"

fun writeFrames :: "('w \<Rightarrow> bytes \<Rightarrow> 'w \<times> nat \<times> bool) \<Rightarrow> 'w \<Rightarrow> bytes list \<Rightarrow> go_panic + 'w \<times> frame_error option" where
  "writeFrames Write w [] = Inr (w, None)"
| "writeFrames Write w (msg # msgs) =
     (case WriteFrame Write w msg of
        Inl e \<Rightarrow> Inl e
      | Inr (w, Some err) \<Rightarrow> Inr (w, Some err)
      | Inr (w, None) \<Rightarrow> writeFrames Write w msgs)"

definition WriteMany ::
    "('w \<Rightarrow> bytes \<Rightarrow> 'w \<times> nat \<times> bool) \<Rightarrow> 'w Writer \<Rightarrow> bytes list \<Rightarrow> go_panic + 'w Writer \<times> frame_error option" where
  "WriteMany Write fw msgs =
     (if closed fw then Inr (fw, Some ErrClosed)
      else case writeFrames Write (stream fw) msgs of
             Inl e \<Rightarrow> Inl e
           | Inr (w, err) \<Rightarrow> Inr (fw\<lparr>stream := w\<rparr>, err))"

definition MarkClosed :: "'w Writer \<Rightarrow> 'w Writer \<times> bool" where
  "MarkClosed fw = (if closed fw then (fw, False) else (fw\<lparr>closed := True\<rparr>, True))"

text \<open>\<open>marshal\<close> encodes the disconnect envelope of a code and a reason.\<close>

definition WriteDisconnectFrame ::
    "('w \<Rightarrow> bytes \<Rightarrow> 'w \<times> nat \<times> bool) \<Rightarrow> (Disconnect \<Rightarrow> bytes option) \<Rightarrow> 'w Writer \<Rightarrow> Disconnect \<Rightarrow>
     go_panic + 'w Writer \<times> frame_error option" where
  "WriteDisconnectFrame Write marshal fw disconnect =
     (case marshal disconnect of
        None \<Rightarrow> Inr (fw, Some ErrMarshal)
      | Some frame \<Rightarrow>
          (case WriteFrame Write (stream fw) frame of
             Inl e \<Rightarrow> Inl e
           | Inr (w, err) \<Rightarrow> Inr (fw\<lparr>stream := w\<rparr>, err)))"

section \<open>What a stream holds\<close>

text \<open>The documented contract of \<^verbatim>\<open>io.Writer\<close>: at most \<open>length p\<close> bytes are taken, they are appended
  in order, and fewer are taken only with an error. \<open>content\<close> is what the stream has accepted.\<close>

definition io_writer :: "('w \<Rightarrow> bytes \<Rightarrow> 'w \<times> nat \<times> bool) \<Rightarrow> ('w \<Rightarrow> bytes) \<Rightarrow> bool" where
  "io_writer Write content \<longleftrightarrow> (\<forall>w p w' n err. Write w p = (w', n, err) \<longrightarrow>
     n \<le> length p \<and> (n < length p \<longrightarrow> err) \<and> content w' = content w @ take n p)"

definition frame :: "bytes \<Rightarrow> bytes" where
  "frame payload = PutUint32 (of_nat (length payload)) @ payload"

lemma writeFull_spec:
  assumes "io_writer Write content"
  shows "\<exists>w' err. writeFull Write w p = Inr (w', err) \<and> (err = None \<longrightarrow> content w' = content w @ p) \<and>
    ((\<forall>w p. \<not> snd (snd (Write w p))) \<longrightarrow> err = None)"
proof (cases "p = []")
  case True
  then show ?thesis by (simp add: writeFull.simps)
next
  case False
  obtain w' n err where W: "Write w p = (w', n, err)" by (metis prod_cases3)
  then have n: "n \<le> length p" "n < length p \<longrightarrow> err" "content w' = content w @ take n p"
    using assms unfolding io_writer_def by blast+
  show ?thesis
  proof (cases err)
    case True
    then have "writeFull Write w p = Inr (w', Some ErrWrite)" using False W by (subst writeFull.simps) simp
    moreover have "snd (snd (Write w p))" using W True by simp
    ultimately show ?thesis by blast
  next
    case err: False
    then have "n = length p" using n by simp
    then have "writeFull Write w p = Inr (w', None)"
      using False W err by (subst writeFull.simps) (simp add: writeFull.simps)
    then show ?thesis using n(3) \<open>n = length p\<close> by simp
  qed
qed

lemma WriteFrame_spec:
  assumes "io_writer Write content"
  shows "\<exists>w' err. WriteFrame Write w p = Inr (w', err) \<and> (err = None \<longrightarrow> p \<noteq> [] \<and> content w' = content w @ frame p) \<and>
    ((\<forall>w p. \<not> snd (snd (Write w p))) \<and> p \<noteq> [] \<longrightarrow> err = None)"
proof (cases "p = []")
  case False
  obtain w1 e1 where 1: "writeFull Write w (PutUint32 (of_nat (length p))) = Inr (w1, e1)"
    "e1 = None \<longrightarrow> content w1 = content w @ PutUint32 (of_nat (length p))"
    "(\<forall>w p. \<not> snd (snd (Write w p))) \<longrightarrow> e1 = None"
    using writeFull_spec [OF assms, of w "PutUint32 (of_nat (length p))"] by blast
  obtain w2 e2 where 2: "writeFull Write w1 p = Inr (w2, e2)" "e2 = None \<longrightarrow> content w2 = content w1 @ p"
    "(\<forall>w p. \<not> snd (snd (Write w p))) \<longrightarrow> e2 = None"
    using writeFull_spec [OF assms, of w1 p] by blast
  show ?thesis
  proof (cases e1)
    case None
    then show ?thesis using 1 2 False by (auto simp: WriteFrame_def frame_def)
  next
    case (Some e)
    then show ?thesis using 1 False by (auto simp: WriteFrame_def)
  qed
qed (simp add: WriteFrame_def)

lemma writeFrames_spec:
  assumes "io_writer Write content"
  shows "\<exists>w' err. writeFrames Write w msgs = Inr (w', err) \<and>
    (err = None \<longrightarrow> [] \<notin> set msgs \<and> content w' = content w @ concat (map frame msgs)) \<and>
    ((\<forall>w p. \<not> snd (snd (Write w p))) \<and> [] \<notin> set msgs \<longrightarrow> err = None)"
proof (induction msgs arbitrary: w)
  case (Cons m ms)
  obtain w1 e1 where 1: "WriteFrame Write w m = Inr (w1, e1)"
    "e1 = None \<longrightarrow> m \<noteq> [] \<and> content w1 = content w @ frame m"
    "(\<forall>w p. \<not> snd (snd (Write w p))) \<and> m \<noteq> [] \<longrightarrow> e1 = None"
    using WriteFrame_spec [OF assms, of w m] by blast
  obtain w2 e2 where 2: "writeFrames Write w1 ms = Inr (w2, e2)"
    "e2 = None \<longrightarrow> [] \<notin> set ms \<and> content w2 = content w1 @ concat (map frame ms)"
    "(\<forall>w p. \<not> snd (snd (Write w p))) \<and> [] \<notin> set ms \<longrightarrow> e2 = None"
    using Cons.IH [of w1] by blast
  show ?case
  proof (cases e1)
    case None
    then show ?thesis using 1 2 by auto
  next
    case (Some e)
    then show ?thesis using 1 by auto
  qed
qed simp

lemma ReadFrame_header:
  "ReadFrame (PutUint32 n @ r) maxSize =
     (if n = 0 then (r, Inl ErrEmptyFrame)
      else if maxSize > 0 \<and> int (unat n) > maxSize then (r, Inl ErrFrameTooLarge)
      else ReadFull r (unat n))"
  by (simp add: ReadFrame_def ReadFull_def FrameHeaderSize_def Let_def)

lemma ReadFrame_frame:
  assumes "p \<noteq> []" "length p < 2 ^ 32" "maxSize \<le> 0 \<or> int (length p) \<le> maxSize"
  shows "ReadFrame (frame p @ rest) maxSize = (rest, Inr p)"
proof -
  have "unat (of_nat (length p) :: u32) = length p" using assms(2) by (simp add: unat_of_nat)
  moreover from this have "(of_nat (length p) :: u32) \<noteq> 0" using assms(1) by (metis length_0_conv unat_0)
  ultimately show ?thesis using assms(3) by (auto simp: frame_def ReadFrame_header ReadFull_def)
qed

text \<open>Reading \<open>k\<close> frames.\<close>

fun readFrames :: "bytes \<Rightarrow> int \<Rightarrow> nat \<Rightarrow> bytes \<times> (frame_error + bytes list)" where
  "readFrames r maxSize 0 = (r, Inr [])"
| "readFrames r maxSize (Suc k) =
     (case ReadFrame r maxSize of
        (r, Inl err) \<Rightarrow> (r, Inl err)
      | (r, Inr p) \<Rightarrow> (case readFrames r maxSize k of (r, Inl err) \<Rightarrow> (r, Inl err) | (r, Inr ps) \<Rightarrow> (r, Inr (p # ps))))"

lemma readFrames_frames:
  "list_all (\<lambda>m. m \<noteq> [] \<and> length m < 2 ^ 32 \<and> (maxSize \<le> 0 \<or> int (length m) \<le> maxSize)) msgs \<Longrightarrow>
     readFrames (concat (map frame msgs) @ rest) maxSize (length msgs) = (rest, Inr msgs)"
  by (induction msgs) (simp_all add: ReadFrame_frame)

text \<open>
  (C10) Framing round trip. Over a stream that honours the \<^verbatim>\<open>io.Writer\<close> contract, writing a batch
  never panics; when it succeeds, the peer reads back exactly the messages of the batch, in order,
  up to the first byte after them; and it does succeed when the stream does not fail.
\<close>

theorem framing_roundtrip:
  assumes "io_writer Write content" "\<not> closed fw"
    and "list_all (\<lambda>m. m \<noteq> [] \<and> length m < 2 ^ 32 \<and> (maxSize \<le> 0 \<or> int (length m) \<le> maxSize)) msgs"
  shows "\<exists>fw' err. WriteMany Write fw msgs = Inr (fw', err) \<and>
    (err = None \<longrightarrow> (\<exists>sent. content (stream fw') = content (stream fw) @ sent \<and>
       (\<forall>rest. readFrames (sent @ rest) maxSize (length msgs) = (rest, Inr msgs)))) \<and>
    ((\<forall>w p. \<not> snd (snd (Write w p))) \<longrightarrow> err = None)"
proof -
  obtain w' err where w: "writeFrames Write (stream fw) msgs = Inr (w', err)"
    "err = None \<longrightarrow> content w' = content (stream fw) @ concat (map frame msgs)"
    "(\<forall>w p. \<not> snd (snd (Write w p))) \<and> [] \<notin> set msgs \<longrightarrow> err = None"
    using writeFrames_spec [OF assms(1), of "stream fw" msgs] by blast
  have "[] \<notin> set msgs" using assms(3) by (auto simp: list_all_iff)
  then show ?thesis
    using w assms(2) readFrames_frames [OF assms(3)] by (auto simp: WriteMany_def)
qed

text \<open>A stream that takes everything: its state is what it has accepted.\<close>

definition sink :: "bytes \<Rightarrow> bytes \<Rightarrow> bytes \<times> nat \<times> bool" where
  "sink w p = (w @ p, length p, False)"

theorem framing_roundtrip_witness:
  "\<exists>fw'. WriteMany sink (NewWriter [] 0) [''ab'', ''c''] = Inr (fw', None) \<and>
     readFrames (stream fw') 10 (length [''ab'', ''c'']) = ([], Inr [''ab'', ''c''])"
proof -
  have "io_writer sink id" "\<not> closed (NewWriter [] 0)" "\<forall>w p. \<not> snd (snd (sink w p))"
    "list_all (\<lambda>m. m \<noteq> [] \<and> length m < 2 ^ 32 \<and> ((10::int) \<le> 0 \<or> int (length m) \<le> 10)) [''ab'', ''c'']"
    by (auto simp: io_writer_def sink_def NewWriter_def)
  from this(3) framing_roundtrip [OF this(1,2,4)]
  obtain fw' sent where "WriteMany sink (NewWriter [] 0) [''ab'', ''c''] = Inr (fw', None)"
    "stream fw' = stream (NewWriter [] 0) @ sent"
    "\<forall>rest. readFrames (sent @ rest) 10 (length [''ab'', ''c'']) = (rest, Inr [''ab'', ''c''])"
    unfolding id_apply by blast
  then show ?thesis by (auto simp: NewWriter_def dest: spec [of _ "[]"])
qed



end
