(* ===== verification/Survey.thy ===== *)
theory Survey
  imports Base "HOL-Library.Word"
begin

text \<open>
  Surveys, \<^verbatim>\<open>internal/survey\<close>: the clamp of a requested timeout (\<^verbatim>\<open>defaults.go\<close>) and the collection
  of answers (\<^verbatim>\<open>survey.go\<close>), whose \<^verbatim>\<open>Wait\<close> loop runs concurrently with \<^verbatim>\<open>AddResponse\<close>.
\<close>

section \<open>Timeouts\<close>

text \<open>A \<^verbatim>\<open>time.Duration\<close> is an \<^verbatim>\<open>int64\<close> of nanoseconds.\<close>

type_synonym i64 = "64 word"

definition DefaultSurveyTimeout :: i64 where "DefaultSurveyTimeout = 5000000000"
definition MaxSurveyTimeoutCeiling :: i64 where "MaxSurveyTimeoutCeiling = 10000000000"
definition MinSurveyTimeout :: i64 where "MinSurveyTimeout = 100000000"
definition Millisecond :: i64 where "Millisecond = 1000000"

definition ClampTimeout :: "i64 \<Rightarrow> i64 \<Rightarrow> i64" where
  "ClampTimeout policyCap requestedMs =
     (let timeout = (if sint policyCap \<le> 0 then DefaultSurveyTimeout else policyCap);
          timeout = (if sint timeout > sint MaxSurveyTimeoutCeiling then MaxSurveyTimeoutCeiling else timeout)
      in if sint requestedMs > 0 then
           let requested = requestedMs * Millisecond;
               requested = (if sint requested > sint timeout then timeout else requested)
           in (if sint requested < sint MinSurveyTimeout then MinSurveyTimeout else requested)
         else timeout)"

section \<open>Collecting answers\<close>

record SurveyResult =
  res_session :: string
  res_payload :: bytes
  res_error :: "string option"

record Survey =
  survey_id :: string
  survey_channel :: string
  survey_payload :: bytes
  survey_timeout :: i64
  responses :: "(string, SurveyResult) gomap"
  responseCh :: "SurveyResult list"
  done_closed :: bool
  expected :: "string list"

definition responseCap :: nat where "responseCap = 100"

definition NewSurvey :: "string \<Rightarrow> string \<Rightarrow> bytes \<Rightarrow> i64 \<Rightarrow> Survey" where
  "NewSurvey ident ch payload timeout =
     \<lparr>survey_id = ident, survey_channel = ch, survey_payload = payload, survey_timeout = timeout,
      responses = [], responseCh = [], done_closed = False, expected = []\<rparr>"

definition AddExpectedSession :: "Survey \<Rightarrow> string \<Rightarrow> Survey" where
  "AddExpectedSession s sid = s\<lparr>expected := List.insert sid (expected s)\<rparr>"

definition IsExpectedSession :: "Survey \<Rightarrow> string \<Rightarrow> bool" where
  "IsExpectedSession s sid \<longleftrightarrow> sid \<in> set (expected s)"

text \<open>\<^verbatim>\<open>AddResponse\<close> in its two atomic parts: the map write under the lock, then the \<^verbatim>\<open>select\<close>, which
  sends if there is room and may skip the send once \<^verbatim>\<open>done\<close> is closed.\<close>

definition storeResponse :: "Survey \<Rightarrow> SurveyResult \<Rightarrow> Survey" where
  "storeResponse s r = s\<lparr>responses := mput (res_session r) r (responses s)\<rparr>"

definition sendResponse :: "Survey \<Rightarrow> SurveyResult \<Rightarrow> Survey" where
  "sendResponse s r =
     (if length (responseCh s) < responseCap then s\<lparr>responseCh := responseCh s @ [r]\<rparr> else s)"

definition AddResponse :: "Survey \<Rightarrow> string \<Rightarrow> bytes \<Rightarrow> string option \<Rightarrow> Survey" where
  "AddResponse s sid payload err =
     (let r = \<lparr>res_session = sid, res_payload = payload, res_error = err\<rparr>
      in sendResponse (storeResponse s r) r)"

text \<open>One turn of the \<^verbatim>\<open>Wait\<close> loop: take an answer from the channel, or return once \<^verbatim>\<open>done\<close> is closed.
  With both ready Go picks either. \<open>closeDone\<close> is what the timer and \<^verbatim>\<open>Close\<close> do.\<close>

definition waitReceive :: "Survey \<Rightarrow> Survey option" where
  "waitReceive s =
     (case responseCh s of
        [] \<Rightarrow> None
      | r # rs \<Rightarrow> Some (s\<lparr>responseCh := rs, responses := mput (res_session r) r (responses s)\<rparr>))"

definition waitCollect :: "Survey \<Rightarrow> SurveyResult list option" where
  "waitCollect s = (if done_closed s then Some (map snd (responses s)) else None)"

definition closeDone :: "Survey \<Rightarrow> Survey" where
  "closeDone s = s\<lparr>done_closed := True\<rparr>"

definition Close :: "Survey \<Rightarrow> Survey" where
  "Close s = (closeDone s)\<lparr>responseCh := []\<rparr>"

definition Results :: "Survey \<Rightarrow> SurveyResult list" where
  "Results s = map snd (responses s)"

text \<open>A survey in progress: \<open>answered\<close> remembers every answer given, in order, and \<open>pending\<close> the
  answers stored by an \<^verbatim>\<open>AddResponse\<close> that has not reached its \<^verbatim>\<open>select\<close> yet.\<close>

record survey_run =
  survey :: Survey
  answered :: "SurveyResult list"
  pending :: "SurveyResult list"

inductive sstep :: "survey_run \<Rightarrow> survey_run \<Rightarrow> bool" where
  store: "sstep c (c\<lparr>survey := storeResponse (survey c) r, answered := answered c @ [r],
    pending := r # pending c\<rparr>)"
| send: "r \<in> set (pending c) \<Longrightarrow>
    sstep c (c\<lparr>survey := sendResponse (survey c) r, pending := remove1 r (pending c)\<rparr>)"
| give_up: "r \<in> set (pending c) \<Longrightarrow> done_closed (survey c) \<Longrightarrow>
    sstep c (c\<lparr>pending := remove1 r (pending c)\<rparr>)"
| receive: "waitReceive (survey c) = Some s \<Longrightarrow> sstep c (c\<lparr>survey := s\<rparr>)"
| timeout: "sstep c (c\<lparr>survey := closeDone (survey c)\<rparr>)"
| close: "sstep c (c\<lparr>survey := Close (survey c)\<rparr>)"

inductive sreachable :: "Survey \<Rightarrow> survey_run \<Rightarrow> bool" for s where
  init: "sreachable s \<lparr>survey = s, answered = [], pending = []\<rparr>"
| step: "sreachable s c \<Longrightarrow> sstep c c' \<Longrightarrow> sreachable s c'"

section \<open>Timeout bounds\<close>

lemma sint_timeouts:
  "sint DefaultSurveyTimeout = 5000000000" "sint MaxSurveyTimeoutCeiling = 10000000000"
  "sint MinSurveyTimeout = 100000000" "sint Millisecond = 1000000"
  by (simp_all add: DefaultSurveyTimeout_def MaxSurveyTimeoutCeiling_def MinSurveyTimeout_def Millisecond_def)

lemma sint_mult_small:
  "sint a * sint b < 2 ^ 63 \<Longrightarrow> 0 \<le> sint a * sint b \<Longrightarrow> sint (a * b) = sint a * sint b" for a b :: i64
  by (simp add: sint_word_ariths signed_take_bit_int_eq_self)

definition effective_cap :: "i64 \<Rightarrow> int" where
  "effective_cap cap = (if sint cap \<le> 0 then 5000000000 else min (sint cap) 10000000000)"

text \<open>
  Survey timeouts are bounded. Whatever the policy and the client ask for, even when the
  conversion to nanoseconds wraps around, the timeout is positive and at most ten seconds; without
  a request it is the cap; and a request whose conversion fits becomes \<open>max 100ms (min request cap)\<close>,
  which exceeds the cap of a policy below 100 ms.
\<close>

lemma ClampTimeout_bounds:
  "0 < sint (ClampTimeout cap req) \<and> sint (ClampTimeout cap req) \<le> 10000000000 \<and>
   (sint req \<le> 0 \<longrightarrow> sint (ClampTimeout cap req) = effective_cap cap) \<and>
   (0 < sint req \<and> sint req * 1000000 < 2 ^ 63 \<longrightarrow>
      sint (ClampTimeout cap req) = max 100000000 (min (sint req * 1000000) (effective_cap cap)))"
proof -
  define t where "t = (let t = (if sint cap \<le> 0 then DefaultSurveyTimeout else cap)
    in (if sint t > sint MaxSurveyTimeoutCeiling then MaxSurveyTimeoutCeiling else t))"
  have t: "sint t = effective_cap cap" "0 < sint t" "sint t \<le> 10000000000"
    by (auto simp: t_def effective_cap_def sint_timeouts Let_def)
  have c: "ClampTimeout cap req = (if sint req > 0 then
      (if sint (if sint (req * Millisecond) > sint t then t else req * Millisecond) < sint MinSurveyTimeout
       then MinSurveyTimeout else if sint (req * Millisecond) > sint t then t else req * Millisecond) else t)"
    by (simp add: ClampTimeout_def t_def Let_def)
  have "sint (req * Millisecond) = sint req * 1000000" if "0 < sint req" "sint req * 1000000 < 2 ^ 63"
    using sint_mult_small [of req Millisecond] that by (simp add: sint_timeouts)
  then show ?thesis using t unfolding c by (auto simp: sint_timeouts)
qed

section \<open>Answers\<close>

definition survey_inv :: "survey_run \<Rightarrow> bool" where
  "survey_inv c \<longleftrightarrow> mwf (responses (survey c)) \<and>
     set (responseCh (survey c)) \<subseteq> set (answered c) \<and> set (pending c) \<subseteq> set (answered c) \<and>
     (\<forall>sid r. mget (responses (survey c)) sid = Some r \<longrightarrow> res_session r = sid \<and> r \<in> set (answered c)) \<and>
     (\<forall>r \<in> set (answered c). mget (responses (survey c)) (res_session r) \<noteq> None)"

lemma sstep_inv:
  assumes "survey_inv c" "sstep c c'"
  shows "survey_inv c'"
  using assms(2,1)
proof cases
  case (store r)
  then show ?thesis using assms(1) by (auto simp: survey_inv_def storeResponse_def)
next
  case (send r)
  then show ?thesis
    using assms(1) by (auto simp: survey_inv_def sendResponse_def dest: set_remove1_subset [THEN subsetD])
next
  case (give_up r)
  then show ?thesis
    using assms(1) by (auto simp: survey_inv_def dest: set_remove1_subset [THEN subsetD])
next
  case (receive s)
  then obtain r rs where "responseCh (survey c) = r # rs"
    "s = (survey c)\<lparr>responseCh := rs, responses := mput (res_session r) r (responses (survey c))\<rparr>"
    by (auto simp: waitReceive_def split: list.splits)
  then show ?thesis using assms(1) receive(1) by (auto simp: survey_inv_def)
qed (use assms(1) in \<open>auto simp: survey_inv_def closeDone_def Close_def\<close>)

lemma sreachable_inv: "sreachable (NewSurvey ident ch payload t) c \<Longrightarrow> survey_inv c"
proof (induction rule: sreachable.induct)
  case init
  show ?case by (simp add: survey_inv_def NewSurvey_def)
qed (rule sstep_inv)

text \<open>
  (C27) No answer is lost and none is invented. In every interleaving of answers, the waiting loop
  and the timeout, what the survey returns has exactly one result for each session that has
  answered so far, and each result is one that session gave.
\<close>

theorem survey_collects:
  assumes "sreachable (NewSurvey ident ch payload t) c" "waitCollect (survey c) = Some rs"
  shows "distinct (map res_session rs) \<and> res_session ` set rs = res_session ` set (answered c) \<and>
    set rs \<subseteq> set (answered c)"
proof -
  have inv: "survey_inv c" by (rule sreachable_inv [OF assms(1)])
  have rs: "rs = map snd (responses (survey c))"
    using assms(2) by (simp add: waitCollect_def split: if_splits)
  have entry: "(sid, r) \<in> set (responses (survey c)) \<longleftrightarrow> mget (responses (survey c)) sid = Some r" for sid r
    using inv mget_iff_set unfolding survey_inv_def by metis
  have "map res_session rs = map fst (responses (survey c))"
    using inv entry unfolding rs survey_inv_def by (auto simp: comp_def)
  then have "distinct (map res_session rs)" using inv unfolding survey_inv_def mwf_def by metis
  moreover have "set rs \<subseteq> set (answered c)" using inv entry unfolding rs survey_inv_def by auto
  moreover have "res_session r \<in> res_session ` set rs" if "r \<in> set (answered c)" for r
  proof -
    obtain r' where r': "mget (responses (survey c)) (res_session r) = Some r'"
      using inv \<open>r \<in> set (answered c)\<close> unfolding survey_inv_def by blast
    then have "res_session r' = res_session r" using inv unfolding survey_inv_def by blast
    moreover have "r' \<in> set rs" unfolding rs using r' entry [of "res_session r" r'] by force
    ultimately show ?thesis by (metis imageI)
  qed
  ultimately show ?thesis by blast
qed

definition answer :: "string \<Rightarrow> SurveyResult" where
  "answer body = \<lparr>res_session = ''s1'', res_payload = body, res_error = None\<rparr>"

text \<open>Session \<open>s1\<close> answers twice; the loop receives the first copy, then the timer fires.\<close>

definition stale_run :: survey_run where
  "stale_run =
     \<lparr>survey = \<lparr>survey_id = ''q'', survey_channel = ''acme:lobby'', survey_payload = [], survey_timeout = 0,
        responses = [(''s1'', answer ''old'')], responseCh = [answer ''new''], done_closed = True, expected = []\<rparr>,
      answered = [answer ''old'', answer ''new''], pending = []\<rparr>"

lemma stale_run_reachable: "sreachable (NewSurvey ''q'' ''acme:lobby'' [] 0) stale_run"
proof -
  let ?s = "NewSurvey ''q'' ''acme:lobby'' [] 0"
  note steps = storeResponse_def sendResponse_def waitReceive_def closeDone_def responseCap_def
    NewSurvey_def answer_def mput_def
  have 1: "sreachable ?s \<lparr>survey = storeResponse ?s (answer ''old''), answered = [answer ''old''], pending = [answer ''old'']\<rparr>"
    using sreachable.step [OF sreachable.init sstep.store [where r = "answer ''old''"], of ?s] by simp
  have 2: "sreachable ?s \<lparr>survey = sendResponse (storeResponse ?s (answer ''old'')) (answer ''old''),
      answered = [answer ''old''], pending = []\<rparr>"
    using sreachable.step [OF 1 sstep.send [where r = "answer ''old''"]] by simp
  have 3: "sreachable ?s \<lparr>survey = storeResponse (sendResponse (storeResponse ?s (answer ''old'')) (answer ''old'')) (answer ''new''),
      answered = [answer ''old'', answer ''new''], pending = [answer ''new'']\<rparr>"
    using sreachable.step [OF 2 sstep.store [where r = "answer ''new''"]] by simp
  have 4: "sreachable ?s \<lparr>survey = ?s\<lparr>responses := [(''s1'', answer ''new'')], responseCh := [answer ''old'', answer ''new'']\<rparr>,
      answered = [answer ''old'', answer ''new''], pending = []\<rparr>"
    using sreachable.step [OF 3 sstep.send [where r = "answer ''new''"]] by (simp add: steps)
  have 5: "sreachable ?s \<lparr>survey = ?s\<lparr>responses := [(''s1'', answer ''old'')], responseCh := [answer ''new'']\<rparr>,
      answered = [answer ''old'', answer ''new''], pending = []\<rparr>"
    using sreachable.step [OF 4 sstep.receive] by (simp add: steps)
  have "stale_run = \<lparr>survey = closeDone (?s\<lparr>responses := [(''s1'', answer ''old'')], responseCh := [answer ''new'']\<rparr>),
      answered = [answer ''old'', answer ''new''], pending = []\<rparr>"
    by (simp add: stale_run_def steps)
  then show ?thesis using sreachable.step [OF 5 sstep.timeout] by simp
qed

theorem survey_collects_witness:
  "\<exists>rs. waitCollect (survey stale_run) = Some rs \<and> distinct (map res_session rs) \<and>
     res_session ` set rs = {''s1''}"
proof -
  have c: "waitCollect (survey stale_run) = Some [answer ''old'']" by (simp add: waitCollect_def stale_run_def)
  from survey_collects [OF stale_run_reachable c] c show ?thesis
    by (simp add: stale_run_def answer_def)
qed

text \<open>
  The last answer does not always win. Although \<^verbatim>\<open>Wait\<close> means later answers to overwrite
  earlier ones, it writes the copies it takes from the channel back into the map: a session whose
  second answer is still queued when the timer fires is reported with its first answer, which had
  already been replaced.
\<close>

lemma survey_reports_stale_answer:
  "\<exists>c rs. sreachable (NewSurvey ''q'' ''acme:lobby'' [] 0) c \<and> waitCollect (survey c) = Some rs \<and>
     map res_session (answered c) = [''s1'', ''s1''] \<and> last (answered c) \<notin> set rs \<and> hd (answered c) \<in> set rs"
  by (rule exI [of _ stale_run], rule exI [of _ "[answer ''old'']"])
    (simp add: stale_run_reachable waitCollect_def, simp add: stale_run_def answer_def)

end
