(* ===== verification/Router.thy ===== *)
theory Router
  imports Base
begin

text \<open>
  The proxy router, \<^verbatim>\<open>internal/proxy/router.go\<close>: routes from channel and method globs to proxies.
  The glob package is a parameter: \<open>compile\<close> of a pattern, and \<open>matches\<close> of a compiled one. A proxy
  is known by its name \<open>name\<close>; closing it is recorded in the list \<^verbatim>\<open>Close\<close> returns.
\<close>

record ('p, 'g) route =
  proxy :: 'p
  channelMatcher :: 'g
  methodMatcher :: 'g

record ('p, 'g) Router =
  routes :: "('p, 'g) route list"
  byName :: "(string, 'p) gomap option"

record RouteConfig =
  route_Channel :: string
  route_Method :: string

definition NewRouter :: "('p, 'g) Router" where
  "NewRouter = \<lparr>routes = [], byName = Some []\<rparr>"

text \<open>The map is nil once the router is closed; storing into a nil map panics.\<close>

definition registerName :: "('p \<Rightarrow> string) \<Rightarrow> ('p, 'g) Router \<Rightarrow> 'p \<Rightarrow> go_panic + ('p, 'g) Router" where
  "registerName name r p =
     (if name p = [] then Inr r
      else case byName r of
             None \<Rightarrow> Inl InvalidState
           | Some m \<Rightarrow> (if mget m (name p) = None then Inr (r\<lparr>byName := Some (mput (name p) p m)\<rparr>) else Inr r))"

text \<open>The result of the calls that add routes: \<open>True\<close> on success, \<open>False\<close> for a pattern that does
  not compile.\<close>

definition Add ::
    "(string \<Rightarrow> 'g option) \<Rightarrow> ('p \<Rightarrow> string) \<Rightarrow> ('p, 'g) Router \<Rightarrow> 'p \<Rightarrow> string \<Rightarrow> string \<Rightarrow>
     go_panic + ('p, 'g) Router \<times> bool" where
  "Add compile name r p channelPattern methodPattern =
     (case compile channelPattern of
        None \<Rightarrow> Inr (r, False)
      | Some channelGlob \<Rightarrow>
          (case compile methodPattern of
             None \<Rightarrow> Inr (r, False)
           | Some methodGlob \<Rightarrow>
               (case registerName name
                   (r\<lparr>routes := routes r @ [\<lparr>proxy = p, channelMatcher = channelGlob, methodMatcher = methodGlob\<rparr>]\<rparr>) p of
                  Inl e \<Rightarrow> Inl e
                | Inr r \<Rightarrow> Inr (r, True))))"

definition router_Match :: "('g \<Rightarrow> string \<Rightarrow> bool) \<Rightarrow> ('p, 'g) Router \<Rightarrow> string \<Rightarrow> string \<Rightarrow> 'p option" where
  "router_Match matches r ch meth =
     map_option proxy (find (\<lambda>rt. matches (channelMatcher rt) ch \<and> matches (methodMatcher rt) meth) (routes r))"

definition ByName :: "('p, 'g) Router \<Rightarrow> string \<Rightarrow> 'p option" where
  "ByName r name = (if name = [] then None else Option.bind (byName r) (\<lambda>m. mget m name))"

fun compileRoutes :: "(string \<Rightarrow> 'g option) \<Rightarrow> RouteConfig list \<Rightarrow> ('g \<times> 'g) list option" where
  "compileRoutes compile [] = Some []"
| "compileRoutes compile (cfg # cfgs) =
     (case compile (route_Channel cfg) of
        None \<Rightarrow> None
      | Some channelGlob \<Rightarrow>
          (case compile (route_Method cfg) of
             None \<Rightarrow> None
           | Some methodGlob \<Rightarrow> map_option ((#) (channelGlob, methodGlob)) (compileRoutes compile cfgs)))"

definition AddFromConfig ::
    "(string \<Rightarrow> 'g option) \<Rightarrow> ('p \<Rightarrow> string) \<Rightarrow> ('p, 'g) Router \<Rightarrow> 'p \<Rightarrow> RouteConfig list \<Rightarrow>
     go_panic + ('p, 'g) Router \<times> bool" where
  "AddFromConfig compile name r p cfgs =
     (case compileRoutes compile cfgs of
        None \<Rightarrow> Inr (r, False)
      | Some compiled \<Rightarrow>
          (case registerName name
              (r\<lparr>routes := routes r @ map (\<lambda>(c, m). \<lparr>proxy = p, channelMatcher = c, methodMatcher = m\<rparr>) compiled\<rparr>) p of
             Inl e \<Rightarrow> Inl e
           | Inr r \<Rightarrow> Inr (r, True)))"

definition router_Close :: "('p, 'g) Router \<Rightarrow> ('p, 'g) Router \<times> 'p list" where
  "router_Close r = (r\<lparr>routes := [], byName := None\<rparr>, map proxy (routes r))"

section \<open>Routing\<close>

text \<open>The routes a configuration stands for, and the first that covers a call.\<close>

fun first_route ::
    "(string \<Rightarrow> 'g option) \<Rightarrow> ('g \<Rightarrow> string \<Rightarrow> bool) \<Rightarrow> string \<Rightarrow> string \<Rightarrow> ('p \<times> RouteConfig list) list \<Rightarrow> 'p option" where
  "first_route compile matches ch meth [] = None"
| "first_route compile matches ch meth ((p, cfgs) # rest) =
     (if \<exists>cfg \<in> set cfgs. matches (the (compile (route_Channel cfg))) ch \<and> matches (the (compile (route_Method cfg))) meth
      then Some p else first_route compile matches ch meth rest)"

fun configure ::
    "(string \<Rightarrow> 'g option) \<Rightarrow> ('p \<Rightarrow> string) \<Rightarrow> ('p, 'g) Router \<Rightarrow> ('p \<times> RouteConfig list) list \<Rightarrow> go_panic + ('p, 'g) Router" where
  "configure compile name r [] = Inr r"
| "configure compile name r ((p, cfgs) # rest) =
     (case AddFromConfig compile name r p cfgs of
        Inl e \<Rightarrow> Inl e
      | Inr (r, _) \<Rightarrow> configure compile name r rest)"

definition good_config :: "(string \<Rightarrow> 'g option) \<Rightarrow> RouteConfig list \<Rightarrow> bool" where
  "good_config compile cfgs \<longleftrightarrow>
     list_all (\<lambda>cfg. compile (route_Channel cfg) \<noteq> None \<and> compile (route_Method cfg) \<noteq> None) cfgs"

lemma compileRoutes_spec:
  "compileRoutes compile cfgs =
     (if good_config compile cfgs
      then Some (map (\<lambda>cfg. (the (compile (route_Channel cfg)), the (compile (route_Method cfg)))) cfgs) else None)"
  by (induction cfgs) (auto simp: good_config_def split: option.splits)

lemma registerName_routes: "registerName name r p = Inr r' \<Longrightarrow> routes r' = routes r"
  by (auto simp: registerName_def split: if_splits option.splits)

lemma registerName_open: "byName r \<noteq> None \<Longrightarrow> \<exists>r'. registerName name r p = Inr r' \<and> byName r' \<noteq> None"
  by (auto simp: registerName_def)

definition the_route :: "(string \<Rightarrow> 'g option) \<Rightarrow> 'p \<Rightarrow> RouteConfig \<Rightarrow> ('p, 'g) route" where
  "the_route compile p cfg = \<lparr>proxy = p, channelMatcher = the (compile (route_Channel cfg)),
     methodMatcher = the (compile (route_Method cfg))\<rparr>"

lemma AddFromConfig_spec:
  assumes "byName r \<noteq> None"
  shows "\<exists>r'. AddFromConfig compile name r p cfgs = Inr (r', good_config compile cfgs) \<and> byName r' \<noteq> None \<and>
    (if good_config compile cfgs then routes r' = routes r @ map (the_route compile p) cfgs else r' = r)"
proof (cases "good_config compile cfgs")
  case True
  let ?r = "r\<lparr>routes := routes r @ map (the_route compile p) cfgs\<rparr>"
  have "byName ?r \<noteq> None" using assms by simp
  then obtain r' where r': "registerName name ?r p = Inr r'" "byName r' \<noteq> None"
    using registerName_open [of ?r name p] by blast
  have "map (\<lambda>(c, m). \<lparr>proxy = p, channelMatcher = c, methodMatcher = m\<rparr>)
      (map (\<lambda>cfg. (the (compile (route_Channel cfg)), the (compile (route_Method cfg)))) cfgs) =
      map (the_route compile p) cfgs"
    by (simp add: the_route_def)
  then have "AddFromConfig compile name r p cfgs = Inr (r', True)"
    using True r' by (simp add: AddFromConfig_def compileRoutes_spec del: map_map)
  then show ?thesis using True r' registerName_routes [OF r'(1)] by simp
next
  case False
  then show ?thesis using assms by (simp add: AddFromConfig_def compileRoutes_spec)
qed

lemma find_append: "find P (xs @ ys) = (case find P xs of None \<Rightarrow> find P ys | Some x \<Rightarrow> Some x)"
  by (induction xs) auto

lemma find_routes:
  "map_option proxy (find P (map (the_route compile p) cfgs)) =
     (if \<exists>cfg \<in> set cfgs. P (the_route compile p cfg) then Some p else None)"
proof (induction cfgs)
  case (Cons cfg cfgs)
  then show ?case by (cases "P (the_route compile p cfg)") (simp_all add: the_route_def del: map_option_eq_Some)
qed simp

lemma router_Match_append:
  assumes "routes r' = routes r @ map (the_route compile p) cfgs"
  shows "router_Match matches r' ch meth =
    (case router_Match matches r ch meth of
       Some q \<Rightarrow> Some q
     | None \<Rightarrow> if \<exists>cfg \<in> set cfgs. matches (the (compile (route_Channel cfg))) ch \<and> matches (the (compile (route_Method cfg))) meth
         then Some p else None)"
  using find_routes [of "\<lambda>rt. matches (channelMatcher rt) ch \<and> matches (methodMatcher rt) meth" compile p cfgs]
  by (simp add: router_Match_def assms find_append the_route_def split: option.split)

lemma configure_match:
  assumes "byName r \<noteq> None"
  shows "\<exists>r'. configure compile name r cfgs = Inr r' \<and>
    router_Match matches r' ch meth =
      (case router_Match matches r ch meth of
         Some p \<Rightarrow> Some p
       | None \<Rightarrow> first_route compile matches ch meth (filter (good_config compile \<circ> snd) cfgs))"
  using assms
proof (induction cfgs arbitrary: r)
  case Nil
  show ?case by (simp split: option.split)
next
  case (Cons pc cfgs)
  obtain p c where pc: "pc = (p, c)" by (cases pc)
  obtain r1 where r1: "AddFromConfig compile name r p c = Inr (r1, good_config compile c)" "byName r1 \<noteq> None"
    "if good_config compile c then routes r1 = routes r @ map (the_route compile p) c else r1 = r"
    using AddFromConfig_spec [OF Cons.prems, of compile name p c] by blast
  obtain r' where r': "configure compile name r1 cfgs = Inr r'" "router_Match matches r' ch meth =
      (case router_Match matches r1 ch meth of
         Some p \<Rightarrow> Some p
       | None \<Rightarrow> first_route compile matches ch meth (filter (good_config compile \<circ> snd) cfgs))"
    using Cons.IH [OF r1(2)] by blast
  have c: "configure compile name r (pc # cfgs) = Inr r'" using r1(1) r'(1) pc by simp
  show ?case
  proof (cases "good_config compile c")
    case True
    then have "routes r1 = routes r @ map (the_route compile p) c" using r1(3) by simp
    from router_Match_append [OF this, of matches ch meth] show ?thesis
      using c r'(2) True pc by (auto split: option.splits)
  next
    case False
    then have "filter (good_config compile \<circ> snd) (pc # cfgs) = filter (good_config compile \<circ> snd) cfgs" "r1 = r"
      using r1(3) pc by simp_all
    then show ?thesis using c r'(2) by metis
  qed
qed

text \<open>
  (C28) Routing. Configuring a router never panics, a configuration with a pattern that does not
  compile adds nothing at all, and a call goes to the proxy of the first configuration, in the
  order they were added, one of whose routes covers both the channel and the method.
\<close>

theorem routing_first_match:
  "\<exists>r. configure compile name NewRouter cfgs = Inr r \<and>
     router_Match matches r ch meth =
       first_route compile matches ch meth (filter (good_config compile \<circ> snd) cfgs)"
  using configure_match [of NewRouter compile name cfgs matches ch meth]
  by (auto simp: NewRouter_def router_Match_def)

text \<open>Closing is per route, not per proxy: a proxy registered without routes is never closed, one
  with two routes is closed twice.\<close>

lemma close_per_route:
  assumes "configure Some id NewRouter
      [(''solo'', []), (''twin'', [\<lparr>route_Channel = ''a'', route_Method = ''m''\<rparr>, \<lparr>route_Channel = ''b'', route_Method = ''m''\<rparr>])] = Inr r"
  shows "ByName r ''solo'' = Some ''solo'' \<and> snd (router_Close r) = [''twin'', ''twin'']"
  using assms
  by (auto simp: AddFromConfig_def registerName_def NewRouter_def ByName_def router_Close_def mput_def mget_def)

end
