(* ===== verification/Wire.thy ===== *)
theory Wire
  imports Strconv MemoryBroker
begin

text \<open>
  The client-wire values several components build: positions (\<^verbatim>\<open>protocol/position.go\<close>), payloads
  (\<^verbatim>\<open>PayloadProtoV2\<close> of \<^verbatim>\<open>internal/stream/broker.go\<close>) and the stable message identifiers of
  \<^verbatim>\<open>internal/session/hub.go\<close>. A decoded JSON object has the type \<open>'j\<close>; decoding one is a parameter.
\<close>

record Position =
  StreamEpoch :: string
  PosOffset :: "u64 option"

definition PositionFrom :: "string \<Rightarrow> u64 \<Rightarrow> bool \<Rightarrow> Position" where
  "PositionFrom epoch off isSet = \<lparr>StreamEpoch = epoch, PosOffset = (if isSet then Some off else None)\<rparr>"

datatype 'j payload_data = Payload_Text string | Payload_Json 'j | Payload_Binary bytes

record 'j WirePayload =
  pl_ContentType :: string
  pl_Data :: "'j payload_data"

definition PayloadProtoV2 :: "(bytes \<Rightarrow> 'j option) \<Rightarrow> Publication \<Rightarrow> 'j WirePayload option" where
  "PayloadProtoV2 decodeStruct p =
     (if length (Payload p) = 0 then None
      else case PubKind p of
             PayloadKindText \<Rightarrow> Some \<lparr>pl_ContentType = ContentType p, pl_Data = Payload_Text (Payload p)\<rparr>
           | PayloadKindJSON \<Rightarrow>
               (case decodeStruct (Payload p) of
                  Some st \<Rightarrow> Some \<lparr>pl_ContentType = ContentType p, pl_Data = Payload_Json st\<rparr>
                | None \<Rightarrow> Some \<lparr>pl_ContentType = ContentType p, pl_Data = Payload_Text (Payload p)\<rparr>)
           | PayloadKindBinary \<Rightarrow> Some \<lparr>pl_ContentType = ContentType p, pl_Data = Payload_Binary (Payload p)\<rparr>)"

record 'j Message =
  msg_Id :: string
  msg_Channel :: string
  msg_Position :: Position
  msg_Payload :: "'j WirePayload option"
  msg_Metadata :: "(string, string) gomap"
  msg_Replay :: bool

section \<open>Message identifiers\<close>

definition publicationID :: "string \<Rightarrow> u64 \<Rightarrow> string" where
  "publicationID ch off = ch @ ''-'' @ FormatUint (unat off)"

text \<open>\<open>fresh_id\<close> is the identifier \<^verbatim>\<open>uuid.NewString\<close> returns.\<close>

definition publicationMessageID :: "string \<Rightarrow> string \<Rightarrow> u64 \<Rightarrow> string" where
  "publicationMessageID fresh_id ch off = (if off > 0 then publicationID ch off else fresh_id)"

text \<open>Two publications share their identifier only if they are the same offset of the same channel:
  the digits after the last dash determine the offset.\<close>

lemma publicationID_inject [simp]: "publicationID ch off = publicationID ch' off' \<longleftrightarrow> ch = ch' \<and> off = off'"
proof
  assume eq: "publicationID ch off = publicationID ch' off'"
  have t: "takeWhile isDigit (rev (publicationID c n)) = rev (FormatUint (unat n))" for c n
    using FormatUint_digits [of _ "unat n"] by (auto simp: publicationID_def takeWhile_append)
  have "rev (FormatUint (unat off)) = rev (FormatUint (unat off'))"
    using t [of ch off] t [of ch' off'] eq by simp
  then have "off = off'" by (simp add: word_unat_eq_iff)
  then show "ch = ch' \<and> off = off'" using eq by (simp add: publicationID_def)
qed simp

end
