(* ===== verification/ClusterDirectory.thy ===== *)
theory ClusterDirectory
  imports Base
begin

text \<open>
  The session directory of a cluster: leases, snapshots and the user index of \<^verbatim>\<open>internal/cluster/state.go\<close>, the
  in-memory directory of \<^verbatim>\<open>internal/cluster/sim/directory.go\<close> and the contract its clients rely on. Every
  operation of the directory holds its lock and is one step. Times are integers.
\<close>

section \<open>Records\<close>

record ClusterNodeLease =
  nl_NodeID :: string
  nl_IncarnationID :: string
  nl_StartedAt :: int
  nl_ExpiresAt :: int

record ClusterSessionLease =
  l_SessionID :: string
  l_NodeID :: string
  l_IncarnationID :: string
  l_UserID :: string
  l_Namespace :: string
  l_ClientID :: string
  l_LeaseVersion :: u64
  l_Authenticated :: bool
  l_ConnectedAt :: int
  l_LastActivityAt :: int
  l_ExpiresAt :: int

record ClusterSubscriptionSnapshot =
  ss_Channel :: string
  ss_Ephemeral :: bool

record ClusterSessionSnapshot =
  s_SessionID :: string
  s_UserID :: string
  s_Namespace :: string
  s_ClientID :: string
  s_Authenticated :: bool
  s_Protocol :: string
  s_ConnectedAt :: int
  s_Subscriptions :: "ClusterSubscriptionSnapshot list"
  s_ChannelOffsets :: "(string, u64) gomap"
  s_BrokerEpoch :: string
  s_AuthContext :: "(string, string) gomap"
  s_UpdatedAt :: int

text \<open>The fencing fields of a lease, and the comparison of a compare-and-swap.\<close>

definition leaseEqual :: "ClusterSessionLease option \<Rightarrow> ClusterSessionLease option \<Rightarrow> bool" where
  "leaseEqual current expected =
     (case (current, expected) of
        (Some c, Some e) \<Rightarrow> l_SessionID c = l_SessionID e \<and> l_NodeID c = l_NodeID e \<and>
          l_IncarnationID c = l_IncarnationID e \<and> l_LeaseVersion c = l_LeaseVersion e
      | _ \<Rightarrow> current = None \<and> expected = None)"

section \<open>The in-memory directory\<close>

record directory =
  sessionLeases :: "(string, ClusterSessionLease) gomap"
  snapshots :: "(string, ClusterSessionSnapshot) gomap"
  nodeLeases :: "(string \<times> string, ClusterNodeLease) gomap"
  dir_users :: "(string, (string, unit) gomap) gomap"
  deletedSessionLeases :: "string list"

definition NewDirectory :: directory where
  "NewDirectory = \<lparr>sessionLeases = [], snapshots = [], nodeLeases = [], dir_users = [], deletedSessionLeases = []\<rparr>"

definition PutNodeLease :: "directory \<Rightarrow> ClusterNodeLease \<Rightarrow> directory" where
  "PutNodeLease d lease = d\<lparr>nodeLeases := mput (nl_NodeID lease, nl_IncarnationID lease) lease (nodeLeases d)\<rparr>"

definition GetNodeLease :: "directory \<Rightarrow> string \<Rightarrow> string \<Rightarrow> ClusterNodeLease option" where
  "GetNodeLease d nodeID incarnationID = mget (nodeLeases d) (nodeID, incarnationID)"

definition DeleteNodeLease :: "directory \<Rightarrow> string \<Rightarrow> string \<Rightarrow> directory" where
  "DeleteNodeLease d nodeID incarnationID = d\<lparr>nodeLeases := mdel (nodeID, incarnationID) (nodeLeases d)\<rparr>"

definition ListNodeLeases :: "directory \<Rightarrow> ClusterNodeLease list" where
  "ListNodeLeases d = map snd (nodeLeases d)"

definition CompareAndSwapSessionLease ::
    "directory \<Rightarrow> ClusterSessionLease option \<Rightarrow> ClusterSessionLease \<Rightarrow> directory \<times> bool" where
  "CompareAndSwapSessionLease d expected desired =
     (let current = mget (sessionLeases d) (l_SessionID desired)
      in if \<not> leaseEqual current expected then (d, False)
         else (d\<lparr>sessionLeases := mput (l_SessionID desired) desired (sessionLeases d)\<rparr>, True))"

definition CompareAndSwapSessionState ::
    "directory \<Rightarrow> ClusterSessionLease option \<Rightarrow> ClusterSessionLease \<Rightarrow> ClusterSessionSnapshot option \<Rightarrow> directory \<times> bool" where
  "CompareAndSwapSessionState d expected desired snapshot =
     (let current = mget (sessionLeases d) (l_SessionID desired)
      in if \<not> leaseEqual current expected then (d, False)
         else let d = d\<lparr>sessionLeases := mput (l_SessionID desired) desired (sessionLeases d)\<rparr>
              in (case snapshot of None \<Rightarrow> d | Some sn \<Rightarrow> d\<lparr>snapshots := mput (s_SessionID sn) sn (snapshots d)\<rparr>, True))"

definition GetSessionLease :: "directory \<Rightarrow> string \<Rightarrow> ClusterSessionLease option" where
  "GetSessionLease d sessionID = mget (sessionLeases d) sessionID"

definition userIndexKey :: "string \<Rightarrow> string \<Rightarrow> string" where
  "userIndexKey namespace userID = namespace @ [CHR 0x00] @ userID"

definition removeUserSessionLocked :: "directory \<Rightarrow> string \<Rightarrow> string \<Rightarrow> string \<Rightarrow> directory" where
  "removeUserSessionLocked d namespace userID sessionID =
     (let key = userIndexKey namespace userID
      in case mget (dir_users d) key of
           None \<Rightarrow> d
         | Some ss \<Rightarrow>
             let ss = mdel sessionID ss
             in d\<lparr>dir_users := if ss = [] then mdel key (dir_users d) else mput key ss (dir_users d)\<rparr>)"

definition DeleteSessionLease :: "directory \<Rightarrow> string \<Rightarrow> directory" where
  "DeleteSessionLease d sessionID =
     (let d = (case mget (sessionLeases d) sessionID of
                 None \<Rightarrow> d
               | Some lease \<Rightarrow> if l_UserID lease \<noteq> [] then removeUserSessionLocked d (l_Namespace lease) (l_UserID lease) sessionID else d)
      in d\<lparr>sessionLeases := mdel sessionID (sessionLeases d), deletedSessionLeases := deletedSessionLeases d @ [sessionID]\<rparr>)"

definition DeleteSessionLeaseIfOwner :: "directory \<Rightarrow> string \<Rightarrow> string \<Rightarrow> string \<Rightarrow> directory \<times> bool" where
  "DeleteSessionLeaseIfOwner d sessionID nodeID incarnationID =
     (case mget (sessionLeases d) sessionID of
        None \<Rightarrow> (d, False)
      | Some lease \<Rightarrow>
          if l_NodeID lease \<noteq> nodeID \<or> l_IncarnationID lease \<noteq> incarnationID then (d, False)
          else let d = (if l_UserID lease \<noteq> [] then removeUserSessionLocked d (l_Namespace lease) (l_UserID lease) sessionID else d)
               in (d\<lparr>sessionLeases := mdel sessionID (sessionLeases d), deletedSessionLeases := deletedSessionLeases d @ [sessionID]\<rparr>, True))"

definition ListSessionLeases :: "directory \<Rightarrow> ClusterSessionLease list" where
  "ListSessionLeases d = map snd (sessionLeases d)"

definition PutSessionSnapshot :: "directory \<Rightarrow> ClusterSessionSnapshot \<Rightarrow> directory" where
  "PutSessionSnapshot d snapshot = d\<lparr>snapshots := mput (s_SessionID snapshot) snapshot (snapshots d)\<rparr>"

definition GetSessionSnapshot :: "directory \<Rightarrow> string \<Rightarrow> ClusterSessionSnapshot option" where
  "GetSessionSnapshot d sessionID = mget (snapshots d) sessionID"

definition DeleteSessionSnapshot :: "directory \<Rightarrow> string \<Rightarrow> directory" where
  "DeleteSessionSnapshot d sessionID = d\<lparr>snapshots := mdel sessionID (snapshots d)\<rparr>"

definition AddUserSession :: "directory \<Rightarrow> string \<Rightarrow> string \<Rightarrow> string \<Rightarrow> directory" where
  "AddUserSession d namespace userID sessionID =
     (if userID = [] \<or> sessionID = [] then d
      else let key = userIndexKey namespace userID
           in d\<lparr>dir_users := mput key (mput sessionID () (mzero [] (dir_users d) key)) (dir_users d)\<rparr>)"

definition RemoveUserSession :: "directory \<Rightarrow> string \<Rightarrow> string \<Rightarrow> string \<Rightarrow> directory" where
  "RemoveUserSession d namespace userID sessionID = removeUserSessionLocked d namespace userID sessionID"

definition ListUserSessions :: "directory \<Rightarrow> string \<Rightarrow> string \<Rightarrow> string list" where
  "ListUserSessions d namespace userID = map fst (mzero [] (dir_users d) (userIndexKey namespace userID))"

section \<open>The contract\<close>

text \<open>The directory as the nodes use it. An operation may fail, with an error that leaves it open whether a write
  took effect; the compare-and-swap of a lease with its snapshot and the deletion by owner are optional.\<close>

record 'd directoryOps =
  d_GetSessionLease :: "'d \<Rightarrow> string \<Rightarrow> string + ClusterSessionLease option"
  d_GetSessionSnapshot :: "'d \<Rightarrow> string \<Rightarrow> string + ClusterSessionSnapshot option"
  d_GetNodeLease :: "'d \<Rightarrow> string \<Rightarrow> string \<Rightarrow> string + ClusterNodeLease option"
  d_CASLease :: "'d \<Rightarrow> ClusterSessionLease option \<Rightarrow> ClusterSessionLease \<Rightarrow> 'd \<times> (string + bool)"
  d_CASState :: "('d \<Rightarrow> ClusterSessionLease option \<Rightarrow> ClusterSessionLease \<Rightarrow> ClusterSessionSnapshot \<Rightarrow> 'd \<times> (string + bool)) option"
  d_PutSnapshot :: "'d \<Rightarrow> ClusterSessionSnapshot \<Rightarrow> 'd \<times> string option"
  d_DeleteLease :: "'d \<Rightarrow> string \<Rightarrow> 'd \<times> string option"
  d_DeleteLeaseIfOwner :: "('d \<Rightarrow> string \<Rightarrow> string \<Rightarrow> string \<Rightarrow> 'd \<times> (string + bool)) option"
  d_DeleteSnapshot :: "'d \<Rightarrow> string \<Rightarrow> 'd \<times> string option"

text \<open>Two leases are held by the same node incarnation.\<close>

definition owned_by :: "string \<Rightarrow> string \<Rightarrow> ClusterSessionLease \<Rightarrow> bool" where
  "owned_by node inc l \<longleftrightarrow> l_NodeID l = node \<and> l_IncarnationID l = inc"

locale session_directory =
  fixes ops :: "'d directoryOps"
    and lease_of :: "'d \<Rightarrow> string \<Rightarrow> ClusterSessionLease option"
    and snap_of :: "'d \<Rightarrow> string \<Rightarrow> ClusterSessionSnapshot option"
  assumes get_lease: "d_GetSessionLease ops d sid = Inr lo \<Longrightarrow> lo = lease_of d sid"
    and get_snap: "d_GetSessionSnapshot ops d sid = Inr so \<Longrightarrow> so = snap_of d sid"
    and cas: "d_CASLease ops d e l = (d', r) \<Longrightarrow>
      snap_of d' = snap_of d \<and>
      (lease_of d' = lease_of d \<and> r \<noteq> Inr True \<or>
       leaseEqual (lease_of d (l_SessionID l)) e \<and> lease_of d' = (lease_of d)(l_SessionID l := Some l) \<and> r \<noteq> Inr False) \<and>
      (r = Inr False \<longrightarrow> \<not> leaseEqual (lease_of d (l_SessionID l)) e)"
    and cas_state: "d_CASState ops = Some f \<Longrightarrow> f d e l s = (d', r) \<Longrightarrow>
      (lease_of d' = lease_of d \<and> snap_of d' = snap_of d \<and> r \<noteq> Inr True \<or>
       leaseEqual (lease_of d (l_SessionID l)) e \<and> lease_of d' = (lease_of d)(l_SessionID l := Some l) \<and>
         snap_of d' = (snap_of d)(s_SessionID s := Some s) \<and> r \<noteq> Inr False) \<and>
      (r = Inr False \<longrightarrow> \<not> leaseEqual (lease_of d (l_SessionID l)) e)"
    and put_snap: "d_PutSnapshot ops d s = (d', x) \<Longrightarrow> lease_of d' = lease_of d \<and>
      (snap_of d' = (snap_of d)(s_SessionID s := Some s) \<or> snap_of d' = snap_of d \<and> x \<noteq> None)"
    and del_lease: "d_DeleteLease ops d sid = (d', x) \<Longrightarrow> snap_of d' = snap_of d \<and>
      (lease_of d' = (lease_of d)(sid := None) \<or> lease_of d' = lease_of d \<and> x \<noteq> None)"
    and del_owner: "d_DeleteLeaseIfOwner ops = Some g \<Longrightarrow> g d sid node inc = (d', r) \<Longrightarrow> snap_of d' = snap_of d \<and>
      (lease_of d' = lease_of d \<and> r \<noteq> Inr True \<or>
       (\<exists>l. lease_of d sid = Some l \<and> owned_by node inc l) \<and> lease_of d' = (lease_of d)(sid := None) \<and> r \<noteq> Inr False) \<and>
      (r = Inr False \<longrightarrow> \<not> (\<exists>l. lease_of d sid = Some l \<and> owned_by node inc l))"
    and del_snap: "d_DeleteSnapshot ops d sid = (d', x) \<Longrightarrow> lease_of d' = lease_of d \<and>
      (snap_of d' = (snap_of d)(sid := None) \<or> snap_of d' = snap_of d \<and> x \<noteq> None)"

text \<open>The in-memory directory never fails.\<close>

definition simOps :: "directory directoryOps" where
  "simOps = \<lparr>d_GetSessionLease = (\<lambda>d sid. Inr (GetSessionLease d sid)),
     d_GetSessionSnapshot = (\<lambda>d sid. Inr (GetSessionSnapshot d sid)),
     d_GetNodeLease = (\<lambda>d nodeID inc. Inr (GetNodeLease d nodeID inc)),
     d_CASLease = (\<lambda>d e l. let (d, ok) = CompareAndSwapSessionLease d e l in (d, Inr ok)),
     d_CASState = Some (\<lambda>d e l s. let (d, ok) = CompareAndSwapSessionState d e l (Some s) in (d, Inr ok)),
     d_PutSnapshot = (\<lambda>d s. (PutSessionSnapshot d s, None)),
     d_DeleteLease = (\<lambda>d sid. (DeleteSessionLease d sid, None)),
     d_DeleteLeaseIfOwner = Some (\<lambda>d sid nodeID inc. let (d, ok) = DeleteSessionLeaseIfOwner d sid nodeID inc in (d, Inr ok)),
     d_DeleteSnapshot = (\<lambda>d sid. (DeleteSessionSnapshot d sid, None))\<rparr>"

lemma removeUserSession_frame [simp]:
  "sessionLeases (removeUserSessionLocked d ns u sid) = sessionLeases d" "snapshots (removeUserSessionLocked d ns u sid) = snapshots d"
  by (simp_all add: removeUserSessionLocked_def Let_def split: option.split)

lemma mget_upd: "mget (mput k v m) = (mget m)(k := Some v)" "mget (mdel k m) = (mget m)(k := None)"
  by (auto simp: fun_eq_iff)

interpretation sim: session_directory simOps "\<lambda>d. mget (sessionLeases d)" "\<lambda>d. mget (snapshots d)"
  by unfold_locales
    (auto simp: simOps_def GetSessionLease_def GetSessionSnapshot_def CompareAndSwapSessionLease_def CompareAndSwapSessionState_def
      PutSessionSnapshot_def DeleteSessionLease_def DeleteSessionLeaseIfOwner_def DeleteSessionSnapshot_def Let_def mget_upd owned_by_def
      split: if_splits option.splits)

end
