(* ===== verification/Recover.thy ===== *)
theory Recover
  imports Wire Policy Topics ClusterDirectory
begin

text \<open>
  Channel recovery, \<^verbatim>\<open>internal/runtime/recover.go\<close>: the cursor and the gates of one recovery, the
  replay of a history page through the session, and the per-channel \<^verbatim>\<open>RecoverComplete\<close>.

  \<open>recoverNode\<close> holds what the code reads from the node: the epoch and the history of the broker,
  the channel policy, the delivered offset the hub recorded for the session, and the decoding of
  JSON payloads. \<open>Send\<close> is the session's \<^verbatim>\<open>Send\<close>, threaded through its state; metrics and log lines
  are left out. Both callers pass a session that is not nil.
\<close>

section \<open>Requests and outcomes\<close>

record Subscription =
  sub_Channel :: string
  sub_Recover :: bool
  sub_Fresh :: bool
  sub_Cursor :: "Position option"

datatype RecoverStatus = RecoverSkipped | RecoverOK | RecoverTruncated | RecoverFailed | RecoverEpochReset

fun RecoverStatus_String :: "RecoverStatus \<Rightarrow> string" where
  "RecoverStatus_String RecoverSkipped = ''skipped''"
| "RecoverStatus_String RecoverOK = ''ok''"
| "RecoverStatus_String RecoverTruncated = ''truncated''"
| "RecoverStatus_String RecoverFailed = ''failed''"
| "RecoverStatus_String RecoverEpochReset = ''epoch_reset''"

datatype GapReasonV2 = GAP_REASON_NONE | GAP_REASON_HEAD_TRIMMED | GAP_REASON_EMPTY_EXPIRED
  | GAP_REASON_MIDDLE | GAP_REASON_EPOCH_RESET

datatype RecoverState = RECOVER_STATE_NONE | RECOVER_STATE_SKIPPED | RECOVER_STATE_PENDING

record ChannelRecovery =
  rec_Channel :: string
  rec_Status :: RecoverStatus
  rec_Offset :: u64
  rec_OffsetSet :: bool
  rec_Epoch :: string
  rec_Err :: "string option"
  rec_gap :: bool
  rec_gapReason :: GapReasonV2
  rec_pubCount :: nat

record RecoverComplete =
  rc_Channel :: string
  rc_Position :: Position
  rc_Truncated :: bool
  rc_Gap :: bool
  rc_GapReason :: GapReasonV2
  rc_Error :: "(string \<times> string) option"

datatype 'j Envelope = Env_Publication "'j Message list" | Env_RecoverComplete RecoverComplete

record 'j OutboundMessage =
  out_Id :: string
  out_Envelope :: "'j Envelope"

record 'j recoverNode =
  node_Epoch :: string
  node_History :: "string \<Rightarrow> u64 \<Rightarrow> int \<Rightarrow> string + HistoryPage"
  node_Policy :: "string \<Rightarrow> ChannelPolicy"
  node_Delivered :: "string \<Rightarrow> u64"
  node_Struct :: "bytes \<Rightarrow> 'j option"

type_synonym ('s, 'j) sender = "'s \<Rightarrow> 'j OutboundMessage \<Rightarrow> 's \<times> bool"

definition MaxRecoveredPublications :: int where
  "MaxRecoveredPublications = 1000"

definition offsetFrom :: "Position option \<Rightarrow> u64 option" where
  "offsetFrom p = Option.bind p PosOffset"

fun gapReasonV2 :: "HistoryGapReason \<Rightarrow> GapReasonV2" where
  "gapReasonV2 HistoryGapHeadTrimmed = GAP_REASON_HEAD_TRIMMED"
| "gapReasonV2 HistoryGapEmptyExpired = GAP_REASON_EMPTY_EXPIRED"
| "gapReasonV2 HistoryGapMiddle = GAP_REASON_MIDDLE"
| "gapReasonV2 _ = GAP_REASON_NONE"

text \<open>The publication envelope of a replayed or live publication.\<close>

definition publicationToClient :: "'j recoverNode \<Rightarrow> string \<Rightarrow> Publication \<Rightarrow> bool \<Rightarrow> 'j Message list" where
  "publicationToClient n ch pub replay =
     [\<lparr>msg_Id = publicationID ch (Offset pub), msg_Channel = ch,
       msg_Position = PositionFrom (Epoch pub) (Offset pub) True,
       msg_Payload = PayloadProtoV2 (node_Struct n) pub, msg_Metadata = Metadata pub, msg_Replay = replay\<rparr>]"

section \<open>The resume entry\<close>

fun snapshotLoop :: "string list \<Rightarrow> string list \<Rightarrow> ClusterSubscriptionSnapshot list \<Rightarrow> Subscription list" where
  "snapshotLoop requested failed [] = []"
| "snapshotLoop requested failed (snap # snaps) =
     (if ss_Channel snap \<in> set requested then snapshotLoop requested failed snaps
      else if ss_Channel snap \<in> set failed then snapshotLoop requested failed snaps
      else \<lparr>sub_Channel = ss_Channel snap, sub_Recover = True, sub_Fresh = False, sub_Cursor = None\<rparr> #
           snapshotLoop (ss_Channel snap # requested) failed snaps)"

definition SnapshotRecoverySubs ::
    "ClusterSessionSnapshot option \<Rightarrow> string list \<Rightarrow> string list \<Rightarrow> Subscription list" where
  "SnapshotRecoverySubs snapshot requestChannels failedChannels =
     (case snapshot of
        None \<Rightarrow> []
      | Some snapshot \<Rightarrow> snapshotLoop requestChannels failedChannels (s_Subscriptions snapshot))"

section \<open>Cursor and gates\<close>

text \<open>The cursor, whether it is set, whether the epoch was reset, the first offset to read, and the
  reason to skip (empty when there is none).\<close>

definition recoveryCursor ::
    "'j recoverNode \<Rightarrow> Subscription \<Rightarrow> ClusterSessionSnapshot option \<Rightarrow> u64 \<times> bool \<times> bool \<times> u64 \<times> string" where
  "recoveryCursor n sub snapshot =
     (if sub_Fresh sub then (0, False, False, 0, [])
      else case snapshot of
             Some snap \<Rightarrow>
               if s_BrokerEpoch snap \<noteq> [] \<and> node_Epoch n \<noteq> [] \<and> s_BrokerEpoch snap \<noteq> node_Epoch n
               then (0, False, True, 0, [])
               else (case mget (s_ChannelOffsets snap) (sub_Channel sub) of
                       None \<Rightarrow> (0, False, False, 0, ''resume snapshot has no server-recorded offset'')
                     | Some serverOffset \<Rightarrow> (serverOffset, True, False, serverOffset + 1, []))
           | None \<Rightarrow>
               (case offsetFrom (sub_Cursor sub) of
                  Some off \<Rightarrow> (off, True, False, off + 1, [])
                | None \<Rightarrow>
                    let delivered = node_Delivered n (sub_Channel sub)
                    in if delivered > 0 then (delivered, True, False, delivered + 1, [])
                       else (0, False, False, 0, ''no cursor and no server-recorded delivered offset'')))"

definition recoverySkip ::
    "'j recoverNode \<Rightarrow> Subscription \<Rightarrow> ClusterSessionSnapshot option \<Rightarrow> string" where
  "recoverySkip n sub snapshot =
     (if \<not> sub_Recover sub then ''recover not requested''
      else if IsWildcard (sub_Channel sub) then ''wildcard channels have no history''
      else let pol = node_Policy n (sub_Channel sub)
           in if \<not> ChannelPolicy.Recover pol \<or> \<not> History pol \<or> TransientOnly pol
              then ''channel policy denies recovery''
              else case snapshot of
                     Some snap \<Rightarrow>
                       if mget (s_ChannelOffsets snap) (sub_Channel sub) = None \<and> \<not> sub_Fresh sub
                       then ''resume snapshot has no server-recorded offset''
                       else []
                   | None \<Rightarrow>
                       if sub_Fresh sub then []
                       else if offsetFrom (sub_Cursor sub) \<noteq> None then []
                       else if node_Delivered n (sub_Channel sub) > 0 then []
                       else ''no cursor and no server-recorded delivered offset'')"

definition recoverState ::
    "'j recoverNode \<Rightarrow> Subscription option list \<Rightarrow> ClusterSessionSnapshot option \<Rightarrow> RecoverState" where
  "recoverState n reqs snapshot =
     (let requests = filter (\<lambda>s. case s of None \<Rightarrow> False | Some sub \<Rightarrow> sub_Recover sub) reqs
      in if requests = [] then RECOVER_STATE_NONE
         else if list_ex (\<lambda>s. case s of None \<Rightarrow> False | Some sub \<Rightarrow> recoverySkip n sub snapshot = []) requests
         then RECOVER_STATE_PENDING
         else RECOVER_STATE_SKIPPED)"

section \<open>Replay\<close>

definition completeFrame :: "ChannelRecovery \<Rightarrow> RecoverComplete" where
  "completeFrame res =
     \<lparr>rc_Channel = rec_Channel res,
      rc_Position = PositionFrom (rec_Epoch res) (rec_Offset res) (rec_OffsetSet res),
      rc_Truncated = (rec_Status res = RecoverTruncated), rc_Gap = rec_gap res,
      rc_GapReason = rec_gapReason res,
      rc_Error =
        (case rec_Status res of
           RecoverFailed \<Rightarrow> Some (''RECOVER_FAILED'', (case rec_Err res of None \<Rightarrow> [] | Some e \<Rightarrow> e))
         | RecoverSkipped \<Rightarrow> map_option (Pair ''RECOVER_SKIPPED'') (rec_Err res)
         | _ \<Rightarrow> None)\<rparr>"

definition finishRecovery ::
    "('s, 'j) sender \<Rightarrow> 's \<Rightarrow> string \<Rightarrow> ChannelRecovery \<Rightarrow> 's \<times> ChannelRecovery" where
  "finishRecovery Send c inId res =
     (fst (Send c \<lparr>out_Id = inId, out_Envelope = Env_RecoverComplete (completeFrame res)\<rparr>), res)"

fun replayLoop ::
    "('s, 'j) sender \<Rightarrow> 'j recoverNode \<Rightarrow> string \<Rightarrow> string \<Rightarrow> Publication list \<Rightarrow>
     's \<times> int \<times> u64 \<times> bool \<times> nat \<Rightarrow> 's \<times> int \<times> u64 \<times> bool \<times> nat" where
  "replayLoop Send n inId ch [] acc = acc"
| "replayLoop Send n inId ch (pub # pubs) (c, remaining, lastOffset, lastSet, sentCount) =
     (case Send c \<lparr>out_Id = inId, out_Envelope = Env_Publication (publicationToClient n ch pub True)\<rparr> of
        (c, False) \<Rightarrow> (c, remaining, lastOffset, lastSet, sentCount)
      | (c, True) \<Rightarrow> replayLoop Send n inId ch pubs (c, remaining - 1, Offset pub, True, sentCount + 1))"

definition recoverLimit :: "'j recoverNode \<Rightarrow> string \<Rightarrow> int \<Rightarrow> int" where
  "recoverLimit n ch remaining =
     (let pol = node_Policy n ch;
          limit = MaxRecoveredPublications;
          limit = (if RecoverLimit pol > 0 \<and> RecoverLimit pol < limit then RecoverLimit pol else limit);
          limit = (if remaining < limit then remaining else limit)
      in if limit < 0 then 0 else limit)"

definition recoverSubscription ::
    "('s, 'j) sender \<Rightarrow> 'j recoverNode \<Rightarrow> 's \<Rightarrow> string \<Rightarrow> Subscription option \<Rightarrow>
     ClusterSessionSnapshot option \<Rightarrow> int \<Rightarrow> 's \<times> int \<times> ChannelRecovery" where
  "recoverSubscription Send n c inId sub snapshot remaining =
     (let res = \<lparr>rec_Channel = [], rec_Status = RecoverSkipped, rec_Offset = 0, rec_OffsetSet = False,
                 rec_Epoch = node_Epoch n, rec_Err = None, rec_gap = False, rec_gapReason = GAP_REASON_NONE,
                 rec_pubCount = 0\<rparr>;
          finish = (\<lambda>c remaining res. case finishRecovery Send c inId res of (c, res) \<Rightarrow> (c, remaining, res))
      in case sub of
           None \<Rightarrow> finish c remaining res
         | Some sub \<Rightarrow>
             if sub_Channel sub = []
             then finish c remaining
               (res\<lparr>rec_Err := if sub_Recover sub then Some ''recovery skipped: empty channel'' else None\<rparr>)
             else
               (case recoveryCursor n sub snapshot of
                  (cursor, cursorSet, epochReset, sinceOffset, cursorSkip) \<Rightarrow>
                    let skip = recoverySkip n sub snapshot;
                        skip = (if skip = [] \<and> cursorSkip \<noteq> [] then cursorSkip else skip);
                        res = res\<lparr>rec_Channel := sub_Channel sub, rec_Offset := cursor, rec_OffsetSet := cursorSet\<rparr>;
                        limit = recoverLimit n (sub_Channel sub) remaining
                    in if skip \<noteq> []
                       then finish c remaining (res\<lparr>rec_Status := RecoverSkipped,
                         rec_Err := if sub_Recover sub then Some (''recovery skipped: '' @ skip) else None\<rparr>)
                       else if limit = 0 then finish c remaining (res\<lparr>rec_Status := RecoverTruncated\<rparr>)
                       else (case node_History n (sub_Channel sub) sinceOffset limit of
                               Inl err \<Rightarrow> finish c remaining (res\<lparr>rec_Status := RecoverFailed, rec_Err := Some err\<rparr>)
                             | Inr page \<Rightarrow>
                                 (case replayLoop Send n inId (sub_Channel sub) (Publications page)
                                     (c, remaining, cursor, cursorSet, 0) of
                                    (c, remaining, lastOffset, lastSet, sentCount) \<Rightarrow>
                                      finish c remaining
                                        (res\<lparr>rec_pubCount := sentCount,
                                             rec_gap := epochReset \<or> Gap page,
                                             rec_gapReason := if epochReset then GAP_REASON_EPOCH_RESET
                                               else gapReasonV2 (GapReason page),
                                             rec_Offset := lastOffset, rec_OffsetSet := lastSet,
                                             rec_Status :=
                                               if epochReset then RecoverEpochReset
                                               else if int (length (Publications page)) = limit then RecoverTruncated
                                               else if Gap page \<and> Publications page = [] then RecoverTruncated
                                               else RecoverOK\<rparr>)))))"

text \<open>The quota of one request.\<close>

definition newRecoverQuota :: int where
  "newRecoverQuota = MaxRecoveredPublications"

fun recoverAll ::
    "('s, 'j) sender \<Rightarrow> 'j recoverNode \<Rightarrow> 's \<Rightarrow> string \<Rightarrow> Subscription option list \<Rightarrow>
     ClusterSessionSnapshot option \<Rightarrow> int \<Rightarrow> 's" where
  "recoverAll Send n c inId [] snapshot remaining = c"
| "recoverAll Send n c inId (sub # reqs) snapshot remaining =
     (if (case sub of None \<Rightarrow> True | Some s \<Rightarrow> \<not> sub_Recover s)
      then recoverAll Send n c inId reqs snapshot remaining
      else case recoverSubscription Send n c inId sub snapshot remaining of
             (c, remaining, _) \<Rightarrow> recoverAll Send n c inId reqs snapshot remaining)"

definition streamRecoveries ::
    "('s, 'j) sender \<Rightarrow> 'j recoverNode \<Rightarrow> 's \<Rightarrow> string \<Rightarrow> Subscription option list \<Rightarrow>
     ClusterSessionSnapshot option \<Rightarrow> 's" where
  "streamRecoveries Send n c inId reqs snapshot = recoverAll Send n c inId reqs snapshot newRecoverQuota"

section \<open>What a recovery sends\<close>

text \<open>The session with the frames handed to it and whether each was accepted.\<close>

definition traced :: "('s, 'j) sender \<Rightarrow> ('s \<times> ('j OutboundMessage \<times> bool) list, 'j) sender" where
  "traced Send = (\<lambda>(s, tr) m. case Send s m of (s, ok) \<Rightarrow> ((s, tr @ [(m, ok)]), ok))"

abbreviation replayFrame :: "'j recoverNode \<Rightarrow> string \<Rightarrow> string \<Rightarrow> Publication \<Rightarrow> 'j OutboundMessage" where
  "replayFrame n inId ch pub \<equiv> \<lparr>out_Id = inId, out_Envelope = Env_Publication (publicationToClient n ch pub True)\<rparr>"

abbreviation doneFrame :: "string \<Rightarrow> ChannelRecovery \<Rightarrow> 'j OutboundMessage" where
  "doneFrame inId res \<equiv> \<lparr>out_Id = inId, out_Envelope = Env_RecoverComplete (completeFrame res)\<rparr>"

text \<open>The replay of a page of which \<open>k\<close> publications are accepted: the loop stops at the first
  refused frame.\<close>

definition replay_trace ::
    "'j recoverNode \<Rightarrow> string \<Rightarrow> string \<Rightarrow> Publication list \<Rightarrow> nat \<Rightarrow> ('j OutboundMessage \<times> bool) list" where
  "replay_trace n inId ch pubs k =
     map (\<lambda>p. (replayFrame n inId ch p, True)) (take k pubs) @
     (if k < length pubs then [(replayFrame n inId ch (pubs ! k), False)] else [])"

lemma replay_trace_Cons:
  "replay_trace n inId ch (p # pubs) (Suc k) = (replayFrame n inId ch p, True) # replay_trace n inId ch pubs k"
  "replay_trace n inId ch (p # pubs) 0 = [(replayFrame n inId ch p, False)]"
  by (auto simp: replay_trace_def)

lemma replayLoop_trace:
  "\<exists>k s'. k \<le> length pubs \<and>
     replayLoop (traced Send) n inId ch pubs ((s, tr), remaining, off, isSet, cnt) =
       ((s', tr @ replay_trace n inId ch pubs k), remaining - int k,
        if k = 0 then off else Offset (pubs ! (k - 1)), isSet \<or> k > 0, cnt + k)"
proof (induction pubs arbitrary: s tr remaining off isSet cnt)
  case Nil
  show ?case by (simp add: replay_trace_def)
next
  case (Cons p pubs)
  obtain s1 ok where S: "Send s (replayFrame n inId ch p) = (s1, ok)" by fastforce
  show ?case
  proof (cases ok)
    case False
    then show ?thesis using S
      by (intro exI [of _ 0] exI [of _ s1]) (simp add: traced_def replay_trace_Cons)
  next
    case True
    obtain k s' where k: "k \<le> length pubs"
      "replayLoop (traced Send) n inId ch pubs ((s1, tr @ [(replayFrame n inId ch p, True)]), remaining - 1, Offset p, True, cnt + 1) =
        ((s', (tr @ [(replayFrame n inId ch p, True)]) @ replay_trace n inId ch pubs k), remaining - 1 - int k,
         if k = 0 then Offset p else Offset (pubs ! (k - 1)), True \<or> k > 0, cnt + 1 + k)"
      using Cons.IH [of s1 "tr @ [(replayFrame n inId ch p, True)]" "remaining - 1" "Offset p" True "cnt + 1"] by blast
    show ?thesis using S True k
      by (intro exI [of _ "Suc k"] exI [of _ s']) (simp add: traced_def replay_trace_Cons)
  qed
qed

lemma finishRecovery_trace:
  "\<exists>s' ok. finishRecovery (traced Send) (s, tr) inId res = ((s', tr @ [(doneFrame inId res, ok)]), res)"
  by (simp add: finishRecovery_def traced_def split: prod.split)

lemma recoverSubscription_page:
  assumes "sub_Channel x \<noteq> []" "recoverySkip n x snapshot = []"
    and "recoveryCursor n x snapshot = (cursor, cset, ereset, since, [])"
    and "recoverLimit n (sub_Channel x) remaining \<noteq> 0"
    and "node_History n (sub_Channel x) since (recoverLimit n (sub_Channel x) remaining) = Inr page"
  shows "\<exists>k s' ok res. k \<le> length (Publications page) \<and>
     recoverSubscription (traced Send) n (s, tr) inId (Some x) snapshot remaining =
       ((s', tr @ replay_trace n inId (sub_Channel x) (Publications page) k @ [(doneFrame inId res, ok)]),
        remaining - int k, res) \<and>
     rec_pubCount res = k \<and> rec_Channel res = sub_Channel x \<and> rec_gap res = (ereset \<or> Gap page) \<and>
     rec_Offset res = (if k = 0 then cursor else Offset (Publications page ! (k - 1))) \<and>
     rec_OffsetSet res = (cset \<or> k > 0) \<and>
     rec_Status res =
       (if ereset then RecoverEpochReset
        else if int (length (Publications page)) = recoverLimit n (sub_Channel x) remaining then RecoverTruncated
        else if Gap page \<and> Publications page = [] then RecoverTruncated else RecoverOK)"
proof -
  obtain k s1 where k: "k \<le> length (Publications page)"
    "replayLoop (traced Send) n inId (sub_Channel x) (Publications page) ((s, tr), remaining, cursor, cset, 0) =
      ((s1, tr @ replay_trace n inId (sub_Channel x) (Publications page) k), remaining - int k,
       if k = 0 then cursor else Offset (Publications page ! (k - 1)), cset \<or> k > 0, 0 + k)"
    using replayLoop_trace [of "Publications page" Send n inId "sub_Channel x" s tr remaining cursor cset 0] by blast
  let ?st = "(s1, tr @ replay_trace n inId (sub_Channel x) (Publications page) k)"
  obtain res where res: "recoverSubscription (traced Send) n (s, tr) inId (Some x) snapshot remaining =
      (case finishRecovery (traced Send) ?st inId res of (c, res) \<Rightarrow> (c, remaining - int k, res))"
    "rec_pubCount res = k" "rec_Channel res = sub_Channel x" "rec_gap res = (ereset \<or> Gap page)"
    "rec_Offset res = (if k = 0 then cursor else Offset (Publications page ! (k - 1)))"
    "rec_OffsetSet res = (cset \<or> k > 0)"
    "rec_Status res =
       (if ereset then RecoverEpochReset
        else if int (length (Publications page)) = recoverLimit n (sub_Channel x) remaining then RecoverTruncated
        else if Gap page \<and> Publications page = [] then RecoverTruncated else RecoverOK)"
    by (rule that, simp add: recoverSubscription_def Let_def assms k(2), simp_all)
  obtain s' ok where "finishRecovery (traced Send) ?st inId res =
      ((s', snd ?st @ [(doneFrame inId res, ok)]), res)"
    using finishRecovery_trace [of Send s1 "snd ?st" inId res] by auto
  then show ?thesis
    using res k(1) by (intro exI [of _ k] exI [of _ s'] exI [of _ ok] exI [of _ res]) simp
qed

text \<open>One channel: an accepted prefix of the history page, possibly one refused frame, and then the
  single completion frame that carries the outcome.\<close>

lemma recoverSubscription_trace:
  "\<exists>pubs k s' ok res. k \<le> length pubs \<and>
     recoverSubscription (traced Send) n (s, tr) inId sub snapshot remaining =
       ((s', tr @ replay_trace n inId (rec_Channel res) pubs k @ [(doneFrame inId res, ok)]),
        remaining - int k, res) \<and>
     rec_pubCount res = k \<and> rec_Channel res = (case sub of None \<Rightarrow> [] | Some x \<Rightarrow> sub_Channel x) \<and>
     (pubs \<noteq> [] \<longrightarrow> (\<exists>x page. sub = Some x \<and> Publications page = pubs \<and> recoverLimit n (sub_Channel x) remaining > 0 \<and>
        recoverySkip n x snapshot = [] \<and>
        node_History n (sub_Channel x) (fst (snd (snd (snd (recoveryCursor n x snapshot)))))
          (recoverLimit n (sub_Channel x) remaining) = Inr page))"
proof -
  have nopubs: ?thesis
    if "recoverSubscription (traced Send) n (s, tr) inId sub snapshot remaining =
      (case finishRecovery (traced Send) (s, tr) inId res of (c, res) \<Rightarrow> (c, remaining, res))"
      "rec_pubCount res = 0" "rec_Channel res = (case sub of None \<Rightarrow> [] | Some x \<Rightarrow> sub_Channel x)" for res
  proof -
    obtain s' ok where "finishRecovery (traced Send) (s, tr) inId res = ((s', tr @ [(doneFrame inId res, ok)]), res)"
      using finishRecovery_trace [of Send s tr inId res] by blast
    then show ?thesis
      using that by (intro exI [of _ "[]"] exI [of _ 0] exI [of _ s'] exI [of _ ok] exI [of _ res])
        (simp add: replay_trace_def)
  qed
  note unfold = recoverSubscription_def Let_def
  show ?thesis
  proof (cases sub)
    case None
    show ?thesis by (rule nopubs, simp add: None unfold, simp_all add: None)
  next
    case (Some x)
    obtain cursor cset ereset since cskip where cur: "recoveryCursor n x snapshot = (cursor, cset, ereset, since, cskip)"
      by (metis prod_cases5)
    consider (empty) "sub_Channel x = []"
      | (skip) "sub_Channel x \<noteq> []" "recoverySkip n x snapshot \<noteq> []"
      | (cskip) "sub_Channel x \<noteq> []" "recoverySkip n x snapshot = []" "cskip \<noteq> []"
      | (quota) "sub_Channel x \<noteq> []" "recoverySkip n x snapshot = []" "cskip = []"
          "recoverLimit n (sub_Channel x) remaining = 0"
      | (err) e where "sub_Channel x \<noteq> []" "recoverySkip n x snapshot = []" "cskip = []"
          "recoverLimit n (sub_Channel x) remaining \<noteq> 0"
          "node_History n (sub_Channel x) since (recoverLimit n (sub_Channel x) remaining) = Inl e"
      | (page) page where "sub_Channel x \<noteq> []" "recoverySkip n x snapshot = []" "cskip = []"
          "recoverLimit n (sub_Channel x) remaining \<noteq> 0"
          "node_History n (sub_Channel x) since (recoverLimit n (sub_Channel x) remaining) = Inr page"
      by (metis sum.exhaust)
    then show ?thesis
    proof cases
      case empty
      show ?thesis by (rule nopubs, simp add: Some unfold empty, simp_all add: Some empty)
    next
      case skip
      show ?thesis by (rule nopubs, simp add: Some unfold skip cur, simp_all add: Some)
    next
      case cskip
      show ?thesis by (rule nopubs, simp add: Some unfold cskip cur, simp_all add: Some)
    next
      case quota
      show ?thesis by (rule nopubs, simp add: Some unfold quota cur, simp_all add: Some)
    next
      case err
      show ?thesis by (rule nopubs, simp add: Some unfold err cur, simp_all add: Some)
    next
      case page
      have cur': "recoveryCursor n x snapshot = (cursor, cset, ereset, since, [])" using cur page(3) by simp
      moreover have "recoverLimit n (sub_Channel x) remaining > 0"
        using page(4) by (auto simp: recoverLimit_def Let_def split: if_splits)
      moreover obtain k s' ok res where "k \<le> length (Publications page)"
        "recoverSubscription (traced Send) n (s, tr) inId (Some x) snapshot remaining =
          ((s', tr @ replay_trace n inId (sub_Channel x) (Publications page) k @ [(doneFrame inId res, ok)]),
           remaining - int k, res)" "rec_pubCount res = k" "rec_Channel res = sub_Channel x"
        using recoverSubscription_page [OF page(1,2) cur' page(4,5), of Send s tr inId] by blast
      ultimately show ?thesis
        using page Some
        by (intro exI [of _ "Publications page"] exI [of _ k] exI [of _ s'] exI [of _ ok] exI [of _ res]) auto
    qed
  qed
qed

section \<open>Whole requests\<close>

text \<open>The channels that asked for recovery, and what each contributes to the stream: replay frames of
  that channel, then one completion frame.\<close>

definition recover_requests :: "Subscription option list \<Rightarrow> Subscription list" where
  "recover_requests reqs = filter sub_Recover (map the (filter (\<lambda>r. r \<noteq> None) reqs))"

definition segment_ok :: "'j recoverNode \<Rightarrow> string \<Rightarrow> Subscription \<Rightarrow> ('j OutboundMessage \<times> bool) list \<Rightarrow> bool" where
  "segment_ok n inId x seg \<longleftrightarrow> (\<exists>reps res ok. seg = reps @ [(doneFrame inId res, ok)] \<and>
     rec_Channel res = sub_Channel x \<and>
     list_all (\<lambda>(f, _). \<exists>pub. f = replayFrame n inId (sub_Channel x) pub) reps)"

fun is_publication :: "'j Envelope \<Rightarrow> bool" where
  "is_publication (Env_Publication ms) = True"
| "is_publication (Env_RecoverComplete rc) = False"

definition accepted_pubs :: "('j OutboundMessage \<times> bool) list \<Rightarrow> nat" where
  "accepted_pubs tr = length (filter (\<lambda>(f, ok). ok \<and> is_publication (out_Envelope f)) tr)"

lemma accepted_pubs_append [simp]: "accepted_pubs (a @ b) = accepted_pubs a + accepted_pubs b"
  by (simp add: accepted_pubs_def)

lemma accepted_pubs_done [simp]: "accepted_pubs [(doneFrame inId res, ok)] = 0"
  by (simp add: accepted_pubs_def)

lemma accepted_pubs_replay [simp]: "k \<le> length pubs \<Longrightarrow> accepted_pubs (replay_trace n inId ch pubs k) = k"
  by (simp add: accepted_pubs_def replay_trace_def filter_map comp_def)

lemma replay_trace_frames:
  "k \<le> length pubs \<Longrightarrow> list_all (\<lambda>(f, _). \<exists>pub. f = replayFrame n inId ch pub) (replay_trace n inId ch pubs k)"
  by (auto simp: replay_trace_def list_all_iff)

lemma recoverAll_segments:
  "\<exists>segs. snd (recoverAll (traced Send) n (s, tr) inId reqs snapshot remaining) = tr @ concat segs \<and>
     list_all2 (segment_ok n inId) (recover_requests reqs) segs"
proof (induction reqs arbitrary: s tr remaining)
  case Nil
  show ?case by (simp add: recover_requests_def)
next
  case (Cons r reqs)
  show ?case
  proof (cases "r = None \<or> \<not> sub_Recover (the r)")
    case True
    then show ?thesis using Cons.IH [of s tr remaining] by (auto simp: recover_requests_def)
  next
    case False
    then obtain x where x: "r = Some x" "sub_Recover x" by auto
    obtain pubs k s' ok res where k: "k \<le> length pubs"
      "recoverSubscription (traced Send) n (s, tr) inId r snapshot remaining =
        ((s', tr @ replay_trace n inId (rec_Channel res) pubs k @ [(doneFrame inId res, ok)]), remaining - int k, res)"
      "rec_Channel res = (case r of None \<Rightarrow> [] | Some y \<Rightarrow> sub_Channel y)"
      using recoverSubscription_trace [of Send n s tr inId r snapshot remaining] by blast
    then have ch: "rec_Channel res = sub_Channel x" using x by simp
    let ?seg = "replay_trace n inId (rec_Channel res) pubs k @ [(doneFrame inId res, ok)]"
    have "segment_ok n inId x ?seg"
      using k(1) ch replay_trace_frames unfolding segment_ok_def by metis
    moreover obtain segs where "snd (recoverAll (traced Send) n (s', tr @ ?seg) inId reqs snapshot (remaining - int k)) =
        (tr @ ?seg) @ concat segs" "list_all2 (segment_ok n inId) (recover_requests reqs) segs"
      using Cons.IH [of s' "tr @ ?seg" "remaining - int k"] by blast
    ultimately show ?thesis
      using x k(2) by (intro exI [of _ "?seg # segs"]) (simp add: recover_requests_def)
  qed
qed

text \<open>
  What recovery relies on in a broker: a page never exceeds a positive limit, starts no earlier
  than asked and is in offset order.
\<close>

locale history_source =
  fixes hist :: "'b \<Rightarrow> string \<Rightarrow> u64 \<Rightarrow> int \<Rightarrow> string + HistoryPage"
    and valid :: "'b \<Rightarrow> bool"
  assumes page_limit: "valid b \<Longrightarrow> hist b ch since limit = Inr page \<Longrightarrow> limit > 0 \<Longrightarrow>
      int (length (Publications page)) \<le> limit"
    and page_from: "valid b \<Longrightarrow> hist b ch since limit = Inr page \<Longrightarrow> p \<in> set (Publications page) \<Longrightarrow>
      since \<le> Offset p"
    and page_sorted: "valid b \<Longrightarrow> hist b ch since limit = Inr page \<Longrightarrow>
      sorted_wrt (<) (map Offset (Publications page))"
begin

lemma quota_one:
  assumes "valid b" "node_History n = hist b" "remaining \<ge> 0"
  shows "\<exists>s' tr' res. recoverSubscription (traced Send) n (s, tr) inId sub snapshot remaining =
      ((s', tr'), remaining - int (accepted_pubs tr' - accepted_pubs tr), res) \<and>
    accepted_pubs tr \<le> accepted_pubs tr' \<and> int (accepted_pubs tr' - accepted_pubs tr) \<le> remaining"
proof -
  obtain pubs k s' ok res where k: "k \<le> length pubs"
    "recoverSubscription (traced Send) n (s, tr) inId sub snapshot remaining =
      ((s', tr @ replay_trace n inId (rec_Channel res) pubs k @ [(doneFrame inId res, ok)]), remaining - int k, res)"
    and pubs: "pubs \<noteq> [] \<longrightarrow> (\<exists>x page. sub = Some x \<and> Publications page = pubs \<and>
        recoverLimit n (sub_Channel x) remaining > 0 \<and> recoverySkip n x snapshot = [] \<and>
        node_History n (sub_Channel x) (fst (snd (snd (snd (recoveryCursor n x snapshot)))))
          (recoverLimit n (sub_Channel x) remaining) = Inr page)"
    using recoverSubscription_trace [of Send n s tr inId sub snapshot remaining] by blast
  have "int k \<le> remaining"
  proof (cases "pubs = []")
    case False
    then obtain x page where "Publications page = pubs" "recoverLimit n (sub_Channel x) remaining > 0"
      "hist b (sub_Channel x) (fst (snd (snd (snd (recoveryCursor n x snapshot)))))
          (recoverLimit n (sub_Channel x) remaining) = Inr page"
      using pubs assms(2) by auto
    then have "int (length pubs) \<le> recoverLimit n (sub_Channel x) remaining"
      using page_limit [OF assms(1)] by blast
    moreover have "recoverLimit n (sub_Channel x) remaining \<le> remaining"
      using assms(3) by (simp add: recoverLimit_def Let_def)
    ultimately show ?thesis using k(1) by linarith
  qed (use k(1) assms(3) in simp)
  then show ?thesis using k by auto
qed

lemma quota_all:
  assumes "valid b" "node_History n = hist b" "remaining \<ge> 0"
  shows "int (accepted_pubs (snd (recoverAll (traced Send) n (s, tr) inId reqs snapshot remaining))) \<le>
    int (accepted_pubs tr) + remaining"
  using assms(3)
proof (induction reqs arbitrary: s tr remaining)
  case (Cons r reqs)
  obtain s' tr' res where r: "recoverSubscription (traced Send) n (s, tr) inId r snapshot remaining =
      ((s', tr'), remaining - int (accepted_pubs tr' - accepted_pubs tr), res)"
    "accepted_pubs tr \<le> accepted_pubs tr'" "int (accepted_pubs tr' - accepted_pubs tr) \<le> remaining"
    using quota_one [OF assms(1,2) Cons.prems, of Send s tr inId r snapshot] by blast
  show ?case
    using Cons.IH [of "remaining - int (accepted_pubs tr' - accepted_pubs tr)" s' tr'] Cons.IH [OF Cons.prems, of s tr] r
    by (auto split: option.split)
qed simp

end

section \<open>Recovery from the memory broker\<close>

text \<open>The memory broker as a history source: it never reports an error.\<close>

definition mem_History :: "memoryBroker \<Rightarrow> string \<Rightarrow> u64 \<Rightarrow> int \<Rightarrow> string + HistoryPage" where
  "mem_History b ch since limit =
     (case broker_History b ch since limit of Inl _ \<Rightarrow> Inl ''panic'' | Inr page \<Rightarrow> Inr page)"

lemma mem_History_page:
  assumes "broker_inv b"
  shows "mem_History b ch since limit = Inr page \<longleftrightarrow> broker_History b ch since limit = Inr page"
  using History_spec [OF assms, of ch since limit] by (auto simp: mem_History_def)

lemma mem_page_pubs:
  assumes "broker_inv b" "mem_History b ch since limit = Inr page"
  shows "Publications page = take (effective_limit limit) (filter (\<lambda>p. since \<le> Offset p) (retained b ch))"
  using History_spec [OF assms(1), of ch since limit] assms by (auto simp: mem_History_page)

interpretation mem: history_source mem_History broker_inv
proof
  fix b ch since limit page
  assume b: "broker_inv b" and page: "mem_History b ch since limit = Inr page"
  note pubs = mem_page_pubs [OF b page]
  show "int (length (Publications page)) \<le> limit" if "limit > 0"
    using that by (simp add: pubs effective_limit_def)
  show "since \<le> Offset p" if "p \<in> set (Publications page)" for p
    using that in_set_takeD by (fastforce simp: pubs)
  have "sorted_wrt (<) (map (unat \<circ> Offset) (filter (\<lambda>p. since \<le> Offset p) (retained b ch)))"
    unfolding retained_offsets [OF b] by (rule sorted_wrt_upt)
  then have "sorted_wrt (<) (map Offset (filter (\<lambda>p. since \<le> Offset p) (retained b ch)))"
    by (simp add: sorted_wrt_map word_less_nat_alt)
  then show "sorted_wrt (<) (map Offset (Publications page))"
    unfolding pubs take_map [symmetric] by (rule sorted_wrt_take)
qed

text \<open>
  (C29) The shape of a recovery stream. Whatever the session accepts or refuses, the frames of one
  request are, for each subscription that asked for recovery and in request order, replay
  publications of its channel followed by exactly one completion frame for it.
\<close>

theorem recovery_stream:
  "\<exists>segs. snd (streamRecoveries (traced Send) n (s, []) inId reqs snapshot) = concat segs \<and>
     list_all2 (segment_ok n inId) (recover_requests reqs) segs"
  using recoverAll_segments [of Send n s "[]" inId reqs snapshot newRecoverQuota]
  by (simp add: streamRecoveries_def)

text \<open>
  (C30) One request never replays more than 1000 publications, however many channels it recovers and
  whatever the channel policies allow.
\<close>

theorem recovery_quota:
  assumes "broker_inv b" "node_History n = mem_History b"
  shows "accepted_pubs (snd (streamRecoveries (traced Send) n (s, []) inId reqs snapshot)) \<le> 1000"
  using mem.quota_all [OF assms, of newRecoverQuota Send s "[]" inId reqs snapshot]
  by (simp add: streamRecoveries_def newRecoverQuota_def MaxRecoveredPublications_def accepted_pubs_def)

definition example_node :: "memoryBroker \<Rightarrow> unit recoverNode" where
  "example_node b = \<lparr>node_Epoch = ''e1'', node_History = mem_History b, node_Policy = (\<lambda>_. DefaultChannelPolicy),
     node_Delivered = (\<lambda>_. 0), node_Struct = (\<lambda>_. None)\<rparr>"

definition open_session :: "(unit, 'j) sender" where
  "open_session s m = (s, True)"

definition example_sub :: "u64 \<Rightarrow> Subscription" where
  "example_sub off = \<lparr>sub_Channel = ''acme:lobby'', sub_Recover = True, sub_Fresh = False,
     sub_Cursor = Some \<lparr>StreamEpoch = ''e1'', PosOffset = Some off\<rparr>\<rparr>"

theorem recovery_quota_witness:
  "accepted_pubs (snd (streamRecoveries (traced open_session) (example_node (NewMemoryBroker 2 ''e1'')) ((), []) ''r1''
     [Some (example_sub 0)] None)) \<le> 1000"
proof -
  have "broker_inv (NewMemoryBroker 2 ''e1'')" by (rule NewMemoryBroker_inv) simp
  then show ?thesis by (rule recovery_quota) (simp add: example_node_def)
qed

text \<open>The offsets of the accepted publications of a trace.\<close>

definition replayed :: "('j OutboundMessage \<times> bool) list \<Rightarrow> nat list" where
  "replayed tr = map (\<lambda>f. case out_Envelope (fst f) of
       Env_Publication ms \<Rightarrow> unat (the (PosOffset (msg_Position (hd ms)))) | _ \<Rightarrow> 0)
     (filter (\<lambda>(f, ok). ok \<and> is_publication (out_Envelope f)) tr)"

lemma replayed_append: "replayed (a @ b) = replayed a @ replayed b"
  by (simp add: replayed_def)

lemma replayed_done: "replayed [(doneFrame inId res, ok)] = []"
  by (simp add: replayed_def)

lemma replayed_replay:
  "k \<le> length pubs \<Longrightarrow> replayed (replay_trace n inId ch pubs k) = map (unat \<circ> Offset) (take k pubs)"
  by (simp add: replayed_def replay_trace_def filter_map comp_def publicationToClient_def PositionFrom_def)

lemma take_upt_nth: "k \<le> length xs \<Longrightarrow> map f xs = take L [i..<j] \<Longrightarrow>
    map f (take k xs) = [i..<i + k] \<and> (k > 0 \<longrightarrow> f (xs ! (k - 1)) = i + k - 1)"
proof
  assume k: "k \<le> length xs" and m: "map f xs = take L [i..<j]"
  then have len: "length xs = min L (j - i)" by (metis length_map length_take length_upt min.commute)
  have "map f (take k xs) = take k (take L [i..<j])" unfolding m [symmetric] by (simp add: take_map)
  also have "\<dots> = take k [i..<j]" using k len by (simp add: min_def split: if_splits)
  also have "\<dots> = [i..<i + k]"
  proof (cases "k = 0")
    case False
    then have "i + k \<le> j" using k len by arith
    then show ?thesis by (rule take_upt)
  qed simp
  finally show "map f (take k xs) = [i..<i + k]" .
  show "k > 0 \<longrightarrow> f (xs ! (k - 1)) = i + k - 1"
  proof
    assume "k > 0"
    then have "f (xs ! (k - 1)) = take L [i..<j] ! (k - 1)" using k m [symmetric] by simp
    then show "f (xs ! (k - 1)) = i + k - 1" using k len \<open>k > 0\<close> by simp
  qed
qed


text \<open>A broker with three publications on one channel.\<close>

definition example_broker :: memoryBroker where
  "example_broker = foldl (\<lambda>b t. fst (projr (the (Publish b ''acme:lobby'' t (example_pub ''hi'')))))
     (NewMemoryBroker 2 ''e1'') [1, 2, 3]"

lemma example_broker_inv: "broker_inv example_broker"
proof -
  have v: "ValidateTopic ''acme:lobby'' = None" by code_simp
  define b0 where "b0 = NewMemoryBroker 2 ''e1''"
  define b1 where "b1 = fst (projr (the (Publish b0 ''acme:lobby'' 1 (example_pub ''hi''))))"
  define b2 where "b2 = fst (projr (the (Publish b1 ''acme:lobby'' 2 (example_pub ''hi''))))"
  have pub_step: "broker_inv b' \<and> assigned b' ''acme:lobby'' = Suc (assigned b ''acme:lobby'')"
    if "broker_inv b" "assigned b ''acme:lobby'' < 2 ^ 64 - 1"
      "b' = fst (projr (the (Publish b ''acme:lobby'' t (example_pub ''hi''))))" for b b' t
  proof -
    have room: "unat (nextOff (ring_or_new b ''acme:lobby'' (example_pub ''hi''))) < 2 ^ 64 - 1"
      using that(2) by (simp add: assigned_ring_or_new)
    then show ?thesis
      using Publish_spec [OF that(1) v room, of t] unat_Suc_word [OF room] that(3)
      by (auto simp: goret_def assigned_def assigned_ring_or_new)
  qed
  have 0: "broker_inv b0" "assigned b0 ''acme:lobby'' = 0"
    unfolding b0_def by (rule NewMemoryBroker_inv, simp, simp add: assigned_def ring_at_def NewMemoryBroker_def)
  have 1: "broker_inv b1" "assigned b1 ''acme:lobby'' = 1" using pub_step [OF 0(1) _ b1_def] 0(2) by simp_all
  have 2: "broker_inv b2" "assigned b2 ''acme:lobby'' = 2" using pub_step [OF 1(1) _ b2_def] 1(2) by simp_all
  have "example_broker = fst (projr (the (Publish b2 ''acme:lobby'' 3 (example_pub ''hi''))))"
    by (simp add: example_broker_def b2_def b1_def b0_def)
  then show ?thesis using pub_step [OF 2(1), of example_broker 3] 2(2) by simp
qed


text \<open>
  A cursor at the largest offset restarts from the beginning. The first offset to read is the
  cursor plus one at 64 bits, which wraps to zero: a client that presents the cursor \<open>2 ^ 64 - 1\<close>
  is replayed the whole retained history without a gap, although only a fresh start and an epoch
  reset are meant to read from the beginning.
\<close>

lemma recovery_cursor_wraps:
  "recoveryCursor (example_node example_broker) (example_sub (- 1)) None = (- 1, True, False, 0, []) \<and>
   (case recoverSubscription (traced open_session) (example_node example_broker) ((), []) ''r1''
       (Some (example_sub (- 1))) None 1000 of
      ((_, tr), _, res) \<Rightarrow> replayed tr = [2, 3] \<and> \<not> rec_gap res \<and> rec_Status res = RecoverOK)"
  by code_simp

end
