(* ===== verification/SessionGate.thy ===== *)
theory SessionGate
  imports Topics Framing
begin

text \<open>
  The entry of client messages, \<^verbatim>\<open>internal/session/namespace.go\<close> and \<^verbatim>\<open>handleMessage\<close> of
  \<^verbatim>\<open>internal/session/client.go\<close>: authentication, the namespace scope of every channel reference, and
  the dispatch to a handler. The session's \<^verbatim>\<open>Send\<close> of an error envelope and the handlers are
  parameters threaded through the state \<open>'s\<close>; the texts of error messages are left out.
\<close>

record WireError =
  err_Code :: string
  err_Type :: string

text \<open>The inbound envelopes with the channel references they carry; \<open>'x\<close> is the rest of a message.\<close>

datatype 'x Inbound =
    In_Connect 'x
  | In_Subscribe "(string \<times> 'x) list"
  | In_Publish string 'x
  | In_Unsubscribe "(string \<times> 'x) list"
  | In_SubRefresh "string list"
  | In_SurveyRequest string 'x
  | In_PresenceQuery string 'x
  | In_RpcRequest string 'x
  | In_SurveyReply 'x
  | In_Ping
  | In_Pong
  | In_Unknown

record gateSession =
  gate_namespace :: string
  gate_authenticated :: bool

type_synonym 's errorSender = "'s \<Rightarrow> WireError \<Rightarrow> 's \<times> string option"

definition checkNamespace :: "gateSession \<Rightarrow> string \<Rightarrow> WireError option" where
  "checkNamespace c channel =
     (let ns = gate_namespace c
      in if ns = [] then None
         else case NamespaceOf channel of
                Inl _ \<Rightarrow> Some \<lparr>err_Code = ''NAMESPACE_MISMATCH'', err_Type = ''acl_error''\<rparr>
              | Inr chNs \<Rightarrow>
                  if chNs \<noteq> ns then Some \<lparr>err_Code = ''NAMESPACE_MISMATCH'', err_Type = ''acl_error''\<rparr>
                  else None)"

definition namespaceRequiredError :: WireError where
  "namespaceRequiredError = \<lparr>err_Code = ''NAMESPACE_REQUIRED'', err_Type = ''auth_error''\<rparr>"

definition precheckChannel :: "gateSession \<Rightarrow> string \<Rightarrow> WireError option" where
  "precheckChannel c channel = (if channel = [] then None else checkNamespace c channel)"

definition precheckExactChannel :: "gateSession \<Rightarrow> string \<Rightarrow> WireError option" where
  "precheckExactChannel c channel =
     (if channel = [] \<or> IsWildcard channel then None else checkNamespace c channel)"

text \<open>The loop over the subscriptions of a \<^verbatim>\<open>Subscribe\<close>: a violating channel is answered and dropped; a
  failing send ends the call.\<close>

fun precheckSubscriptions ::
    "'s errorSender \<Rightarrow> gateSession \<Rightarrow> 's \<Rightarrow> (string \<times> 'x) list \<Rightarrow> 's \<times> (string + bool \<times> (string \<times> 'x) list)" where
  "precheckSubscriptions Send c s [] = (s, Inr (False, []))"
| "precheckSubscriptions Send c s (sub # subs) =
     (case precheckChannel c (fst sub) of
        Some nsErr \<Rightarrow>
          (case Send s nsErr of
             (s, Some err) \<Rightarrow> (s, Inl err)
           | (s, None) \<Rightarrow>
               (case precheckSubscriptions Send c s subs of
                  (s, Inl err) \<Rightarrow> (s, Inl err)
                | (s, Inr (_, kept)) \<Rightarrow> (s, Inr (True, kept))))
      | None \<Rightarrow>
          (case precheckSubscriptions Send c s subs of
             (s, Inl err) \<Rightarrow> (s, Inl err)
           | (s, Inr (filtered, kept)) \<Rightarrow> (s, Inr (filtered, sub # kept))))"

text \<open>The first violation in a list of channels.\<close>

definition firstViolation :: "gateSession \<Rightarrow> string list \<Rightarrow> WireError option" where
  "firstViolation c channels = Option.bind (find (\<lambda>ch. precheckChannel c ch \<noteq> None) channels) (precheckChannel c)"

text \<open>The message to dispatch, or nothing when the request was answered, with the error of sending
  that answer.\<close>

definition precheckNamespace ::
    "'s errorSender \<Rightarrow> gateSession \<Rightarrow> 's \<Rightarrow> 'x Inbound \<Rightarrow> 's \<times> 'x Inbound option \<times> string option" where
  "precheckNamespace Send c s m =
     (let reject = (\<lambda>nsErr. case Send s nsErr of (s, err) \<Rightarrow> (s, None, err));
          scoped = (\<lambda>violation. case violation of Some nsErr \<Rightarrow> reject nsErr | None \<Rightarrow> (s, Some m, None))
      in case m of
           In_Subscribe subs \<Rightarrow>
             (case precheckSubscriptions Send c s subs of
                (s, Inl err) \<Rightarrow> (s, None, Some err)
              | (s, Inr (filtered, kept)) \<Rightarrow>
                  if \<not> filtered then (s, Some m, None) else (s, Some (In_Subscribe kept), None))
         | In_Publish ch x \<Rightarrow> scoped (precheckExactChannel c ch)
         | In_Unsubscribe subs \<Rightarrow> scoped (firstViolation c (map fst subs))
         | In_SubRefresh channels \<Rightarrow> scoped (firstViolation c channels)
         | In_SurveyRequest ch x \<Rightarrow> scoped (precheckExactChannel c ch)
         | In_PresenceQuery ch x \<Rightarrow> scoped (precheckExactChannel c ch)
         | _ \<Rightarrow> (s, Some m, None))"

text \<open>What a handler or the gate returns: nothing, a disconnect, or another error.\<close>

datatype handler_result = Handled | Disconnects Disconnect | Fails string

definition handleMessage ::
    "'s errorSender \<Rightarrow> ('s \<Rightarrow> 'x Inbound \<Rightarrow> 's \<times> handler_result) \<Rightarrow> gateSession \<Rightarrow> 's \<Rightarrow> 'x Inbound \<Rightarrow> 's \<times> handler_result" where
  "handleMessage Send handle c s m =
     (if (case m of In_Connect x \<Rightarrow> False | _ \<Rightarrow> True) \<and> \<not> gate_authenticated c
      then (s, Disconnects DisconnectInvalidToken)
      else case precheckNamespace Send c s m of
             (s, _, Some err) \<Rightarrow> (s, Fails err)
           | (s, None, None) \<Rightarrow> (s, Handled)
           | (s, Some m, None) \<Rightarrow>
               (case m of In_Unknown \<Rightarrow> (s, Disconnects DisconnectBadRequest) | _ \<Rightarrow> handle s m))"

section \<open>Namespace isolation\<close>

definition in_scope :: "gateSession \<Rightarrow> string \<Rightarrow> bool" where
  "in_scope c ch \<longleftrightarrow> ch = [] \<or> NamespaceOf ch = Inr (gate_namespace c)"

text \<open>The channel references of a message that the gate is responsible for are in scope.\<close>

fun scoped_message :: "gateSession \<Rightarrow> 'x Inbound \<Rightarrow> bool" where
  "scoped_message c (In_Subscribe subs) = list_all (in_scope c \<circ> fst) subs"
| "scoped_message c (In_Unsubscribe subs) = list_all (in_scope c \<circ> fst) subs"
| "scoped_message c (In_SubRefresh channels) = list_all (in_scope c) channels"
| "scoped_message c (In_Publish ch x) = (IsWildcard ch \<or> in_scope c ch)"
| "scoped_message c (In_SurveyRequest ch x) = (IsWildcard ch \<or> in_scope c ch)"
| "scoped_message c (In_PresenceQuery ch x) = (IsWildcard ch \<or> in_scope c ch)"
| "scoped_message c _ = True"

lemma checkNamespace_None:
  "gate_namespace c \<noteq> [] \<Longrightarrow> checkNamespace c ch = None \<longleftrightarrow> NamespaceOf ch = Inr (gate_namespace c)"
  by (auto simp: checkNamespace_def Let_def split: sum.split)

lemma precheckChannel_None:
  "gate_namespace c \<noteq> [] \<Longrightarrow> precheckChannel c ch = None \<longleftrightarrow> in_scope c ch"
  by (simp add: precheckChannel_def in_scope_def checkNamespace_None)

lemma precheckExactChannel_None:
  "gate_namespace c \<noteq> [] \<Longrightarrow> precheckExactChannel c ch = None \<longleftrightarrow> IsWildcard ch \<or> in_scope c ch"
  by (auto simp: precheckExactChannel_def in_scope_def checkNamespace_None)

lemma firstViolation_None:
  "gate_namespace c \<noteq> [] \<Longrightarrow> firstViolation c channels = None \<longleftrightarrow> list_all (in_scope c) channels"
  by (induction channels) (auto simp: firstViolation_def precheckChannel_None split: if_splits)

lemma precheckSubscriptions_kept:
  assumes "gate_namespace c \<noteq> []" "precheckSubscriptions Send c s subs = (s', Inr (filtered, kept))"
  shows "kept = filter (in_scope c \<circ> fst) subs \<and> (filtered \<longleftrightarrow> \<not> list_all (in_scope c \<circ> fst) subs)"
  using assms(2)
proof (induction subs arbitrary: s s' filtered kept)
  case (Cons sub subs)
  show ?case
  proof (cases "precheckChannel c (fst sub)")
    case None
    then obtain f k where "precheckSubscriptions Send c s subs = (s', Inr (f, k))" "filtered = f" "kept = sub # k"
      using Cons.prems by (auto split: prod.splits sum.splits)
    then show ?thesis using Cons.IH None precheckChannel_None [OF assms(1), of "fst sub"] by auto
  next
    case (Some e)
    then obtain s1 f k where "precheckSubscriptions Send c s1 subs = (s', Inr (f, k))" "filtered" "kept = k"
      using Cons.prems by (auto split: prod.splits sum.splits option.splits)
    then show ?thesis using Cons.IH Some precheckChannel_None [OF assms(1), of "fst sub"] by auto
  qed
qed simp

lemma precheckNamespace_scoped:
  assumes "gate_namespace c \<noteq> []" "precheckNamespace Send c s m = (s', Some m', err)"
  shows "scoped_message c m'"
proof (cases m)
  case (In_Subscribe subs)
  then obtain filtered kept where p: "precheckSubscriptions Send c s subs = (s', Inr (filtered, kept))"
    "m' = (if filtered then In_Subscribe kept else m)"
    using assms(2) by (auto simp: precheckNamespace_def split: prod.splits sum.splits if_splits)
  show ?thesis
    using p(2) precheckSubscriptions_kept [OF assms(1) p(1)] In_Subscribe by (auto simp: list_all_iff)
next
  case (In_Unsubscribe subs)
  then show ?thesis
    using assms firstViolation_None [OF assms(1), of "map fst subs"]
    by (auto simp: precheckNamespace_def list.pred_map split: option.splits prod.splits)
qed (use assms firstViolation_None [OF assms(1)] precheckExactChannel_None [OF assms(1)] in
    \<open>auto simp: precheckNamespace_def split: option.splits prod.splits\<close>)


definition example_gate :: gateSession where
  "example_gate = \<lparr>gate_namespace = ''acme'', gate_authenticated = True\<rparr>"

definition count_errors :: "nat errorSender" where
  "count_errors s e = (Suc s, None)"

definition example_request :: "unit Inbound" where
  "example_request = In_Subscribe [(''acme:lobby'', ()), (''evil:lobby'', ()), (''**'', ())]"


end
