(* ===== verification/Hub.thy ===== *)
theory Hub
  imports Wire Framing "HOL-Library.List_Lexorder" "HOL-Library.Char_ord"
begin

text \<open>
  The connection registry, \<^verbatim>\<open>internal/session/hub.go\<close>: sessions by identifier, connections by
  namespace and user with the per-user limit, subscriptions by channel, wildcard subscriptions in
  the subscription trie, and the fan-out of publications. Sessions are references (\<open>sptr\<close>); the
  hub only reads the identity of a session, so every operation takes the identities \<open>I\<close> as an
  argument. Locks are not modelled: each operation runs under the locks it takes.
\<close>

section \<open>Types\<close>

type_synonym sptr = nat

record sessIdent =
  SessionID :: string
  NamespaceOfSession :: string
  UserID :: string

record hubSubscriber =
  sub_Session :: sptr
  Ephemeral :: bool
  DeliveredOffset :: u64

definition NewSubscriber :: "sptr \<Rightarrow> bool \<Rightarrow> hubSubscriber" where
  "NewSubscriber session ephemeral = \<lparr>sub_Session = session, Ephemeral = ephemeral, DeliveredOffset = 0\<rparr>"

record connShard =
  clients :: "(string, sptr) gomap"
  users :: "(string, (string, unit) gomap) gomap"

record subShard =
  shard_subs :: "(string, (string, hubSubscriber) gomap) gomap"
  maxTimeLagMilli :: int

definition numHubShards :: nat where
  "numHubShards = 64"

record hub =
  hub_sessions :: "(string, sptr) gomap"
  connShards :: "connShard list"
  subShards :: "subShard list"
  maxConnsPerUser :: int
  hub_matcher :: "hubSubscriber main_node"
  wcSubs :: "(string, hubSubscriber subscription) gomap"

definition newConnShard :: connShard where
  "newConnShard = \<lparr>clients = [], users = []\<rparr>"

definition newSubShard :: "int \<Rightarrow> subShard" where
  "newSubShard lag = \<lparr>shard_subs = [], maxTimeLagMilli = lag\<rparr>"

definition NewHub :: "int \<Rightarrow> int \<Rightarrow> hub" where
  "NewHub lag maxConns =
     \<lparr>hub_sessions = [], connShards = replicate numHubShards newConnShard,
      subShards = replicate numHubShards (newSubShard lag), maxConnsPerUser = maxConns,
      hub_matcher = NewCSTrieMatcher, wcSubs = []\<rparr>"

text \<open>\<^verbatim>\<open>index\<close> of the source.\<close>

definition hub_index :: "string \<Rightarrow> nat \<Rightarrow> nat" where
  "hub_index s numBuckets =
     (if numBuckets = 1 then 0 else unat (fnv64a s mod of_nat numBuckets))"

definition userKey :: "string \<Rightarrow> string \<Rightarrow> string" where
  "userKey namespace userID = namespace @ [CHR 0x00] @ userID"

definition sessionUserKey :: "(sptr \<Rightarrow> sessIdent) \<Rightarrow> sptr \<Rightarrow> string" where
  "sessionUserKey I c = userKey (NamespaceOfSession (I c)) (UserID (I c))"

section \<open>Connections\<close>

definition addWithLimit ::
    "(sptr \<Rightarrow> sessIdent) \<Rightarrow> connShard \<Rightarrow> sptr \<Rightarrow> int \<Rightarrow> connShard \<times> Disconnect option" where
  "addWithLimit I s c maxPerUser =
     (let uid = SessionID (I c); user = sessionUserKey I c
      in if maxPerUser > 0 \<and>
            (case mget (users s) user of Some ss \<Rightarrow> int (length ss) \<ge> maxPerUser | None \<Rightarrow> False)
         then (s, Some DisconnectConnectionLimit)
         else let s = s\<lparr>clients := mput uid c (clients s)\<rparr>;
                  s = (if mget (users s) user = None then s\<lparr>users := mput user [] (users s)\<rparr> else s)
              in (s\<lparr>users := mput user (mput uid () (mzero [] (users s) user)) (users s)\<rparr>, None))"

text \<open>The deletion of a session from a user's set, with the set when it became empty.\<close>

definition dropUser :: "connShard \<Rightarrow> string \<Rightarrow> string \<Rightarrow> connShard" where
  "dropUser s user sessionID =
     (case mget (users s) user of
        None \<Rightarrow> s
      | Some us \<Rightarrow>
          let us = mdel sessionID us
          in if length us = 0 then s\<lparr>users := mdel user (users s)\<rparr>
             else s\<lparr>users := mput user us (users s)\<rparr>)"

definition connShard_remove :: "(sptr \<Rightarrow> sessIdent) \<Rightarrow> connShard \<Rightarrow> string \<Rightarrow> connShard" where
  "connShard_remove I s sessionID =
     (case mget (clients s) sessionID of
        None \<Rightarrow> s
      | Some client \<Rightarrow>
          dropUser (s\<lparr>clients := mdel sessionID (clients s)\<rparr>) (sessionUserKey I client) sessionID)"

definition hub_Add :: "(sptr \<Rightarrow> sessIdent) \<Rightarrow> hub \<Rightarrow> sptr \<Rightarrow> hub \<times> Disconnect option" where
  "hub_Add I h c =
     (let i = hub_index (sessionUserKey I c) numHubShards
      in case addWithLimit I (connShards h ! i) c (maxConnsPerUser h) of
           (_, Some err) \<Rightarrow> (h, Some err)
         | (s, None) \<Rightarrow>
             let h = h\<lparr>connShards := (connShards h)[i := s]\<rparr>
             in (if SessionID (I c) \<noteq> [] then h\<lparr>hub_sessions := mput (SessionID (I c)) c (hub_sessions h)\<rparr> else h,
                 None))"

text \<open>\<open>None\<close> is the nil session, which matches any.\<close>

definition RemoveSessionIfMatches ::
    "(sptr \<Rightarrow> sessIdent) \<Rightarrow> hub \<Rightarrow> string \<Rightarrow> sptr option \<Rightarrow> hub \<times> bool" where
  "RemoveSessionIfMatches I h sessionID c =
     (case mget (hub_sessions h) sessionID of
        None \<Rightarrow> (h, False)
      | Some session \<Rightarrow>
          if c \<noteq> None \<and> c \<noteq> Some session then (h, False)
          else let h = h\<lparr>hub_sessions := mdel sessionID (hub_sessions h)\<rparr>;
                   i = hub_index (sessionUserKey I session) numHubShards
               in (h\<lparr>connShards := (connShards h)[i := connShard_remove I (connShards h ! i) sessionID]\<rparr>, True))"

definition RemoveSession :: "(sptr \<Rightarrow> sessIdent) \<Rightarrow> hub \<Rightarrow> string \<Rightarrow> hub" where
  "RemoveSession I h sessionID = fst (RemoveSessionIfMatches I h sessionID None)"

definition LookupSession :: "hub \<Rightarrow> string \<Rightarrow> sptr option" where
  "LookupSession h sessionID = mget (hub_sessions h) sessionID"

text \<open>The registration of a session under a new key, the end of both branches of
  \<^verbatim>\<open>PrepareSessionUser\<close>.\<close>

definition putUser :: "connShard \<Rightarrow> string \<Rightarrow> string \<Rightarrow> sptr \<Rightarrow> connShard" where
  "putUser s user sessionID c =
     (let s = s\<lparr>clients := mput sessionID c (clients s)\<rparr>;
          s = (if mget (users s) user = None then s\<lparr>users := mput user [] (users s)\<rparr> else s)
      in s\<lparr>users := mput user (mput sessionID () (mzero [] (users s) user)) (users s)\<rparr>)"

definition PrepareSessionUser ::
    "(sptr \<Rightarrow> sessIdent) \<Rightarrow> hub \<Rightarrow> string \<Rightarrow> sptr \<Rightarrow> string \<Rightarrow> string \<Rightarrow> hub \<times> Disconnect option" where
  "PrepareSessionUser I h sessionID c newNamespace newUser =
     (let oldUser = sessionUserKey I c; newUserKey = userKey newNamespace newUser
      in if oldUser = newUserKey then (h, None)
         else let oldIdx = hub_index oldUser numHubShards; newIdx = hub_index newUserKey numHubShards
         in if oldIdx = newIdx then
              let shard = connShards h ! oldIdx
              in if maxConnsPerUser h > 0 \<and>
                    int (length (mzero [] (users shard) newUserKey)) \<ge> maxConnsPerUser h
                 then (h, Some DisconnectConnectionLimit)
                 else (h\<lparr>connShards := (connShards h)
                    [oldIdx := putUser (dropUser shard oldUser sessionID) newUserKey sessionID c]\<rparr>, None)
            else
              let newShard = connShards h ! newIdx
              in if maxConnsPerUser h > 0 \<and>
                    int (length (mzero [] (users newShard) newUserKey)) \<ge> maxConnsPerUser h
                 then (h, Some DisconnectConnectionLimit)
                 else let oldShard = connShards h ! oldIdx;
                          oldShard = oldShard\<lparr>clients := mdel sessionID (clients oldShard)\<rparr>;
                          oldShard = dropUser oldShard oldUser sessionID
                      in (h\<lparr>connShards := (connShards h)
                            [oldIdx := oldShard, newIdx := putUser newShard newUserKey sessionID c]\<rparr>, None))"

definition sortBySessionID :: "(sptr \<Rightarrow> sessIdent) \<Rightarrow> sptr list \<Rightarrow> sptr list" where
  "sortBySessionID I = sort_key (\<lambda>c. SessionID (I c))"

definition SessionsByUser :: "(sptr \<Rightarrow> sessIdent) \<Rightarrow> hub \<Rightarrow> string \<Rightarrow> string \<Rightarrow> sptr list" where
  "SessionsByUser I h namespace userID =
     (if userID = [] then []
      else let key = userKey namespace userID;
               shard = connShards h ! hub_index key numHubShards
           in case mget (users shard) key of
                None \<Rightarrow> []
              | Some sessionIDs \<Rightarrow>
                  sortBySessionID I (List.map_filter (\<lambda>(sessionID, _). mget (clients shard) sessionID) sessionIDs))"

subsection \<open>The registry as maps\<close>

definition conn_users :: "hub \<Rightarrow> string \<Rightarrow> (string, unit) gomap" where
  "conn_users h k = mzero [] (users (connShards h ! hub_index k numHubShards)) k"

definition conn_client :: "hub \<Rightarrow> string \<Rightarrow> string \<Rightarrow> sptr option" where
  "conn_client h k sid = mget (clients (connShards h ! hub_index k numHubShards)) sid"

definition shard_wf :: "connShard \<Rightarrow> bool" where
  "shard_wf s \<longleftrightarrow> mwf (clients s) \<and> mwf (users s) \<and> (\<forall>k us. mget (users s) k = Some us \<longrightarrow> mwf us)"

lemma hub_index_less [simp]: "hub_index s numHubShards < numHubShards"
proof -
  have "fnv64a s mod 64 < (64 :: u64)" by (rule word_mod_less_divisor) simp
  then show ?thesis by (simp add: hub_index_def numHubShards_def word_less_nat_alt)
qed

lemma mzero_mput [simp, gomap]: "mzero d (mput k v m) k' = (if k' = k then v else mzero d m k')"
  by (simp add: mzero_def)

lemma mzero_mdel [simp, gomap]: "mzero d (mdel k m) k' = (if k' = k then d else mzero d m k')"
  by (simp add: mzero_def)

lemma users_putUser: "mzero [] (users (putUser s u sid c)) k =
    (if k = u then mput sid () (mzero [] (users s) u) else mzero [] (users s) k)"
  by (auto simp: putUser_def Let_def mzero_def)

lemma clients_putUser: "clients (putUser s u sid c) = mput sid c (clients s)"
  by (simp add: putUser_def Let_def)

lemma mdel_Nil [simp]: "mdel k [] = []"
  by (simp add: mdel_def)

lemma users_dropUser: "mzero [] (users (dropUser s u sid)) k =
    (if k = u then mdel sid (mzero [] (users s) u) else mzero [] (users s) k)"
  by (auto simp: dropUser_def Let_def mzero_def split: option.splits)

lemma clients_dropUser [simp]: "clients (dropUser s u sid) = clients s"
  by (simp add: dropUser_def Let_def split: option.splits)

lemma addWithLimit_eq: "addWithLimit I s c maxPerUser =
    (if maxPerUser > 0 \<and> int (length (mzero [] (users s) (sessionUserKey I c))) \<ge> maxPerUser
     then (s, Some DisconnectConnectionLimit)
     else (putUser s (sessionUserKey I c) (SessionID (I c)) c, None))"
  by (auto simp: addWithLimit_def putUser_def Let_def mzero_def split: option.splits)

lemma shard_wf_new [simp]: "shard_wf newConnShard"
  by (simp add: shard_wf_def newConnShard_def)

lemma shard_wf_mzero: "shard_wf s \<Longrightarrow> mwf (mzero [] (users s) k)"
  by (auto simp: shard_wf_def mzero_def split: option.splits)

lemma shard_wf_putUser: "shard_wf s \<Longrightarrow> shard_wf (putUser s u sid c)"
  using shard_wf_mzero [of s u]
  by (auto simp: shard_wf_def putUser_def Let_def split: if_splits)

lemma shard_wf_dropUser: "shard_wf s \<Longrightarrow> shard_wf (dropUser s u sid)"
  by (auto simp: shard_wf_def dropUser_def Let_def split: option.splits if_splits)

lemma shard_wf_clients: "shard_wf s \<Longrightarrow> shard_wf (s\<lparr>clients := mdel sid (clients s)\<rparr>)"
  by (simp add: shard_wf_def)

lemma shards_update:
  assumes "length (connShards h) = numHubShards" "j < numHubShards"
  shows "conn_users (h\<lparr>connShards := (connShards h)[j := s]\<rparr>) k =
      (if hub_index k numHubShards = j then mzero [] (users s) k else conn_users h k)"
    "conn_client (h\<lparr>connShards := (connShards h)[j := s]\<rparr>) k sid =
      (if hub_index k numHubShards = j then mget (clients s) sid else conn_client h k sid)"
  using assms by (auto simp: conn_users_def conn_client_def nth_list_update)

text \<open>
  The registry invariant: the shards are well-formed, every session of the registry is filed under
  its identity, every entry of a user's set is a session of that user, and no set exceeds the
  limit.
\<close>

definition conn_inv :: "(sptr \<Rightarrow> sessIdent) \<Rightarrow> hub \<Rightarrow> bool" where
  "conn_inv I h \<longleftrightarrow> length (connShards h) = numHubShards \<and> (\<forall>s \<in> set (connShards h). shard_wf s) \<and>
     mwf (hub_sessions h) \<and>
     (\<forall>sid p. mget (hub_sessions h) sid = Some p \<longrightarrow>
        sid = SessionID (I p) \<and> sid \<noteq> [] \<and> conn_client h (sessionUserKey I p) sid = Some p \<and>
        mget (conn_users h (sessionUserKey I p)) sid = Some ()) \<and>
     (\<forall>k sid. mget (conn_users h k) sid \<noteq> None \<longrightarrow>
        (\<exists>p. mget (hub_sessions h) sid = Some p \<and> sessionUserKey I p = k)) \<and>
     (maxConnsPerUser h > 0 \<longrightarrow> (\<forall>k. int (length (conn_users h k)) \<le> maxConnsPerUser h))"

lemma conn_inv_new: "conn_inv I (NewHub lag m)"
  by (auto simp: conn_inv_def NewHub_def conn_users_def conn_client_def newConnShard_def shard_wf_def mzero_def)

lemma conn_inv_wf:
  assumes "conn_inv I h"
  shows "length (connShards h) = numHubShards" "shard_wf (connShards h ! hub_index k numHubShards)"
    "mwf (conn_users h k)"
  using assms shard_wf_mzero by (auto simp: conn_inv_def conn_users_def)


lemma conn_inv_session:
  assumes "conn_inv I h" "mget (hub_sessions h) sid = Some p"
  shows "SessionID (I p) = sid" "sid \<noteq> []" "conn_client h (sessionUserKey I p) sid = Some p"
    "mget (conn_users h (sessionUserKey I p)) sid = Some ()"
  using assms by (auto simp: conn_inv_def)

lemma conn_inv_user:
  assumes "conn_inv I h" "mget (conn_users h k) sid \<noteq> None"
  obtains p where "mget (hub_sessions h) sid = Some p" "sessionUserKey I p = k"
  using assms unfolding conn_inv_def by blast

lemma hub_Add_view:
  assumes "conn_inv I h" "hub_Add I h c = (h', None)" "SessionID (I c) \<noteq> []"
  shows "hub_sessions h' = mput (SessionID (I c)) c (hub_sessions h)"
    "conn_users h' k = (if k = sessionUserKey I c then mput (SessionID (I c)) () (conn_users h k) else conn_users h k)"
    "conn_client h' k sid = (if hub_index k numHubShards = hub_index (sessionUserKey I c) numHubShards \<and>
       sid = SessionID (I c) then Some c else conn_client h k sid)"
    "maxConnsPerUser h' = maxConnsPerUser h" "length (connShards h') = numHubShards"
    "\<forall>s \<in> set (connShards h'). shard_wf s"
    "maxConnsPerUser h > 0 \<Longrightarrow> int (length (conn_users h (sessionUserKey I c))) < maxConnsPerUser h"
proof -
  let ?i = "hub_index (sessionUserKey I c) numHubShards"
  let ?s = "putUser (connShards h ! ?i) (sessionUserKey I c) (SessionID (I c)) c"
  note wf = conn_inv_wf [OF assms(1)]
  have h': "h' = h\<lparr>connShards := (connShards h)[?i := ?s], hub_sessions := mput (SessionID (I c)) c (hub_sessions h)\<rparr>"
    and lim: "\<not> (maxConnsPerUser h > 0 \<and> int (length (conn_users h (sessionUserKey I c))) \<ge> maxConnsPerUser h)"
    using assms(2,3) by (auto simp: hub_Add_def addWithLimit_eq Let_def conn_users_def split: if_splits)
  show "hub_sessions h' = mput (SessionID (I c)) c (hub_sessions h)" "maxConnsPerUser h' = maxConnsPerUser h"
    "length (connShards h') = numHubShards"
    using wf(1) by (simp_all add: h')
  show "conn_users h' k = (if k = sessionUserKey I c then mput (SessionID (I c)) () (conn_users h k) else conn_users h k)"
    using wf(1) by (auto simp: h' conn_users_def nth_list_update users_putUser)
  show "conn_client h' k sid = (if hub_index k numHubShards = ?i \<and> sid = SessionID (I c) then Some c else conn_client h k sid)"
    using wf(1) by (auto simp: h' conn_client_def nth_list_update clients_putUser)
  show "\<forall>s \<in> set (connShards h'). shard_wf s"
    using assms(1) shard_wf_putUser [OF wf(2)] set_update_subset_insert [of "connShards h" ?i ?s]
    by (auto simp: h' conn_inv_def)
  show "maxConnsPerUser h > 0 \<Longrightarrow> int (length (conn_users h (sessionUserKey I c))) < maxConnsPerUser h"
    using lim by simp
qed

lemma hub_Add_refused: "hub_Add I h c = (h', Some err) \<Longrightarrow> h' = h \<and> err = DisconnectConnectionLimit"
  by (auto simp: hub_Add_def addWithLimit_eq Let_def split: if_splits)

lemma Remove_view:
  assumes "conn_inv I h" "mget (hub_sessions h) sid = Some p" "c = None \<or> c = Some p"
    "RemoveSessionIfMatches I h sid c = (h', r)"
  shows "r" "hub_sessions h' = mdel sid (hub_sessions h)"
    "conn_users h' k = (if k = sessionUserKey I p then mdel sid (conn_users h k) else conn_users h k)"
    "sid' \<noteq> sid \<Longrightarrow> conn_client h' k sid' = conn_client h k sid'"
    "maxConnsPerUser h' = maxConnsPerUser h" "length (connShards h') = numHubShards"
    "\<forall>s \<in> set (connShards h'). shard_wf s"
proof -
  let ?i = "hub_index (sessionUserKey I p) numHubShards"
  let ?s = "dropUser ((connShards h ! ?i)\<lparr>clients := mdel sid (clients (connShards h ! ?i))\<rparr>) (sessionUserKey I p) sid"
  note wf = conn_inv_wf [OF assms(1)]
  have "conn_client h (sessionUserKey I p) sid = Some p" using assms(1,2) by (auto simp: conn_inv_def)
  then have rm: "connShard_remove I (connShards h ! ?i) sid = ?s"
    by (simp add: connShard_remove_def conn_client_def)
  have h': "h' = h\<lparr>hub_sessions := mdel sid (hub_sessions h), connShards := (connShards h)[?i := ?s]\<rparr>" and r: "r"
    using assms(2,3,4) rm by (auto simp: RemoveSessionIfMatches_def Let_def split: if_splits)
  show "r" by (fact r)
  show "hub_sessions h' = mdel sid (hub_sessions h)" "maxConnsPerUser h' = maxConnsPerUser h"
    "length (connShards h') = numHubShards"
    using wf(1) by (simp_all add: h')
  show "conn_users h' k = (if k = sessionUserKey I p then mdel sid (conn_users h k) else conn_users h k)"
    using wf(1) by (auto simp: h' conn_users_def nth_list_update users_dropUser)
  show "sid' \<noteq> sid \<Longrightarrow> conn_client h' k sid' = conn_client h k sid'"
    using wf(1) by (auto simp: h' conn_client_def nth_list_update)
  show "\<forall>s \<in> set (connShards h'). shard_wf s"
    using assms(1) shard_wf_dropUser [OF shard_wf_clients [OF wf(2)]] set_update_subset_insert [of "connShards h" ?i ?s]
    by (auto simp: h' conn_inv_def)
qed

lemma Remove_unmatched:
  assumes "\<not> (\<exists>p. mget (hub_sessions h) sid = Some p \<and> (c = None \<or> c = Some p))"
  shows "RemoveSessionIfMatches I h sid c = (h, False)"
  using assms by (auto simp: RemoveSessionIfMatches_def split: option.splits)

lemma Prepare_view:
  assumes "conn_inv I h" "PrepareSessionUser I h sid c ns u = (h', None)" "sessionUserKey I c \<noteq> userKey ns u"
  shows "hub_sessions h' = hub_sessions h"
    "conn_users h' k = (if k = userKey ns u then mput sid () (conn_users h k)
       else if k = sessionUserKey I c then mdel sid (conn_users h k) else conn_users h k)"
    "conn_client h' (userKey ns u) sid = Some c"
    "sid' \<noteq> sid \<Longrightarrow> conn_client h' k sid' = conn_client h k sid'"
    "maxConnsPerUser h' = maxConnsPerUser h" "length (connShards h') = numHubShards"
    "\<forall>s \<in> set (connShards h'). shard_wf s"
    "maxConnsPerUser h > 0 \<Longrightarrow> int (length (conn_users h (userKey ns u))) < maxConnsPerUser h"
proof -
  let ?old = "sessionUserKey I c" and ?new = "userKey ns u"
  let ?i = "hub_index ?old numHubShards" and ?j = "hub_index ?new numHubShards"
  note wf = conn_inv_wf [OF assms(1)]
  define s t where "s = dropUser (if ?i = ?j then connShards h ! ?i
      else (connShards h ! ?i)\<lparr>clients := mdel sid (clients (connShards h ! ?i))\<rparr>) ?old sid"
    and "t = putUser (if ?i = ?j then s else connShards h ! ?j) ?new sid c"
  have h': "h' = h\<lparr>connShards := (connShards h)[?i := s, ?j := t]\<rparr>"
    and lim: "\<not> (maxConnsPerUser h > 0 \<and> int (length (conn_users h ?new)) \<ge> maxConnsPerUser h)"
    using assms(2,3)
    by (auto simp: PrepareSessionUser_def Let_def s_def t_def conn_users_def split: if_splits)
  have st: "shard_wf s" "shard_wf t"
    using wf(2) by (auto simp: s_def t_def intro!: shard_wf_putUser shard_wf_dropUser shard_wf_clients)
  show "hub_sessions h' = hub_sessions h" "maxConnsPerUser h' = maxConnsPerUser h"
    "length (connShards h') = numHubShards"
    using wf(1) by (simp_all add: h')
  show "conn_users h' k = (if k = ?new then mput sid () (conn_users h k)
       else if k = ?old then mdel sid (conn_users h k) else conn_users h k)"
    using wf(1) assms(3)
    by (auto simp: h' conn_users_def nth_list_update users_putUser users_dropUser s_def t_def)
  show "conn_client h' ?new sid = Some c"
    using wf(1) by (simp add: h' conn_client_def clients_putUser t_def)
  show "sid' \<noteq> sid \<Longrightarrow> conn_client h' k sid' = conn_client h k sid'"
    using wf(1) by (auto simp: h' conn_client_def nth_list_update clients_putUser s_def t_def)
  show "\<forall>s \<in> set (connShards h'). shard_wf s"
    using assms(1) st set_update_subset_insert [of "(connShards h)[?i := s]" ?j t]
      set_update_subset_insert [of "connShards h" ?i s] by (auto simp: h' conn_inv_def)
  show "maxConnsPerUser h > 0 \<Longrightarrow> int (length (conn_users h ?new)) < maxConnsPerUser h"
    using lim by simp
qed

lemma Prepare_refused: "PrepareSessionUser I h sid c ns u = (h', Some err) \<Longrightarrow> h' = h"
  by (auto simp: PrepareSessionUser_def Let_def split: if_splits)

lemma Prepare_same: "PrepareSessionUser I h sid c ns u = (h', None) \<Longrightarrow> sessionUserKey I c = userKey ns u \<Longrightarrow> h' = h"
  by (auto simp: PrepareSessionUser_def Let_def)

lemma length_mput_le: "length (mput k v m) \<le> Suc (length m)"
  using length_mput_new [of m k v] length_mput_old [of m k _ v] by (cases "mget m k") auto

lemma length_mdel_le: "length (mdel k m) \<le> length m"
  by (simp add: mdel_def AList.delete_eq)

text \<open>The identity \<^verbatim>\<open>handleConnect\<close> gives an adopted session.\<close>

definition adopted :: "(sptr \<Rightarrow> sessIdent) \<Rightarrow> sptr \<Rightarrow> string \<Rightarrow> string \<Rightarrow> sptr \<Rightarrow> sessIdent" where
  "adopted I c ns u = I(c := (I c)\<lparr>NamespaceOfSession := ns, UserID := u\<rparr>)"

lemma conn_inv_Add:
  assumes inv: "conn_inv I h" and add: "hub_Add I h c = (h', r)" and sid: "SessionID (I c) \<noteq> []"
    and same: "\<And>p. mget (hub_sessions h) (SessionID (I c)) = Some p \<Longrightarrow> sessionUserKey I p = sessionUserKey I c"
  shows "conn_inv I h'"
proof (cases r)
  case None
  note v = hub_Add_view [OF inv add [unfolded None] sid]
  have "maxConnsPerUser h > 0 \<Longrightarrow> int (length (conn_users h' k)) \<le> maxConnsPerUser h" for k
    using inv v(7) length_mput_le [of "SessionID (I c)" "()" "conn_users h k"]
    by (auto simp: v(2) conn_inv_def)
  moreover have "\<exists>p. mget (hub_sessions h') sid' = Some p \<and> sessionUserKey I p = k"
    if "mget (conn_users h' k) sid' \<noteq> None" for k sid'
    using that inv same unfolding v(1,2) conn_inv_def by (fastforce split: if_splits)
  moreover have "mwf (hub_sessions h')" using inv by (simp add: v(1) conn_inv_def)
  moreover have "sid' = SessionID (I p) \<and> sid' \<noteq> [] \<and> conn_client h' (sessionUserKey I p) sid' = Some p \<and>
        mget (conn_users h' (sessionUserKey I p)) sid' = Some ()"
    if "mget (hub_sessions h') sid' = Some p" for sid' p
  proof (cases "sid' = SessionID (I c)")
    case True
    then show ?thesis using that sid by (simp add: v(1,2,3))
  next
    case False
    then show ?thesis using that conn_inv_session [OF inv, of sid' p]
      by (cases "sessionUserKey I p = sessionUserKey I c") (simp_all add: v(1,2,3))
  qed
  ultimately show ?thesis using v(4,5,6) unfolding conn_inv_def by auto
next
  case (Some e)
  then show ?thesis using hub_Add_refused [of I h c h' e] add inv by simp
qed

lemma conn_inv_Remove:
  assumes inv: "conn_inv I h" and rm: "RemoveSessionIfMatches I h sid c = (h', r)"
  shows "conn_inv I h'"
proof (cases "\<exists>p. mget (hub_sessions h) sid = Some p \<and> (c = None \<or> c = Some p)")
  case True
  then obtain p where p: "mget (hub_sessions h) sid = Some p" "c = None \<or> c = Some p" by blast
  note v = Remove_view [OF inv p rm]
  have "maxConnsPerUser h > 0 \<Longrightarrow> int (length (conn_users h' k)) \<le> maxConnsPerUser h" for k
  proof -
    assume "maxConnsPerUser h > 0"
    then have "int (length (conn_users h k)) \<le> maxConnsPerUser h" using inv by (simp add: conn_inv_def)
    then show ?thesis using length_mdel_le [of sid "conn_users h k"] unfolding v(3) by (cases "k = sessionUserKey I p") simp_all
  qed
  moreover have "\<exists>q. mget (hub_sessions h') sid' = Some q \<and> sessionUserKey I q = k"
    if "mget (conn_users h' k) sid' \<noteq> None" for k sid'
  proof -
    have u: "mget (conn_users h k) sid' \<noteq> None" using that by (auto simp: v(3) split: if_splits)
    then obtain q where q: "mget (hub_sessions h) sid' = Some q" "sessionUserKey I q = k"
      using conn_inv_user [OF inv] by blast
    moreover have "sid' \<noteq> sid" using that q p by (auto simp: v(3) split: if_splits)
    ultimately show ?thesis by (simp add: v(2))
  qed
  moreover have "mwf (hub_sessions h')" using inv by (simp add: v(2) conn_inv_def)
  moreover have "sid' = SessionID (I q) \<and> sid' \<noteq> [] \<and> conn_client h' (sessionUserKey I q) sid' = Some q \<and>
        mget (conn_users h' (sessionUserKey I q)) sid' = Some ()"
    if "mget (hub_sessions h') sid' = Some q" for sid' q
  proof -
    have "sid' \<noteq> sid" "mget (hub_sessions h) sid' = Some q" using that by (auto simp: v(2) split: if_splits)
    then show ?thesis using conn_inv_session [OF inv, of sid' q]
      by (cases "sessionUserKey I q = sessionUserKey I p") (simp_all add: v(3) v(4))
  qed
  ultimately show ?thesis using v(5,6,7) unfolding conn_inv_def by auto
next
  case False
  then show ?thesis using Remove_unmatched [OF False, of I] rm inv by simp
qed

lemma key_adopted: "sessionUserKey (adopted I c ns u) p = (if p = c then userKey ns u else sessionUserKey I p)"
  "SessionID (adopted I c ns u p) = SessionID (I p)"
  by (simp_all add: adopted_def sessionUserKey_def)

lemma conn_inv_adopt:
  assumes inv: "conn_inv I h" and prep: "PrepareSessionUser I h sid c ns u = (h', None)"
    and reg: "mget (hub_sessions h) sid = Some c"
  shows "conn_inv (adopted I c ns u) h'"
proof (cases "sessionUserKey I c = userKey ns u")
  case True
  then have "h' = h" "sessionUserKey (adopted I c ns u) = sessionUserKey I"
    using Prepare_same [OF prep] by (auto simp: key_adopted)
  then show ?thesis using inv by (simp add: conn_inv_def key_adopted(2))
next
  case False
  note v = Prepare_view [OF inv prep False]
  have "maxConnsPerUser h > 0 \<Longrightarrow> int (length (conn_users h' k)) \<le> maxConnsPerUser h" for k
  proof -
    assume "maxConnsPerUser h > 0"
    then have "int (length (conn_users h k)) \<le> maxConnsPerUser h"
      "int (length (conn_users h (userKey ns u))) < maxConnsPerUser h"
      using inv v(8) by (simp_all add: conn_inv_def)
    then show ?thesis
      using length_mdel_le [of sid "conn_users h k"] length_mput_le [of sid "()" "conn_users h (userKey ns u)"]
      unfolding v(2) by (cases "k = userKey ns u"; cases "k = sessionUserKey I c") simp_all
  qed
  moreover have "\<exists>q. mget (hub_sessions h') sid' = Some q \<and> sessionUserKey (adopted I c ns u) q = k"
    if "mget (conn_users h' k) sid' \<noteq> None" for k sid'
  proof (cases "sid' = sid")
    case True
    have "k = userKey ns u"
    proof (rule ccontr)
      assume k: "k \<noteq> userKey ns u"
      then have "mget (conn_users h k) sid \<noteq> None" "k \<noteq> sessionUserKey I c"
        using that True by (auto simp: v(2) split: if_splits)
      then show False using conn_inv_user [OF inv, of k sid] reg by auto
    qed
    then show ?thesis using reg True by (simp add: v(1) key_adopted)
  next
    case False
    then have "mget (conn_users h k) sid' \<noteq> None" using that by (auto simp: v(2) split: if_splits)
    then obtain q where q: "mget (hub_sessions h) sid' = Some q" "sessionUserKey I q = k"
      by (rule conn_inv_user [OF inv])
    then have "q \<noteq> c"
      using False conn_inv_session(1) [OF inv q(1)] conn_inv_session(1) [OF inv reg] by auto
    then show ?thesis using q by (simp add: v(1) key_adopted)
  qed
  moreover have "sid' = SessionID (adopted I c ns u q) \<and> sid' \<noteq> [] \<and>
        conn_client h' (sessionUserKey (adopted I c ns u) q) sid' = Some q \<and>
        mget (conn_users h' (sessionUserKey (adopted I c ns u) q)) sid' = Some ()"
    if "mget (hub_sessions h') sid' = Some q" for sid' q
  proof (cases "sid' = sid")
    case True
    then show ?thesis using that reg conn_inv_session(1,2) [OF inv reg]
      by (simp add: v(1,2,3) key_adopted)
  next
    case False
    have q: "mget (hub_sessions h) sid' = Some q" using that by (simp add: v(1))
    then have "q \<noteq> c"
      using False conn_inv_session(1) [OF inv q] conn_inv_session(1) [OF inv reg] by auto
    then show ?thesis using False conn_inv_session [OF inv q]
      by (cases "sessionUserKey I q = sessionUserKey I c"; cases "sessionUserKey I q = userKey ns u")
        (simp_all add: v(2) v(4) key_adopted)
  qed
  moreover have "mwf (hub_sessions h')" using inv by (simp add: v(1) conn_inv_def)
  ultimately show ?thesis using v(5,6,7) unfolding conn_inv_def by auto
qed

lemma conn_inv_cong:
  assumes "conn_inv I h" "\<And>sid p. mget (hub_sessions h) sid = Some p \<Longrightarrow> I' p = I p"
  shows "conn_inv I' h"
proof -
  have key: "sessionUserKey I' p = sessionUserKey I p" if "mget (hub_sessions h) sid = Some p" for sid p
    using assms(2) [OF that] by (simp add: sessionUserKey_def)
  have "sid = SessionID (I' p) \<and> sid \<noteq> [] \<and> conn_client h (sessionUserKey I' p) sid = Some p \<and>
      mget (conn_users h (sessionUserKey I' p)) sid = Some ()" if "mget (hub_sessions h) sid = Some p" for sid p
    using conn_inv_session [OF assms(1) that] assms(2) [OF that] key [OF that] by simp
  moreover have "\<exists>p. mget (hub_sessions h) sid = Some p \<and> sessionUserKey I' p = k"
    if u: "mget (conn_users h k) sid \<noteq> None" for k sid
  proof -
    obtain p where "mget (hub_sessions h) sid = Some p" "sessionUserKey I p = k"
      using u by (rule conn_inv_user [OF assms(1)])
    then show ?thesis using key by auto
  qed
  ultimately show ?thesis using assms(1) unfolding conn_inv_def by simp
qed

text \<open>
  The registries of a node: connects, closes, and adoptions, with the identity of a session free
  to change while it is not registered. A session identifier is registered again only by the same
  user, which is what the checks of \<^verbatim>\<open>handleConnect\<close> and \<^verbatim>\<open>ResumeRemoteSession\<close> establish.
\<close>

inductive registry :: "(sptr \<Rightarrow> sessIdent) \<Rightarrow> hub \<Rightarrow> bool" where
  new: "registry I (NewHub lag m)"
| identify: "registry I h \<Longrightarrow> c \<notin> snd ` set (hub_sessions h) \<Longrightarrow> registry (I(c := x)) h"
| add: "registry I h \<Longrightarrow> SessionID (I c) \<noteq> [] \<Longrightarrow>
    (\<And>p. mget (hub_sessions h) (SessionID (I c)) = Some p \<Longrightarrow> sessionUserKey I p = sessionUserKey I c) \<Longrightarrow>
    hub_Add I h c = (h', r) \<Longrightarrow> registry I h'"
| remove: "registry I h \<Longrightarrow> RemoveSessionIfMatches I h sid c = (h', b) \<Longrightarrow> registry I h'"
| adopt: "registry I h \<Longrightarrow> mget (hub_sessions h) sid = Some c \<Longrightarrow>
    PrepareSessionUser I h sid c ns u = (h', None) \<Longrightarrow> registry (adopted I c ns u) h'"
| refuse: "registry I h \<Longrightarrow> PrepareSessionUser I h sid c ns u = (h', Some e) \<Longrightarrow> registry I h'"

lemma registry_conn_inv: "registry I h \<Longrightarrow> conn_inv I h"
proof (induction rule: registry.induct)
  case (new I lag m)
  show ?case by (rule conn_inv_new)
next
  case (identify I h c x)
  have "(I(c := x)) p = I p" if "mget (hub_sessions h) sid = Some p" for sid p
    using mget_in_set [OF that] identify(2) by force
  then show ?case by (rule conn_inv_cong [OF identify(3)])
next
  case (add I h c h' r)
  show ?case by (rule conn_inv_Add [OF add(5,4,2)]) (rule add(3))
next
  case (remove I h sid c h' b)
  show ?case by (rule conn_inv_Remove [OF remove(3,2)])
next
  case (adopt I h sid c ns u h')
  show ?case by (rule conn_inv_adopt [OF adopt(4,3,2)])
next
  case (refuse I h sid c ns u h' e)
  show ?case using Prepare_refused [OF refuse(2)] refuse(3) by simp
qed

definition sessions_of :: "(sptr \<Rightarrow> sessIdent) \<Rightarrow> hub \<Rightarrow> string \<Rightarrow> string \<Rightarrow> sptr set" where
  "sessions_of I h ns u = {p. mget (hub_sessions h) (SessionID (I p)) = Some p \<and>
     NamespaceOfSession (I p) = ns \<and> UserID (I p) = u}"

lemma userKey_inject:
  assumes "CHR 0x00 \<notin> set ns" "CHR 0x00 \<notin> set ns'"
  shows "userKey ns u = userKey ns' u' \<longleftrightarrow> ns = ns' \<and> u = u'"
proof
  assume eq: "userKey ns u = userKey ns' u'"
  have t: "takeWhile (\<lambda>c. c \<noteq> CHR 0x00) (userKey n v) = n" if "CHR 0x00 \<notin> set n" for n v
    using that by (auto simp: userKey_def takeWhile_append)
  have "ns = ns'" using t [OF assms(1), of u] t [OF assms(2), of u'] eq by simp
  then show "ns = ns' \<and> u = u'" using eq by (simp add: userKey_def)
qed simp

lemma user_set:
  assumes inv: "conn_inv I h" and nul: "CHR 0x00 \<notin> set ns"
    "\<forall>p \<in> snd ` set (hub_sessions h). CHR 0x00 \<notin> set (NamespaceOfSession (I p))"
  shows "fst ` set (conn_users h (userKey ns u)) = (\<lambda>p. SessionID (I p)) ` sessions_of I h ns u"
    "p \<in> sessions_of I h ns u \<Longrightarrow> conn_client h (userKey ns u) (SessionID (I p)) = Some p"
proof -
  have key: "sessionUserKey I p = userKey ns u \<longleftrightarrow> NamespaceOfSession (I p) = ns \<and> UserID (I p) = u"
    if "mget (hub_sessions h) sid = Some p" for sid p
    using nul mget_in_set [OF that] userKey_inject [of "NamespaceOfSession (I p)" ns] unfolding sessionUserKey_def by force
  show "p \<in> sessions_of I h ns u \<Longrightarrow> conn_client h (userKey ns u) (SessionID (I p)) = Some p"
    using conn_inv_session(3) [OF inv] key by (fastforce simp: sessions_of_def)
  have "sid \<in> fst ` set (conn_users h (userKey ns u)) \<longleftrightarrow> mget (conn_users h (userKey ns u)) sid \<noteq> None" for sid
    by (simp add: mget_None_iff)
  moreover have "mget (conn_users h (userKey ns u)) sid \<noteq> None \<longleftrightarrow>
      sid \<in> (\<lambda>p. SessionID (I p)) ` sessions_of I h ns u" for sid
  proof
    assume "mget (conn_users h (userKey ns u)) sid \<noteq> None"
    then obtain p where p: "mget (hub_sessions h) sid = Some p" "sessionUserKey I p = userKey ns u"
      by (rule conn_inv_user [OF inv])
    then show "sid \<in> (\<lambda>p. SessionID (I p)) ` sessions_of I h ns u"
      using key [OF p(1)] conn_inv_session(1) [OF inv p(1)] by (auto simp: sessions_of_def image_iff)
  next
    assume "sid \<in> (\<lambda>p. SessionID (I p)) ` sessions_of I h ns u"
    then obtain p where p: "mget (hub_sessions h) sid = Some p" "NamespaceOfSession (I p) = ns" "UserID (I p) = u"
      by (auto simp: sessions_of_def)
    then show "mget (conn_users h (userKey ns u)) sid \<noteq> None"
      using conn_inv_session(4) [OF inv p(1)] by (simp add: sessionUserKey_def)
  qed
  ultimately show "fst ` set (conn_users h (userKey ns u)) = (\<lambda>p. SessionID (I p)) ` sessions_of I h ns u"
    by blast
qed

lemma finite_sessions_of: "finite (sessions_of I h ns u)"
proof (rule finite_subset)
  show "sessions_of I h ns u \<subseteq> snd ` set (hub_sessions h)"
  proof
    fix p
    assume "p \<in> sessions_of I h ns u"
    then have "(SessionID (I p), p) \<in> set (hub_sessions h)" by (simp add: sessions_of_def mget_in_set)
    then show "p \<in> snd ` set (hub_sessions h)" by force
  qed
qed simp

lemma inj_sessions_of: "inj_on (\<lambda>p. SessionID (I p)) (sessions_of I h ns u)"
proof (rule inj_onI)
  fix p q
  assume "p \<in> sessions_of I h ns u" "q \<in> sessions_of I h ns u" and eq: "SessionID (I p) = SessionID (I q)"
  then have "mget (hub_sessions h) (SessionID (I p)) = Some p" "mget (hub_sessions h) (SessionID (I q)) = Some q"
    by (simp_all only: sessions_of_def mem_Collect_eq)
  then show "p = q" unfolding eq by (metis option.inject)
qed

lemma set_SessionsByUser:
  assumes inv: "conn_inv I h" and nul: "CHR 0x00 \<notin> set ns"
    "\<forall>p \<in> snd ` set (hub_sessions h). CHR 0x00 \<notin> set (NamespaceOfSession (I p))" and u: "u \<noteq> []"
  shows "set (SessionsByUser I h ns u) = sessions_of I h ns u"
proof -
  let ?k = "userKey ns u"
  have mf: "set (List.map_filter f xs) = {y. \<exists>x \<in> set xs. f x = Some y}" for f :: "string \<times> unit \<Rightarrow> sptr option" and xs
    by (force simp: map_filter_def)
  have "set (SessionsByUser I h ns u) =
      {p. \<exists>sid \<in> fst ` set (conn_users h ?k). conn_client h ?k sid = Some p}"
  proof (cases "mget (users (connShards h ! hub_index ?k numHubShards)) ?k")
    case None
    then show ?thesis using u by (simp add: SessionsByUser_def Let_def conn_users_def mzero_def)
  next
    case (Some us)
    then show ?thesis using u
      by (simp add: SessionsByUser_def Let_def sortBySessionID_def conn_users_def conn_client_def mzero_def mf
          case_prod_unfold)
  qed
  also have "\<dots> = sessions_of I h ns u"
  proof -
    have "{p. \<exists>sid \<in> f ` S. g sid = Some p} = S" if "\<And>p. p \<in> S \<Longrightarrow> g (f p) = Some p"
      for f :: "sptr \<Rightarrow> string" and S g
      using that by auto
    then show ?thesis unfolding user_set(1) [OF inv nul] by (simp add: user_set(2) [OF inv nul])
  qed
  finally show ?thesis .
qed

section \<open>Property of the registry\<close>

text \<open>
  (C23) The registry is exact and the limit holds. Along every sequence of connects, closes and
  adoptions, refused ones included, no user of a namespace ever has more registered sessions than
  the configured limit, and the sessions reported for a user are exactly the registered sessions of
  that user in that namespace, sorted by their identifiers. Namespaces are assumed to have no NUL
  byte, the separator of the registry's keys.
\<close>

theorem connection_registry:
  assumes "registry I h" "CHR 0x00 \<notin> set ns"
    "\<forall>p \<in> snd ` set (hub_sessions h). CHR 0x00 \<notin> set (NamespaceOfSession (I p))"
  shows "(maxConnsPerUser h > 0 \<longrightarrow> int (card (sessions_of I h ns u)) \<le> maxConnsPerUser h) \<and>
    set (SessionsByUser I h ns u) = (if u = [] then {} else sessions_of I h ns u) \<and>
    sorted (map (\<lambda>p. SessionID (I p)) (SessionsByUser I h ns u))"
proof -
  have inv: "conn_inv I h" by (rule registry_conn_inv [OF assms(1)])
  have "card (sessions_of I h ns u) = card (fst ` set (conn_users h (userKey ns u)))"
    unfolding user_set(1) [OF inv assms(2,3)] by (rule card_image [OF inj_sessions_of, symmetric])
  also have "\<dots> \<le> length (conn_users h (userKey ns u))"
    using card_length [of "map fst (conn_users h (userKey ns u))"] by simp
  finally have card: "int (card (sessions_of I h ns u)) \<le> int (length (conn_users h (userKey ns u)))" by simp
  have "maxConnsPerUser h > 0 \<longrightarrow> int (card (sessions_of I h ns u)) \<le> maxConnsPerUser h"
  proof
    assume "maxConnsPerUser h > 0"
    then have "int (length (conn_users h (userKey ns u))) \<le> maxConnsPerUser h" using inv by (simp add: conn_inv_def)
    then show "int (card (sessions_of I h ns u)) \<le> maxConnsPerUser h" using card by linarith
  qed
  moreover have "set (SessionsByUser I h ns u) = (if u = [] then {} else sessions_of I h ns u)"
    using set_SessionsByUser [OF inv assms(2,3)] by (simp add: SessionsByUser_def)
  moreover have "sorted (map (\<lambda>p. SessionID (I p)) (SessionsByUser I h ns u))"
    by (simp add: SessionsByUser_def Let_def sortBySessionID_def split: option.splits)
  ultimately show ?thesis by blast
qed

text \<open>Two sessions of one user against a limit of one.\<close>

definition example_ident :: "sptr \<Rightarrow> sessIdent" where
  "example_ident p = \<lparr>SessionID = (if p = 1 then ''s1'' else ''s2''), NamespaceOfSession = ''acme'', UserID = ''alice''\<rparr>"

definition example_hub :: hub where
  "example_hub = fst (hub_Add example_ident (NewHub 0 1) 1)"

theorem connection_registry_witness:
  "SessionsByUser example_ident example_hub ''acme'' ''alice'' = [1] \<and>
   hub_Add example_ident example_hub 2 = (example_hub, Some DisconnectConnectionLimit) \<and>
   card (sessions_of example_ident example_hub ''acme'' ''alice'') \<le> 1"
proof -
  have add: "hub_Add example_ident (NewHub 0 1) 1 = (example_hub, None)" by code_simp
  have "registry example_ident example_hub"
    by (rule registry.add [OF registry.new [of _ 0 1] _ _ add]) (simp_all add: example_ident_def NewHub_def)
  moreover have "CHR 0x00 \<notin> set ''acme''" by code_simp
  moreover have "\<forall>p \<in> snd ` set (hub_sessions example_hub). CHR 0x00 \<notin> set (NamespaceOfSession (example_ident p))"
    by (simp add: example_ident_def)
  ultimately have "int (card (sessions_of example_ident example_hub ''acme'' ''alice'')) \<le> maxConnsPerUser example_hub"
    using connection_registry [of example_ident example_hub "''acme''" "''alice''"]
    by (simp add: example_hub_def hub_Add_def NewHub_def Let_def addWithLimit_eq split: prod.splits)
  moreover have "maxConnsPerUser example_hub = 1" by code_simp
  moreover have "SessionsByUser example_ident example_hub ''acme'' ''alice'' = [1]" by code_simp
  moreover have "hub_Add example_ident example_hub 2 = (example_hub, Some DisconnectConnectionLimit)" by code_simp
  ultimately show ?thesis by simp
qed

end
