(* ===== verification/HubSubs.thy ===== *)
theory HubSubs
  imports Hub
begin

text \<open>
  The subscription side of \<^verbatim>\<open>internal/session/hub.go\<close>: exact channels in shards keyed by the
  channel, wildcard patterns in the subscription trie with one handle per session and pattern, and
  the sessions a publication on a channel reaches. The trie cleans up while it is read, so a lookup
  returns the hub as well, and it may not return at all.
\<close>

section \<open>Operations\<close>

definition subShard_NumSubscribers :: "subShard \<Rightarrow> string \<Rightarrow> int" where
  "subShard_NumSubscribers s ch =
     (case mget (shard_subs s) ch of None \<Rightarrow> 0 | Some cl \<Rightarrow> int (length cl))"

definition addSub :: "(sptr \<Rightarrow> sessIdent) \<Rightarrow> subShard \<Rightarrow> string \<Rightarrow> hubSubscriber \<Rightarrow> subShard \<times> bool" where
  "addSub I s ch sub =
     (let uid = SessionID (I (sub_Session sub)); ok = (mget (shard_subs s) ch \<noteq> None);
          m = (if \<not> ok then mput ch [] (shard_subs s) else shard_subs s)
      in (s\<lparr>shard_subs := mput ch (mput uid sub (mzero [] m ch)) m\<rparr>, \<not> ok))"

text \<open>\<^verbatim>\<open>removeSub\<close> of a shard: whether the channel lost its last subscriber, and whether anything was
  removed.\<close>

definition removeSub :: "(sptr \<Rightarrow> sessIdent) \<Rightarrow> subShard \<Rightarrow> string \<Rightarrow> sptr \<Rightarrow> subShard \<times> bool \<times> bool" where
  "removeSub I s ch c =
     (let uid = SessionID (I c)
      in case mget (shard_subs s) ch of
           None \<Rightarrow> (s, True, False)
         | Some m \<Rightarrow>
             (case mget m uid of
                None \<Rightarrow> (s, True, False)
              | Some _ \<Rightarrow>
                  let m = mdel uid m; s = s\<lparr>shard_subs := mput ch m (shard_subs s)\<rparr>
                  in if length m = 0 then (s\<lparr>shard_subs := mdel ch (shard_subs s)\<rparr>, True, True)
                     else (s, False, True)))"

definition subShard_of :: "hub \<Rightarrow> string \<Rightarrow> subShard" where
  "subShard_of h ch = subShards h ! hub_index ch numHubShards"

definition set_subShard :: "hub \<Rightarrow> string \<Rightarrow> subShard \<Rightarrow> hub" where
  "set_subShard h ch s = h\<lparr>subShards := (subShards h)[hub_index ch numHubShards := s]\<rparr>"

definition comparable_sub :: "hubSubscriber \<Rightarrow> bool" where
  "comparable_sub s = True"

definition wcKey :: "(sptr \<Rightarrow> sessIdent) \<Rightarrow> sptr \<Rightarrow> string \<Rightarrow> string" where
  "wcKey I c ch = SessionID (I c) @ '':'' @ ch"

definition addWildcardSub ::
    "(sptr \<Rightarrow> sessIdent) \<Rightarrow> hub \<Rightarrow> string \<Rightarrow> hubSubscriber \<Rightarrow> (hub \<times> bool \<times> topic_error option) go" where
  "addWildcardSub I h ch sub =
     (let key = wcKey I (sub_Session sub) ch
      in case mget (wcSubs h) key of
           Some _ \<Rightarrow> goret (h, False, None)
         | None \<Rightarrow>
             gobind (Subscribe comparable_sub (hub_matcher h) ch sub) (\<lambda>(m, r).
               let h = h\<lparr>hub_matcher := m\<rparr>
               in case r of
                    Inl err \<Rightarrow> goret (h, False, Some err)
                  | Inr topicSub \<Rightarrow> goret (h\<lparr>wcSubs := mput key topicSub (wcSubs h)\<rparr>, True, None)))"

definition AddSub ::
    "(sptr \<Rightarrow> sessIdent) \<Rightarrow> hub \<Rightarrow> string \<Rightarrow> hubSubscriber \<Rightarrow> (hub \<times> bool \<times> topic_error option) go" where
  "AddSub I h ch sub =
     (if IsWildcard ch then addWildcardSub I h ch sub
      else case ValidateTopic ch of
             Some err \<Rightarrow> goret (h, False, Some err)
           | None \<Rightarrow>
               let (s, first) = addSub I (subShard_of h ch) ch sub
               in goret (set_subShard h ch s, first, None))"

definition removeWildcardSub :: "(sptr \<Rightarrow> sessIdent) \<Rightarrow> hub \<Rightarrow> string \<Rightarrow> sptr \<Rightarrow> (hub \<times> bool \<times> bool) go" where
  "removeWildcardSub I h ch c =
     (let key = wcKey I c ch
      in case mget (wcSubs h) key of
           None \<Rightarrow> goret (h, True, False)
         | Some topicSub \<Rightarrow>
             gobind (Unsubscribe (hub_matcher h) (Some topicSub)) (\<lambda>m.
               goret (h\<lparr>hub_matcher := m, wcSubs := mdel key (wcSubs h)\<rparr>, True, True)))"

definition RemoveSub :: "(sptr \<Rightarrow> sessIdent) \<Rightarrow> hub \<Rightarrow> string \<Rightarrow> sptr \<Rightarrow> (hub \<times> bool \<times> bool) go" where
  "RemoveSub I h ch c =
     (if IsWildcard ch then removeWildcardSub I h ch c
      else let (s, lst, rmd) = removeSub I (subShard_of h ch) ch c
           in goret (set_subShard h ch s, lst, rmd))"

definition NumSubscribers :: "hub \<Rightarrow> string \<Rightarrow> int" where
  "NumSubscribers h ch = subShard_NumSubscribers (subShard_of h ch) ch"

definition GetSubscribers :: "hub \<Rightarrow> string \<Rightarrow> sptr list" where
  "GetSubscribers h ch =
     (case mget (shard_subs (subShard_of h ch)) ch of
        None \<Rightarrow> [] | Some subscribers \<Rightarrow> map (\<lambda>(_, sub). sub_Session sub) subscribers)"

text \<open>The sessions of \<open>cs\<close> entered into a map keyed by the session identifier.\<close>

fun enter_sessions :: "(sptr \<Rightarrow> sessIdent) \<Rightarrow> sptr list \<Rightarrow> (string, sptr) gomap \<Rightarrow> (string, sptr) gomap" where
  "enter_sessions I [] matched = matched"
| "enter_sessions I (c # cs) matched = enter_sessions I cs (mput (SessionID (I c)) c matched)"

definition mergeMatchingSubscribers ::
    "(sptr \<Rightarrow> sessIdent) \<Rightarrow> hub \<Rightarrow> string \<Rightarrow> (hub \<times> (string, sptr) gomap) go" where
  "mergeMatchingSubscribers I h ch =
     (let matched = enter_sessions I (GetSubscribers h ch) []
      in gobind (Lookup (hub_matcher h) ch) (\<lambda>(m, candidates).
           goret (h\<lparr>hub_matcher := m\<rparr>, enter_sessions I (map sub_Session candidates) matched)))"

definition GetMatchingSubscribers :: "(sptr \<Rightarrow> sessIdent) \<Rightarrow> hub \<Rightarrow> string \<Rightarrow> (hub \<times> sptr list) go" where
  "GetMatchingSubscribers I h ch =
     gobind (mergeMatchingSubscribers I h ch) (\<lambda>(h, matched).
       goret (h, sortBySessionID I (map snd matched)))"

definition LookupSubscriber :: "(sptr \<Rightarrow> sessIdent) \<Rightarrow> hub \<Rightarrow> string \<Rightarrow> sptr \<Rightarrow> hubSubscriber option" where
  "LookupSubscriber I h ch c =
     (if IsWildcard ch then map_option Subscriber (mget (wcSubs h) (wcKey I c ch))
      else case mget (shard_subs (subShard_of h ch)) ch of
             None \<Rightarrow> None
           | Some subscribers \<Rightarrow> mget subscribers (SessionID (I c)))"

record PresenceRecipient =
  pr_Client :: sptr
  pr_Ephemeral :: bool

definition addRecipient ::
    "(sptr \<Rightarrow> sessIdent) \<Rightarrow> sptr \<Rightarrow> bool \<Rightarrow> (string, PresenceRecipient) gomap \<Rightarrow> (string, PresenceRecipient) gomap" where
  "addRecipient I client ephemeral recipients =
     (let sid = SessionID (I client)
      in case mget recipients sid of
           Some existing \<Rightarrow>
             if pr_Ephemeral existing \<and> \<not> ephemeral
             then mput sid \<lparr>pr_Client = client, pr_Ephemeral = False\<rparr> recipients else recipients
         | None \<Rightarrow> mput sid \<lparr>pr_Client = client, pr_Ephemeral = ephemeral\<rparr> recipients)"

fun addRecipients ::
    "(sptr \<Rightarrow> sessIdent) \<Rightarrow> hubSubscriber list \<Rightarrow> (string, PresenceRecipient) gomap \<Rightarrow> (string, PresenceRecipient) gomap" where
  "addRecipients I [] rs = rs"
| "addRecipients I (s # ss) rs = addRecipients I ss (addRecipient I (sub_Session s) (Ephemeral s) rs)"

definition PresenceRecipients :: "(sptr \<Rightarrow> sessIdent) \<Rightarrow> hub \<Rightarrow> string \<Rightarrow> (hub \<times> PresenceRecipient list) go" where
  "PresenceRecipients I h ch =
     (let rs = (case mget (shard_subs (subShard_of h ch)) ch of
                  None \<Rightarrow> [] | Some m \<Rightarrow> addRecipients I (map snd m) [])
      in gobind (Lookup (hub_matcher h) ch) (\<lambda>(m, candidates).
           goret (h\<lparr>hub_matcher := m\<rparr>,
             sort_key (\<lambda>r. SessionID (I (pr_Client r))) (map snd (addRecipients I candidates rs)))))"

record ChannelInfo =
  ci_Name :: string
  ci_Subscribers :: int

definition GetActiveChannels :: "hub \<Rightarrow> ChannelInfo list" where
  "GetActiveChannels h =
     (let counts = foldl (\<lambda>counts shard.
            foldl (\<lambda>counts (ch, ss). if length ss > 0 then mput ch (int (length ss)) counts else counts)
              counts (shard_subs shard)) [] (subShards h)
      in sort_key ci_Name (map (\<lambda>(ch, n). \<lparr>ci_Name = ch, ci_Subscribers = n\<rparr>)
           (filter (\<lambda>(_, n). n > 0) counts)))"

text \<open>The pass over the clients of a broadcast that raises the delivered offsets.\<close>

fun raiseDelivered ::
    "(sptr \<Rightarrow> sessIdent) \<Rightarrow> u64 \<Rightarrow> (sptr \<times> bool) list \<Rightarrow> (string, hubSubscriber) gomap \<Rightarrow> (string, hubSubscriber) gomap" where
  "raiseDelivered I off [] ss = ss"
| "raiseDelivered I off ((client, ok) # cs) ss =
     raiseDelivered I off cs
       (if \<not> ok then ss
        else case mget ss (SessionID (I client)) of
               None \<Rightarrow> ss
             | Some sub \<Rightarrow>
                 if DeliveredOffset sub < off
                 then mput (SessionID (I client)) (sub\<lparr>DeliveredOffset := off\<rparr>) ss else ss)"

definition recordDeliveredOffsets :: "(sptr \<Rightarrow> sessIdent) \<Rightarrow> hub \<Rightarrow> string \<Rightarrow> u64 \<Rightarrow> (sptr \<times> bool) list \<Rightarrow> hub" where
  "recordDeliveredOffsets I h ch off cl =
     (if IsWildcard ch \<or> cl = [] then h
      else let shard = subShard_of h ch
           in case mget (shard_subs shard) ch of
                None \<Rightarrow> h
              | Some ss \<Rightarrow>
                  set_subShard h ch (shard\<lparr>shard_subs := mput ch (raiseDelivered I off cl ss) (shard_subs shard)\<rparr>))"

section \<open>The subscriptions as a relation\<close>

definition exact :: "hub \<Rightarrow> string \<Rightarrow> (string, hubSubscriber) gomap" where
  "exact h ch = mzero [] (shard_subs (subShard_of h ch)) ch"

text \<open>The wildcard subscriptions as pairs of a pattern and a subscriber.\<close>

definition patterns :: "hub \<Rightarrow> (string \<times> hubSubscriber) set" where
  "patterns h = {(Topic t, Subscriber t) | key t. mget (wcSubs h) key = Some t}"

text \<open>
  The invariant of the subscriptions: entries are filed under the session they belong to, in the
  shard of their channel, and the trie holds exactly the patterns of the handles. The last clause
  says that no session holds two spellings of one pattern: the trie does not tell \<^verbatim>\<open>a.b\<close> from
  \<^verbatim>\<open>a:b\<close>.
\<close>

text \<open>The channels of namespaced sessions have exactly one colon (\<^verbatim>\<open>topics.NamespaceOf\<close> refuses others), which
  makes the keys of the wildcard handles unambiguous whatever the session identifiers are.\<close>

definition single_colon :: "string \<Rightarrow> bool" where
  "single_colon ch \<longleftrightarrow> splitNamespace ch \<noteq> None"

definition exact_inv :: "(sptr \<Rightarrow> sessIdent) \<Rightarrow> hub \<Rightarrow> bool" where
  "exact_inv I h \<longleftrightarrow> length (subShards h) = numHubShards \<and>
     (\<forall>i < numHubShards. mwf (shard_subs (subShards h ! i)) \<and>
        (\<forall>ch m. mget (shard_subs (subShards h ! i)) ch = Some m \<longrightarrow>
           hub_index ch numHubShards = i \<and> m \<noteq> [] \<and> mwf m \<and> \<not> IsWildcard ch \<and> validTopic ch \<and>
           (\<forall>uid s. mget m uid = Some s \<longrightarrow> uid = SessionID (I (sub_Session s)))))"

definition wc_inv :: "(sptr \<Rightarrow> sessIdent) \<Rightarrow> hub \<Rightarrow> bool" where
  "wc_inv I h \<longleftrightarrow> trie_inv (hub_matcher h) \<and> mwf (wcSubs h) \<and>
     subs_at (hub_matcher h) = subs_of (patterns h) \<and>
     (\<forall>key t. mget (wcSubs h) key = Some t \<longrightarrow>
        key = wcKey I (sub_Session (Subscriber t)) (Topic t) \<and> IsWildcard (Topic t) \<and> validTopic (Topic t) \<and>
        single_colon (Topic t)) \<and>
     (\<forall>key t key' t'. mget (wcSubs h) key = Some t \<longrightarrow> mget (wcSubs h) key' = Some t' \<longrightarrow>
        SplitSegments (Topic t) = SplitSegments (Topic t') \<longrightarrow> Subscriber t = Subscriber t' \<longrightarrow> key = key')"

lemma exact_set_subShard:
  assumes "length (subShards h) = numHubShards"
  shows "subShard_of (set_subShard h ch s) ch' =
    (if hub_index ch' numHubShards = hub_index ch numHubShards then s else subShard_of h ch')"
  using assms by (simp add: subShard_of_def set_subShard_def nth_list_update)

lemma exact_set_view:
  assumes "length (subShards h) = numHubShards"
    and "\<And>c. c \<noteq> ch \<Longrightarrow> mzero [] (shard_subs s) c = mzero [] (shard_subs (subShard_of h ch)) c"
  shows "exact (set_subShard h ch s) ch' = (if ch' = ch then mzero [] (shard_subs s) ch else exact h ch')"
proof (cases "hub_index ch' numHubShards = hub_index ch numHubShards")
  case True
  then have "subShard_of h ch' = subShard_of h ch" by (simp add: subShard_of_def)
  then show ?thesis using assms(2) [of ch'] True by (simp add: exact_def exact_set_subShard [OF assms(1)])
next
  case False
  then show ?thesis by (auto simp: exact_def exact_set_subShard [OF assms(1)])
qed

lemma set_subShard_frame [simp]:
  "hub_matcher (set_subShard h ch s) = hub_matcher h" "wcSubs (set_subShard h ch s) = wcSubs h"
  "hub_sessions (set_subShard h ch s) = hub_sessions h" "connShards (set_subShard h ch s) = connShards h"
  "maxConnsPerUser (set_subShard h ch s) = maxConnsPerUser h"
  by (simp_all add: set_subShard_def)

lemma exact_invD:
  assumes "exact_inv I h" "mget (shard_subs (subShard_of h ch)) ch = Some m"
  shows "m \<noteq> []" "mwf m" "\<not> IsWildcard ch" "validTopic ch" "mget m uid = Some s \<Longrightarrow> uid = SessionID (I (sub_Session s))"
  using assms unfolding exact_inv_def subShard_of_def by (metis hub_index_less)+

lemma exact_inv_set:
  assumes inv: "exact_inv I h" and s: "shard_subs s = upd (shard_subs (subShard_of h ch))"
    and wf: "mwf (upd (shard_subs (subShard_of h ch)))"
    and other: "\<And>ch'. ch' \<noteq> ch \<Longrightarrow>
      mget (upd (shard_subs (subShard_of h ch))) ch' = mget (shard_subs (subShard_of h ch)) ch'"
    and here: "\<And>m. mget (upd (shard_subs (subShard_of h ch))) ch = Some m \<Longrightarrow>
      m \<noteq> [] \<and> mwf m \<and> \<not> IsWildcard ch \<and> validTopic ch \<and>
      (\<forall>uid s. mget m uid = Some s \<longrightarrow> uid = SessionID (I (sub_Session s)))"
  shows "exact_inv I (set_subShard h ch s)"
proof -
  let ?j = "hub_index ch numHubShards"
  have len: "length (subShards h) = numHubShards" using inv by (simp add: exact_inv_def)
  have "mwf (shard_subs (subShards (set_subShard h ch s) ! i)) \<and>
      (\<forall>ch' m. mget (shard_subs (subShards (set_subShard h ch s) ! i)) ch' = Some m \<longrightarrow>
         hub_index ch' numHubShards = i \<and> m \<noteq> [] \<and> mwf m \<and> \<not> IsWildcard ch' \<and> validTopic ch' \<and>
         (\<forall>uid s. mget m uid = Some s \<longrightarrow> uid = SessionID (I (sub_Session s))))" if i: "i < numHubShards" for i
  proof (cases "i = ?j")
    case True
    then have si: "subShards (set_subShard h ch s) ! i = s" using len by (simp add: set_subShard_def)
    have "hub_index ch' numHubShards = i \<and> m \<noteq> [] \<and> mwf m \<and> \<not> IsWildcard ch' \<and> validTopic ch' \<and>
         (\<forall>uid s. mget m uid = Some s \<longrightarrow> uid = SessionID (I (sub_Session s)))"
      if "mget (shard_subs s) ch' = Some m" for ch' m
    proof (cases "ch' = ch")
      case True
      then show ?thesis using here that s \<open>i = ?j\<close> by simp
    next
      case False
      then have "mget (shard_subs (subShards h ! i)) ch' = Some m"
        using other that s \<open>i = ?j\<close> by (simp add: subShard_of_def)
      then show ?thesis using inv i unfolding exact_inv_def by blast
    qed
    then show ?thesis using si s wf by simp
  next
    case False
    then have "subShards (set_subShard h ch s) ! i = subShards h ! i"
      by (simp add: set_subShard_def)
    then show ?thesis using inv i unfolding exact_inv_def by simp
  qed
  moreover have "length (subShards (set_subShard h ch s)) = numHubShards" using len by (simp add: set_subShard_def)
  ultimately show ?thesis unfolding exact_inv_def by (intro conjI allI impI) simp_all
qed

lemma addSub_subs: "addSub I s ch sub = (s', b) \<Longrightarrow>
    shard_subs s' = mput ch (mput (SessionID (I (sub_Session sub))) sub (mzero [] (shard_subs s) ch)) (shard_subs s) \<and>
    (b \<longleftrightarrow> mget (shard_subs s) ch = None)"
  by (auto simp: addSub_def Let_def mzero_def split: if_splits)

lemma mdel_mput [simp]: "mdel k (mput k v m) = mdel k m"
  by (simp add: mdel_def mput_def delete_update_same)

lemma removeSub_absent:
  "mget (mzero [] (shard_subs s) ch) (SessionID (I c)) = None \<Longrightarrow> removeSub I s ch c = (s, True, False)"
  by (auto simp: removeSub_def Let_def mzero_def split: option.splits)

lemma removeSub_present:
  assumes "mget (shard_subs s) ch = Some m" "mget m (SessionID (I c)) = Some x" "removeSub I s ch c = (s', lst, rmd)"
  shows "rmd" "lst \<longleftrightarrow> mdel (SessionID (I c)) m = []"
    "shard_subs s' = (if lst then mdel ch (shard_subs s) else mput ch (mdel (SessionID (I c)) m) (shard_subs s))"
  using assms by (auto simp: removeSub_def Let_def split: if_splits)

lemma exact_inv_addSub:
  assumes inv: "exact_inv I h" and ch: "\<not> IsWildcard ch" "validTopic ch"
    and add: "addSub I (subShard_of h ch) ch sub = (s, b)"
  shows "exact_inv I (set_subShard h ch s)"
proof (rule exact_inv_set [OF inv])
  let ?uid = "SessionID (I (sub_Session sub))"
  let ?old = "mzero [] (shard_subs (subShard_of h ch)) ch"
  have old: "mwf ?old" "mget ?old uid = Some x \<Longrightarrow> uid = SessionID (I (sub_Session x))" for uid x
    using exact_invD(2,5) [OF inv, of ch] by (auto simp: mzero_def split: option.splits)
  have wf: "mwf (shard_subs (subShard_of h ch))" using inv by (simp add: exact_inv_def subShard_of_def)
  show "shard_subs s = mput ch (mput ?uid sub ?old) (shard_subs (subShard_of h ch))" using addSub_subs [OF add] by simp
  show "mwf (mput ch (mput ?uid sub ?old) (shard_subs (subShard_of h ch)))" using wf by simp
  show "mget (mput ch (mput ?uid sub ?old) (shard_subs (subShard_of h ch))) ch' = mget (shard_subs (subShard_of h ch)) ch'"
    if "ch' \<noteq> ch" for ch' using that by simp
  have "mput ?uid sub ?old \<noteq> []" by (cases ?old) (auto simp: mput_def)
  then show "m \<noteq> [] \<and> mwf m \<and> \<not> IsWildcard ch \<and> validTopic ch \<and>
      (\<forall>uid s. mget m uid = Some s \<longrightarrow> uid = SessionID (I (sub_Session s)))"
    if "mget (mput ch (mput ?uid sub ?old) (shard_subs (subShard_of h ch))) ch = Some m" for m
    using that ch old by (auto split: if_splits)
qed

lemma exact_inv_removeSub:
  assumes inv: "exact_inv I h" and rm: "removeSub I (subShard_of h ch) ch c = (s, lst, rmd)"
  shows "exact_inv I (set_subShard h ch s)"
proof (cases "mget (mzero [] (shard_subs (subShard_of h ch)) ch) (SessionID (I c))")
  case None
  then have "s = subShard_of h ch" using removeSub_absent [of "subShard_of h ch" ch I c, OF None] rm by simp
  then have "set_subShard h ch s = h" by (simp add: set_subShard_def subShard_of_def)
  then show ?thesis using inv by simp
next
  case (Some x)
  then obtain m where m: "mget (shard_subs (subShard_of h ch)) ch = Some m" "mget m (SessionID (I c)) = Some x"
    by (auto simp: mzero_def split: option.splits)
  note r = removeSub_present [OF m rm]
  note d = exact_invD [OF inv m(1)]
  have wf: "mwf (shard_subs (subShard_of h ch))" using inv by (simp add: exact_inv_def subShard_of_def)
  show ?thesis
  proof (rule exact_inv_set [OF inv])
    show "shard_subs s = (if lst then mdel ch (shard_subs (subShard_of h ch))
        else mput ch (mdel (SessionID (I c)) m) (shard_subs (subShard_of h ch)))" by (rule r(3))
    show "mwf (if lst then mdel ch (shard_subs (subShard_of h ch))
        else mput ch (mdel (SessionID (I c)) m) (shard_subs (subShard_of h ch)))" using wf by simp
    show "mget (if lst then mdel ch (shard_subs (subShard_of h ch))
        else mput ch (mdel (SessionID (I c)) m) (shard_subs (subShard_of h ch))) ch' =
        mget (shard_subs (subShard_of h ch)) ch'" if "ch' \<noteq> ch" for ch' using that by simp
    show "m' \<noteq> [] \<and> mwf m' \<and> \<not> IsWildcard ch \<and> validTopic ch \<and>
        (\<forall>uid s. mget m' uid = Some s \<longrightarrow> uid = SessionID (I (sub_Session s)))"
      if "mget (if lst then mdel ch (shard_subs (subShard_of h ch))
        else mput ch (mdel (SessionID (I c)) m) (shard_subs (subShard_of h ch))) ch = Some m'" for m'
      using that d r(2) by (auto split: if_splits)
  qed
qed

text \<open>How the operations change the view of the exact subscriptions.\<close>

lemma exact_addSub:
  assumes "exact_inv I h" "addSub I (subShard_of h ch) ch sub = (s, b)"
  shows "exact (set_subShard h ch s) ch' =
      (if ch' = ch then mput (SessionID (I (sub_Session sub))) sub (exact h ch) else exact h ch')"
    "b \<longleftrightarrow> exact h ch = []"
proof -
  have len: "length (subShards h) = numHubShards" using assms(1) by (simp add: exact_inv_def)
  show "exact (set_subShard h ch s) ch' =
      (if ch' = ch then mput (SessionID (I (sub_Session sub))) sub (exact h ch) else exact h ch')"
    using addSub_subs [OF assms(2)] by (subst exact_set_view [OF len]) (simp_all add: exact_def)
  show "b \<longleftrightarrow> exact h ch = []"
    using addSub_subs [OF assms(2)] exact_invD(1) [OF assms(1), of ch]
    by (cases "mget (shard_subs (subShard_of h ch)) ch") (auto simp: exact_def mzero_def)
qed

lemma exact_removeSub:
  assumes inv: "exact_inv I h" and rm: "removeSub I (subShard_of h ch) ch c = (s, lst, rmd)"
  shows "exact (set_subShard h ch s) ch' = (if ch' = ch then mdel (SessionID (I c)) (exact h ch) else exact h ch')"
    "rmd \<longleftrightarrow> mget (exact h ch) (SessionID (I c)) \<noteq> None"
    "rmd \<Longrightarrow> lst \<longleftrightarrow> mdel (SessionID (I c)) (exact h ch) = []"
proof -
  have len: "length (subShards h) = numHubShards" using inv by (simp add: exact_inv_def)
  have "exact (set_subShard h ch s) ch' = (if ch' = ch then mdel (SessionID (I c)) (exact h ch) else exact h ch') \<and>
    (rmd \<longleftrightarrow> mget (exact h ch) (SessionID (I c)) \<noteq> None) \<and>
    (rmd \<longrightarrow> (lst \<longleftrightarrow> mdel (SessionID (I c)) (exact h ch) = []))"
  proof (cases "mget (exact h ch) (SessionID (I c))")
    case None
    then have eq: "(s, lst, rmd) = (subShard_of h ch, True, False)"
      using removeSub_absent [of "subShard_of h ch" ch I c] rm by (simp add: exact_def)
    then have "set_subShard h ch s = h" by (simp add: set_subShard_def subShard_of_def)
    moreover have "mdel (SessionID (I c)) (exact h ch) = exact h ch"
      using None by (simp add: mdel_def mget_None_iff delete_idem)
    ultimately show ?thesis using eq None by simp
  next
    case (Some x)
    then obtain m where m: "mget (shard_subs (subShard_of h ch)) ch = Some m" "mget m (SessionID (I c)) = Some x"
      by (auto simp: exact_def mzero_def split: option.splits)
    note r = removeSub_present [OF m rm]
    have "exact h ch = m" using m by (simp add: exact_def mzero_def)
    moreover have "exact (set_subShard h ch s) ch' = (if ch' = ch then mdel (SessionID (I c)) m else exact h ch')"
      by (subst exact_set_view [OF len]) (use r in \<open>auto split: if_splits\<close>)
    ultimately show ?thesis using r(1,2) m(2) by simp
  qed
  then show "exact (set_subShard h ch s) ch' = (if ch' = ch then mdel (SessionID (I c)) (exact h ch) else exact h ch')"
    "rmd \<longleftrightarrow> mget (exact h ch) (SessionID (I c)) \<noteq> None"
    "rmd \<Longrightarrow> lst \<longleftrightarrow> mdel (SessionID (I c)) (exact h ch) = []" by blast+
qed

subsection \<open>Wildcard subscriptions\<close>

text \<open>The guard that keeps a session from holding two spellings of one pattern.\<close>

definition no_alias :: "hub \<Rightarrow> string \<Rightarrow> hubSubscriber \<Rightarrow> bool" where
  "no_alias h ch sub \<longleftrightarrow> (\<forall>t \<in> snd ` set (wcSubs h). sub_Session (Subscriber t) = sub_Session sub \<longrightarrow>
     SplitSegments (Topic t) = SplitSegments ch \<longrightarrow> Topic t = ch)"

lemma Subscribe_cases:
  assumes "Subscribe comparable t topic sub = Some r" "trie_inv t" "comparable sub"
  obtains (ok) t' where "r = Inr (t', Inr \<lparr>Topic = topic, Subscriber = sub\<rparr>)" "validTopic topic" "trie_inv t'"
      "subs_at t' = (subs_at t)(SplitSegments topic := insert sub (subs_at t (SplitSegments topic)))"
    | (bad) "r = Inr (t, Inl ErrBadTopic)" "\<not> validTopic topic"
proof (cases "validTopic topic")
  case True
  then obtain x where x: "subscribe_loop t (SplitSegments topic) sub = Some x"
    using assms by (auto simp: Subscribe_def validateSubscriber_def split: option.splits)
  obtain t' where t': "x = Inr t'" "trie_inv t'"
    "subs_at t' = (subs_at t)(SplitSegments topic := insert sub (subs_at t (SplitSegments topic)))"
    using subscribe_loop_partial [OF x assms(2)] by auto
  show ?thesis by (rule ok [of t']) (use assms x t' True in \<open>auto simp: Subscribe_def validateSubscriber_def\<close>)
next
  case False
  show ?thesis by (rule bad) (use assms False in \<open>auto simp: Subscribe_def validateSubscriber_def\<close>)
qed

lemma subs_of_insert: "subs_of (insert (topic, x) S) =
    (subs_of S)(SplitSegments topic := insert x (subs_of S (SplitSegments topic)))"
  by (auto simp: subs_of_def fun_eq_iff)

lemma patterns_mput: "mget (wcSubs h) key = None \<Longrightarrow>
    patterns (h\<lparr>hub_matcher := m, wcSubs := mput key t (wcSubs h)\<rparr>) = insert (Topic t, Subscriber t) (patterns h)"
proof (intro set_eqI iffI)
  assume new: "mget (wcSubs h) key = None"
  let ?h = "h\<lparr>hub_matcher := m, wcSubs := mput key t (wcSubs h)\<rparr>"
  fix p
  show "p \<in> insert (Topic t, Subscriber t) (patterns h)" if "p \<in> patterns ?h"
  proof -
    from that obtain k u where u: "mget (wcSubs ?h) k = Some u" "p = (Topic u, Subscriber u)"
      unfolding patterns_def by blast
    then show ?thesis by (cases "k = key") (auto simp: patterns_def)
  qed
  show "p \<in> patterns ?h" if ins: "p \<in> insert (Topic t, Subscriber t) (patterns h)"
  proof (cases "p = (Topic t, Subscriber t)")
    case True
    moreover have "mget (wcSubs ?h) key = Some t" by simp
    ultimately show ?thesis unfolding patterns_def by blast
  next
    case False
    then obtain k u where u: "mget (wcSubs h) k = Some u" "p = (Topic u, Subscriber u)"
      using ins unfolding patterns_def by blast
    then have "mget (wcSubs ?h) k = Some u" using new by auto
    then show ?thesis using u(2) unfolding patterns_def by blast
  qed
qed

lemma patterns_matcher [simp]: "patterns (h\<lparr>hub_matcher := m\<rparr>) = patterns h"
  by (simp add: patterns_def)

lemma wc_invI:
  assumes "trie_inv (hub_matcher h)" "mwf (wcSubs h)" "subs_at (hub_matcher h) = subs_of (patterns h)"
    and entry: "\<And>key t. mget (wcSubs h) key = Some t \<Longrightarrow>
      key = wcKey I (sub_Session (Subscriber t)) (Topic t) \<and> IsWildcard (Topic t) \<and> validTopic (Topic t) \<and>
      single_colon (Topic t)"
    and unique: "\<And>key t key' t'. mget (wcSubs h) key = Some t \<Longrightarrow> mget (wcSubs h) key' = Some t' \<Longrightarrow>
      SplitSegments (Topic t) = SplitSegments (Topic t') \<Longrightarrow> Subscriber t = Subscriber t' \<Longrightarrow> key = key'"
  shows "wc_inv I h"
  unfolding wc_inv_def using assms(1-3)
proof (intro conjI allI impI)
  fix key t
  assume t: "mget (wcSubs h) key = Some t"
  show "key = wcKey I (sub_Session (Subscriber t)) (Topic t)" "IsWildcard (Topic t)" "validTopic (Topic t)"
    "single_colon (Topic t)"
    using entry [OF t] by blast+
next
  fix key t key' t'
  assume "mget (wcSubs h) key = Some t" "mget (wcSubs h) key' = Some t'"
    "SplitSegments (Topic t) = SplitSegments (Topic t')" "Subscriber t = Subscriber t'"
  then show "key = key'" by (rule unique)
qed

lemma wc_inv_entry:
  assumes "wc_inv I h" "mget (wcSubs h) key = Some t"
  shows "key = wcKey I (sub_Session (Subscriber t)) (Topic t)" "IsWildcard (Topic t)" "validTopic (Topic t)"
    "single_colon (Topic t)"
  using assms unfolding wc_inv_def by blast+

lemma wc_inv_unique:
  assumes "wc_inv I h" "mget (wcSubs h) key = Some t" "mget (wcSubs h) key' = Some t'"
    "SplitSegments (Topic t) = SplitSegments (Topic t')" "Subscriber t = Subscriber t'"
  shows "key = key'"
  using assms unfolding wc_inv_def by blast

lemma wc_inv_add:
  assumes inv: "wc_inv I h" and wild: "IsWildcard ch" and ali: "no_alias h ch sub"
    and new: "mget (wcSubs h) (wcKey I (sub_Session sub) ch) = None" and valid: "validTopic ch" "single_colon ch" and m: "trie_inv m"
    "subs_at m = (subs_at (hub_matcher h))(SplitSegments ch := insert sub (subs_at (hub_matcher h) (SplitSegments ch)))"
  shows "wc_inv I (h\<lparr>hub_matcher := m, wcSubs := mput (wcKey I (sub_Session sub) ch) \<lparr>Topic = ch, Subscriber = sub\<rparr> (wcSubs h)\<rparr>)"
    (is "wc_inv I ?h")
proof -
  let ?key = "wcKey I (sub_Session sub) ch"
  have pat: "patterns ?h = insert (ch, sub) (patterns h)" using patterns_mput [OF new] by simp
  have tr: "subs_at m = subs_of (patterns ?h)"
    unfolding pat subs_of_insert m(2) using inv by (simp add: wc_inv_def)
  have entry: "key = wcKey I (sub_Session (Subscriber t)) (Topic t) \<and> IsWildcard (Topic t) \<and> validTopic (Topic t) \<and>
      single_colon (Topic t)"
    if "mget (wcSubs ?h) key = Some t" for key t
    using that wc_inv_entry [OF inv, of key t] wild valid by (auto split: if_splits)
  have own: "key = ?key"
    if t: "mget (wcSubs h) key = Some t" "SplitSegments (Topic t) = SplitSegments ch" "Subscriber t = sub" for key t
  proof -
    have "t \<in> snd ` set (wcSubs h)" using mget_in_set [OF t(1)] by force
    then have "Topic t = ch" using ali t(2,3) unfolding no_alias_def by blast
    then show ?thesis using wc_inv_entry(1) [OF inv t(1)] t(3) by simp
  qed
  have unique: "key = key'"
    if "mget (wcSubs ?h) key = Some t" "mget (wcSubs ?h) key' = Some t'"
      "SplitSegments (Topic t) = SplitSegments (Topic t')" "Subscriber t = Subscriber t'" for key t key' t'
  proof (cases "key = ?key")
    case True
    then have "t = \<lparr>Topic = ch, Subscriber = sub\<rparr>" using that(1) by simp
    then show ?thesis using own [of key' t'] that True by (auto split: if_splits)
  next
    case False
    then have t: "mget (wcSubs h) key = Some t" using that(1) by simp
    show ?thesis
    proof (cases "key' = ?key")
      case True
      then have "t' = \<lparr>Topic = ch, Subscriber = sub\<rparr>" using that(2) by simp
      then show ?thesis using own [of key t] t that True by simp
    next
      case False
      then show ?thesis using wc_inv_unique [OF inv t, of key' t'] that by simp
    qed
  qed
  have h: "trie_inv (hub_matcher ?h)" "mwf (wcSubs ?h)" "subs_at (hub_matcher ?h) = subs_of (patterns ?h)"
    using inv m(1) tr by (simp_all add: wc_inv_def)
  show ?thesis by (rule wc_invI [OF h entry unique])
qed

lemma subs_of_delete:
  assumes inv: "wc_inv I h" and t: "mget (wcSubs h) key = Some t"
  shows "subs_of (patterns (h\<lparr>hub_matcher := m, wcSubs := mdel key (wcSubs h)\<rparr>)) = (subs_of (patterns h))
    (SplitSegments (Topic t) := subs_of (patterns h) (SplitSegments (Topic t)) - {Subscriber t})" (is "subs_of (patterns ?h) = _")
proof (rule ext)
  fix q
  have mem: "x \<in> subs_of (patterns g) q \<longleftrightarrow>
      (\<exists>k u. mget (wcSubs g) k = Some u \<and> SplitSegments (Topic u) = q \<and> Subscriber u = x)" for x g
    by (auto simp: subs_of_def patterns_def)
  have "x \<in> subs_of (patterns ?h) q \<longleftrightarrow>
      x \<in> subs_of (patterns h) q \<and> \<not> (q = SplitSegments (Topic t) \<and> x = Subscriber t)" for x
  proof
    assume "x \<in> subs_of (patterns ?h) q"
    then obtain k u where u: "k \<noteq> key" "mget (wcSubs h) k = Some u" "SplitSegments (Topic u) = q" "Subscriber u = x"
      unfolding mem by (auto split: if_splits)
    then show "x \<in> subs_of (patterns h) q \<and> \<not> (q = SplitSegments (Topic t) \<and> x = Subscriber t)"
      unfolding mem using wc_inv_unique [OF inv u(2) t] by auto
  next
    assume x: "x \<in> subs_of (patterns h) q \<and> \<not> (q = SplitSegments (Topic t) \<and> x = Subscriber t)"
    then obtain k u where u: "mget (wcSubs h) k = Some u" "SplitSegments (Topic u) = q" "Subscriber u = x"
      unfolding mem by auto
    then have "k \<noteq> key" using x t by auto
    then show "x \<in> subs_of (patterns ?h) q" unfolding mem using u by auto
  qed
  then show "subs_of (patterns ?h) q = ((subs_of (patterns h))
    (SplitSegments (Topic t) := subs_of (patterns h) (SplitSegments (Topic t)) - {Subscriber t})) q" by auto
qed

lemma wc_inv_remove:
  assumes inv: "wc_inv I h" and t: "mget (wcSubs h) key = Some t" and m: "trie_inv m"
    "subs_at m = (subs_at (hub_matcher h))
       (SplitSegments (Topic t) := subs_at (hub_matcher h) (SplitSegments (Topic t)) - {Subscriber t})"
  shows "wc_inv I (h\<lparr>hub_matcher := m, wcSubs := mdel key (wcSubs h)\<rparr>)" (is "wc_inv I ?h")
proof -
  have tr: "subs_at m = subs_of (patterns ?h)"
    unfolding subs_of_delete [OF inv t] m(2) using inv by (simp add: wc_inv_def)
  have old: "mget (wcSubs h) k = Some u" if "mget (wcSubs ?h) k = Some u" for k u
    using that by (simp split: if_splits)
  have entry: "k = wcKey I (sub_Session (Subscriber u)) (Topic u) \<and> IsWildcard (Topic u) \<and> validTopic (Topic u) \<and>
      single_colon (Topic u)"
    if "mget (wcSubs ?h) k = Some u" for k u
    using wc_inv_entry [OF inv old [OF that]] by simp
  have unique: "k = k'" if "mget (wcSubs ?h) k = Some u" "mget (wcSubs ?h) k' = Some u'"
      "SplitSegments (Topic u) = SplitSegments (Topic u')" "Subscriber u = Subscriber u'" for k u k' u'
    using wc_inv_unique [OF inv old [OF that(1)] old [OF that(2)] that(3,4)] .
  have h: "trie_inv (hub_matcher ?h)" "mwf (wcSubs ?h)" "subs_at (hub_matcher ?h) = subs_of (patterns ?h)"
    using inv m(1) tr by (simp_all add: wc_inv_def)
  show ?thesis by (rule wc_invI [OF h entry unique])
qed

subsection \<open>The live subscriptions\<close>

definition sub_inv :: "(sptr \<Rightarrow> sessIdent) \<Rightarrow> hub \<Rightarrow> bool" where
  "sub_inv I h \<longleftrightarrow> exact_inv I h \<and> wc_inv I h"

definition live_subs :: "(sptr \<Rightarrow> sessIdent) \<Rightarrow> hub \<Rightarrow> (string \<times> string) set" where
  "live_subs I h = {(sid, ch). mget (exact h ch) sid \<noteq> None} \<union>
     (\<lambda>(pattern, s). (SessionID (I (sub_Session s)), pattern)) ` patterns h"

lemma single_colonE:
  assumes "single_colon x"
  obtains a b where "x = a @ CHR '':'' # b" "CHR '':'' \<notin> set a" "CHR '':'' \<notin> set b"
proof -
  obtain a b where "splitNamespace x = Some (a, b)" using assms by (auto simp: single_colon_def)
  then show thesis using that by (simp add: splitNamespace_Some)
qed

lemma wcKey_inject:
  assumes "single_colon x" "single_colon y"
  shows "wcKey I p x = wcKey I q y \<longleftrightarrow> SessionID (I p) = SessionID (I q) \<and> x = y"
proof
  assume eq: "wcKey I p x = wcKey I q y"
  obtain a b where x: "x = a @ CHR '':'' # b" "CHR '':'' \<notin> set a" "CHR '':'' \<notin> set b"
    by (rule single_colonE [OF assms(1)])
  obtain c d where y: "y = c @ CHR '':'' # d" "CHR '':'' \<notin> set c" "CHR '':'' \<notin> set d"
    by (rule single_colonE [OF assms(2)])
  have t: "takeWhile (\<lambda>c. c \<noteq> CHR '':'') (u @ CHR '':'' # v) = u" if "CHR '':'' \<notin> set u" for u v
    using that by (auto simp: takeWhile_append)
  have "rev b @ CHR '':'' # rev a @ CHR '':'' # rev (SessionID (I p)) = rev d @ CHR '':'' # rev c @ CHR '':'' # rev (SessionID (I q))"
    using arg_cong [OF eq, of rev] x(1) y(1) by (simp add: wcKey_def)
  moreover from this have "rev b = rev d" using t [of "rev b"] t [of "rev d"] x(3) y(3) by (metis set_rev)
  ultimately have r: "rev a @ CHR '':'' # rev (SessionID (I p)) = rev c @ CHR '':'' # rev (SessionID (I q))" "b = d" by simp_all
  then have "rev a = rev c" using t [of "rev a"] t [of "rev c"] x(2) y(2) by (metis set_rev)
  then show "SessionID (I p) = SessionID (I q) \<and> x = y" using r x(1) y(1) by simp
qed (simp add: wcKey_def)

lemma live_pattern:
  assumes "wc_inv I h" "single_colon ch" "IsWildcard ch" "exact_inv I h"
  shows "(SessionID (I c), ch) \<in> live_subs I h \<longleftrightarrow> mget (wcSubs h) (wcKey I c ch) \<noteq> None"
proof -
  have no: "mget (exact h ch) sid = None" for sid
    using exact_invD(3) [OF assms(4), of ch] assms(3)
    by (cases "mget (shard_subs (subShard_of h ch)) ch") (auto simp: exact_def mzero_def)
  have "(SessionID (I c), ch) \<in> live_subs I h \<longleftrightarrow>
      (\<exists>key t. mget (wcSubs h) key = Some t \<and> SessionID (I (sub_Session (Subscriber t))) = SessionID (I c) \<and> Topic t = ch)"
  proof
    assume "(SessionID (I c), ch) \<in> live_subs I h"
    then obtain x where x: "(ch, x) \<in> patterns h" "SessionID (I c) = SessionID (I (sub_Session x))"
      using no by (auto simp: live_subs_def)
    then obtain key t where "mget (wcSubs h) key = Some t" "Topic t = ch" "Subscriber t = x"
      unfolding patterns_def by blast
    then show "\<exists>key t. mget (wcSubs h) key = Some t \<and> SessionID (I (sub_Session (Subscriber t))) = SessionID (I c) \<and> Topic t = ch"
      using x(2) by metis
  next
    assume "\<exists>key t. mget (wcSubs h) key = Some t \<and> SessionID (I (sub_Session (Subscriber t))) = SessionID (I c) \<and> Topic t = ch"
    then obtain key t where t: "mget (wcSubs h) key = Some t" "SessionID (I (sub_Session (Subscriber t))) = SessionID (I c)" "Topic t = ch"
      by blast
    then have "(ch, Subscriber t) \<in> patterns h" unfolding patterns_def by blast
    then show "(SessionID (I c), ch) \<in> live_subs I h" using t(2) by (force simp: live_subs_def)
  qed
  also have "\<dots> \<longleftrightarrow> (\<exists>key t. mget (wcSubs h) key = Some t \<and> key = wcKey I c ch)"
  proof -
    have "key = wcKey I c ch \<longleftrightarrow> SessionID (I (sub_Session (Subscriber t))) = SessionID (I c) \<and> Topic t = ch"
      if "mget (wcSubs h) key = Some t" for key t
      using wc_inv_entry(1) [OF assms(1) that] wcKey_inject [OF wc_inv_entry(4) [OF assms(1) that] assms(2)] by simp
    then show ?thesis by blast
  qed
  finally show ?thesis by auto
qed

lemma patterns_wild:
  assumes "wc_inv I h" "(p, s) \<in> patterns h"
  shows "IsWildcard p" "validTopic p"
  using assms wc_inv_entry(2,3) [OF assms(1)] unfolding patterns_def by blast+

lemma AddSub_exact:
  assumes inv: "sub_inv I h" and ch: "\<not> IsWildcard ch" "validTopic ch"
  shows "\<exists>h'. AddSub I h ch sub = goret (h', exact h ch = [], None) \<and> sub_inv I h' \<and>
    (\<forall>ch'. exact h' ch' = (if ch' = ch then mput (SessionID (I (sub_Session sub))) sub (exact h ch) else exact h ch')) \<and>
    wcSubs h' = wcSubs h \<and> hub_matcher h' = hub_matcher h \<and> patterns h' = patterns h \<and>
    live_subs I h' = insert (SessionID (I (sub_Session sub)), ch) (live_subs I h)"
proof -
  obtain s b where a: "addSub I (subShard_of h ch) ch sub = (s, b)" by (cases "addSub I (subShard_of h ch) ch sub")
  have e: "exact_inv I h" using inv by (simp add: sub_inv_def)
  note v = exact_addSub [OF e a]
  have pat: "patterns (set_subShard h ch s) = patterns h" by (simp add: patterns_def)
  have "wc_inv I (set_subShard h ch s)" using inv by (simp add: wc_inv_def sub_inv_def pat)
  then have "sub_inv I (set_subShard h ch s)" using exact_inv_addSub [OF e ch a] by (simp add: sub_inv_def)
  moreover have "live_subs I (set_subShard h ch s) = insert (SessionID (I (sub_Session sub)), ch) (live_subs I h)"
    unfolding live_subs_def pat v(1) by auto
  ultimately show ?thesis using a ch v pat
    by (intro exI [of _ "set_subShard h ch s"]) (simp add: AddSub_def ValidateTopic_def)
qed

lemma AddSub_invalid:
  assumes "sub_inv I h" "\<not> IsWildcard ch" "\<not> validTopic ch"
  shows "AddSub I h ch sub = goret (h, False, Some ErrBadTopic)"
  using assms by (simp add: AddSub_def ValidateTopic_def)

lemma AddSub_wildcard:
  assumes inv: "sub_inv I h" and ch: "IsWildcard ch" and ali: "no_alias h ch sub" and ids: "single_colon ch"
    and run: "AddSub I h ch sub = Some r"
  obtains (present) "r = Inr (h, False, None)" "(SessionID (I (sub_Session sub)), ch) \<in> live_subs I h"
      "mget (wcSubs h) (wcKey I (sub_Session sub) ch) \<noteq> None"
    | (bad) "r = Inr (h, False, Some ErrBadTopic)" "\<not> validTopic ch"
    | (added) m where "r = Inr (h\<lparr>hub_matcher := m, wcSubs := mput (wcKey I (sub_Session sub) ch) \<lparr>Topic = ch, Subscriber = sub\<rparr> (wcSubs h)\<rparr>, True, None)"
      "mget (wcSubs h) (wcKey I (sub_Session sub) ch) = None" "validTopic ch"
      "sub_inv I (h\<lparr>hub_matcher := m, wcSubs := mput (wcKey I (sub_Session sub) ch) \<lparr>Topic = ch, Subscriber = sub\<rparr> (wcSubs h)\<rparr>)"
      "live_subs I (h\<lparr>hub_matcher := m, wcSubs := mput (wcKey I (sub_Session sub) ch) \<lparr>Topic = ch, Subscriber = sub\<rparr> (wcSubs h)\<rparr>) =
        insert (SessionID (I (sub_Session sub)), ch) (live_subs I h)"
      "subs_at m = (subs_at (hub_matcher h))(SplitSegments ch := insert sub (subs_at (hub_matcher h) (SplitSegments ch)))"
proof -
  let ?key = "wcKey I (sub_Session sub) ch"
  have e: "exact_inv I h" and w: "wc_inv I h" using inv by (simp_all add: sub_inv_def)
  show ?thesis
  proof (cases "mget (wcSubs h) ?key")
    case (Some t)
    show ?thesis
    proof (rule present)
      show "r = Inr (h, False, None)" using run Some ch by (simp add: AddSub_def addWildcardSub_def goret_def)
      show "mget (wcSubs h) ?key \<noteq> None" using Some by simp
      then show "(SessionID (I (sub_Session sub)), ch) \<in> live_subs I h"
        using live_pattern [OF w ids ch e, of "sub_Session sub"] by blast
    qed
  next
    case None
    obtain x where x: "Subscribe comparable_sub (hub_matcher h) ch sub = Some x"
      using run ch None by (auto simp: AddSub_def addWildcardSub_def Let_def gobind_def split: option.splits)
    have tr: "trie_inv (hub_matcher h)" using w by (simp add: wc_inv_def)
    show ?thesis
    proof (rule Subscribe_cases [OF x tr])
      show "comparable_sub sub" by (simp add: comparable_sub_def)
      fix m
      assume m: "x = Inr (m, Inr \<lparr>Topic = ch, Subscriber = sub\<rparr>)" "validTopic ch" "trie_inv m"
        "subs_at m = (subs_at (hub_matcher h))(SplitSegments ch := insert sub (subs_at (hub_matcher h) (SplitSegments ch)))"
      let ?h = "h\<lparr>hub_matcher := m, wcSubs := mput ?key \<lparr>Topic = ch, Subscriber = sub\<rparr> (wcSubs h)\<rparr>"
      have ex: "exact ?h = exact h" by (simp add: exact_def fun_eq_iff subShard_of_def)
      have pat: "patterns ?h = insert (ch, sub) (patterns h)" using patterns_mput [OF None] by simp
      show thesis
      proof (rule added [of m])
        show "r = Inr (?h, True, None)"
          using run ch None x m(1) by (simp add: AddSub_def addWildcardSub_def Let_def gobind_def goret_def)
        show "sub_inv I ?h"
          using wc_inv_add [OF w ch ali None m(2) ids m(3,4)] e by (simp add: sub_inv_def exact_inv_def)
        show "live_subs I ?h = insert (SessionID (I (sub_Session sub)), ch) (live_subs I h)"
          unfolding live_subs_def ex pat by auto
      qed (use m None in simp_all)
    next
      assume "x = Inr (hub_matcher h, Inl ErrBadTopic)" "\<not> validTopic ch"
      then show thesis using run ch None x
        by (intro bad) (simp_all add: AddSub_def addWildcardSub_def Let_def gobind_def goret_def)
    qed
  qed
qed

lemma RemoveSub_exact:
  assumes inv: "sub_inv I h" and ch: "\<not> IsWildcard ch"
  shows "\<exists>h' lst. RemoveSub I h ch c = goret (h', lst, mget (exact h ch) (SessionID (I c)) \<noteq> None) \<and> sub_inv I h' \<and>
    (mget (exact h ch) (SessionID (I c)) \<noteq> None \<longrightarrow> (lst \<longleftrightarrow> mdel (SessionID (I c)) (exact h ch) = [])) \<and>
    (\<forall>ch'. exact h' ch' = (if ch' = ch then mdel (SessionID (I c)) (exact h ch) else exact h ch')) \<and>
    wcSubs h' = wcSubs h \<and> hub_matcher h' = hub_matcher h \<and> patterns h' = patterns h \<and>
    live_subs I h' = live_subs I h - {(SessionID (I c), ch)}"
proof -
  obtain s lst rmd where a: "removeSub I (subShard_of h ch) ch c = (s, lst, rmd)"
    by (cases "removeSub I (subShard_of h ch) ch c")
  have e: "exact_inv I h" and w: "wc_inv I h" using inv by (simp_all add: sub_inv_def)
  note v = exact_removeSub [OF e a]
  have pat: "patterns (set_subShard h ch s) = patterns h" by (simp add: patterns_def)
  have "wc_inv I (set_subShard h ch s)" using w by (simp add: wc_inv_def pat)
  then have "sub_inv I (set_subShard h ch s)" using exact_inv_removeSub [OF e a] by (simp add: sub_inv_def)
  moreover have "(ch, x) \<notin> patterns h" for x
    using patterns_wild(1) [OF w, of ch x] ch by auto
  then have "live_subs I (set_subShard h ch s) = live_subs I h - {(SessionID (I c), ch)}"
    unfolding live_subs_def pat v(1) by (auto split: if_splits)
  ultimately show ?thesis using a ch v pat
    by (intro exI [of _ "set_subShard h ch s"] exI [of _ lst]) (simp add: RemoveSub_def)
qed

lemma live_subs_delete:
  assumes inv: "sub_inv I h" and ch: "IsWildcard ch" and ids: "single_colon ch"
    and inv': "sub_inv I (h\<lparr>hub_matcher := m, wcSubs := mdel (wcKey I c ch) (wcSubs h)\<rparr>)"
  shows "live_subs I (h\<lparr>hub_matcher := m, wcSubs := mdel (wcKey I c ch) (wcSubs h)\<rparr>) =
    live_subs I h - {(SessionID (I c), ch)}"
proof (intro equalityI subsetI)
  have w: "wc_inv I h" using inv by (simp add: sub_inv_def)
  let ?h = "h\<lparr>hub_matcher := m, wcSubs := mdel (wcKey I c ch) (wcSubs h)\<rparr>"
  have ex: "exact ?h = exact h" by (simp add: exact_def fun_eq_iff subShard_of_def)
  have sub: "patterns ?h \<subseteq> patterns h"
  proof
    fix p assume "p \<in> patterns ?h"
    then obtain k u where "mget (wcSubs ?h) k = Some u" "p = (Topic u, Subscriber u)" unfolding patterns_def by blast
    then have "mget (wcSubs h) k = Some u" "p = (Topic u, Subscriber u)" by (simp_all split: if_splits)
    then show "p \<in> patterns h" unfolding patterns_def by blast
  qed
  fix p
  show "p \<in> live_subs I h - {(SessionID (I c), ch)}" if "p \<in> live_subs I ?h"
  proof -
    have "p \<in> live_subs I h" using that sub unfolding live_subs_def ex by blast
    moreover have "(SessionID (I c), ch) \<notin> live_subs I ?h"
      using live_pattern [of I ?h ch c] inv' ids ch by (simp add: sub_inv_def)
    ultimately show ?thesis using that by auto
  qed
  obtain sid ch' where p: "p = (sid, ch')" by (cases p)
  show "p \<in> live_subs I ?h" if l: "p \<in> live_subs I h - {(SessionID (I c), ch)}"
  proof (cases "mget (exact h ch') sid \<noteq> None")
    case True
    then show ?thesis unfolding live_subs_def ex p by blast
  next
    case False
    then obtain x where x: "(ch', x) \<in> patterns h" "sid = SessionID (I (sub_Session x))"
      using l p by (auto simp: live_subs_def)
    then obtain k u where u: "mget (wcSubs h) k = Some u" "Topic u = ch'" "Subscriber u = x" unfolding patterns_def by blast
    have "k \<noteq> wcKey I c ch" using wc_inv_entry(1) [OF w u(1)] wcKey_inject [OF wc_inv_entry(4) [OF w u(1)] ids] u x(2) l p by auto
    then have "mget (wcSubs ?h) k = Some u" using u(1) by simp
    then have "(ch', x) \<in> patterns ?h" using u unfolding patterns_def by blast
    then show ?thesis using x(2) p unfolding live_subs_def by force
  qed
qed

lemma RemoveSub_wildcard:
  assumes inv: "sub_inv I h" and ch: "IsWildcard ch" and ids: "single_colon ch" and run: "RemoveSub I h ch c = Some r"
  obtains (absent) "r = Inr (h, True, False)" "mget (wcSubs h) (wcKey I c ch) = None" "(SessionID (I c), ch) \<notin> live_subs I h"
    | (present) m t where "r = Inr (h\<lparr>hub_matcher := m, wcSubs := mdel (wcKey I c ch) (wcSubs h)\<rparr>, True, True)"
      "mget (wcSubs h) (wcKey I c ch) = Some t" "(SessionID (I c), ch) \<in> live_subs I h"
      "sub_inv I (h\<lparr>hub_matcher := m, wcSubs := mdel (wcKey I c ch) (wcSubs h)\<rparr>)"
      "live_subs I (h\<lparr>hub_matcher := m, wcSubs := mdel (wcKey I c ch) (wcSubs h)\<rparr>) = live_subs I h - {(SessionID (I c), ch)}"
      "subs_at m = (subs_at (hub_matcher h))(SplitSegments ch := subs_at (hub_matcher h) (SplitSegments ch) - {Subscriber t})"
proof -
  let ?key = "wcKey I c ch"
  have e: "exact_inv I h" and w: "wc_inv I h" using inv by (simp_all add: sub_inv_def)
  note live = live_pattern [OF w ids ch e, of c]
  show ?thesis
  proof (cases "mget (wcSubs h) ?key")
    case None
    then show ?thesis using run ch live
      by (intro absent) (simp_all add: RemoveSub_def removeWildcardSub_def goret_def)
  next
    case (Some t)
    obtain x where x: "Unsubscribe (hub_matcher h) (Some t) = Some x"
      using run ch Some by (auto simp: RemoveSub_def removeWildcardSub_def Let_def gobind_def split: option.splits)
    have tr: "trie_inv (hub_matcher h)" using w by (simp add: wc_inv_def)
    obtain m where m: "x = Inr m" "trie_inv m" "subs_at m = (subs_at (hub_matcher h))
        (SplitSegments (Topic t) := subs_at (hub_matcher h) (SplitSegments (Topic t)) - {Subscriber t})"
      using Unsubscribe_partial [OF x tr] by auto
    let ?h = "h\<lparr>hub_matcher := m, wcSubs := mdel ?key (wcSubs h)\<rparr>"
    have top: "Topic t = ch" using wc_inv_entry(1) [OF w Some] wcKey_inject [OF wc_inv_entry(4) [OF w Some] ids] by metis
    have inv': "sub_inv I ?h" using wc_inv_remove [OF w Some m(2,3)] e by (simp add: sub_inv_def exact_inv_def)
    have "live_subs I ?h = live_subs I h - {(SessionID (I c), ch)}" by (rule live_subs_delete [OF inv ch ids inv'])
    then show ?thesis using run ch Some x m live top inv'
      by (intro present) (simp_all add: RemoveSub_def removeWildcardSub_def Let_def gobind_def goret_def)
  qed
qed

subsection \<open>Whom a publication reaches\<close>

lemma enter_sessions_wf [simp]: "mwf m \<Longrightarrow> mwf (enter_sessions I cs m)"
  by (induction cs arbitrary: m) auto

lemma enter_sessions_get: "mget (enter_sessions I cs m) sid = Some p \<Longrightarrow>
    (p \<in> set cs \<and> SessionID (I p) = sid) \<or> mget m sid = Some p"
  by (induction cs arbitrary: m) (fastforce split: if_splits)+

lemma enter_sessions_keys: "fst ` set (enter_sessions I cs m) = (\<lambda>p. SessionID (I p)) ` set cs \<union> fst ` set m"
  by (induction cs arbitrary: m) (auto simp: keys_mput)

lemma sub_inv_matcher:
  assumes "sub_inv I h" "trie_inv m" "subs_at m = subs_at (hub_matcher h)"
  shows "sub_inv I (h\<lparr>hub_matcher := m\<rparr>)" "live_subs I (h\<lparr>hub_matcher := m\<rparr>) = live_subs I h"
proof -
  show "sub_inv I (h\<lparr>hub_matcher := m\<rparr>)" using assms by (simp add: sub_inv_def exact_inv_def wc_inv_def)
  have "exact (h\<lparr>hub_matcher := m\<rparr>) = exact h" by (simp add: exact_def fun_eq_iff subShard_of_def)
  then show "live_subs I (h\<lparr>hub_matcher := m\<rparr>) = live_subs I h" by (simp add: live_subs_def)
qed

lemma set_GetSubscribers:
  assumes "sub_inv I h"
  shows "set (GetSubscribers h ch) = {sub_Session s | s uid. mget (exact h ch) uid = Some s}"
proof (cases "mget (shard_subs (subShard_of h ch)) ch")
  case None
  then show ?thesis by (simp add: GetSubscribers_def exact_def mzero_def)
next
  case (Some m)
  then have "mwf m" using exact_invD(2) [of I h ch m] assms by (simp add: sub_inv_def)
  then have "{sub_Session s | s uid. mget m uid = Some s} = sub_Session ` snd ` set m"
    by (force simp: mget_iff_set)
  then show ?thesis using Some by (auto simp: GetSubscribers_def exact_def mzero_def image_image case_prod_unfold)
qed

lemma live_iff: "(sid, key) \<in> live_subs I h \<longleftrightarrow> (\<exists>s. mget (exact h key) sid = Some s) \<or>
    (\<exists>x. (key, x) \<in> patterns h \<and> sid = SessionID (I (sub_Session x)))"
  by (force simp: live_subs_def)

text \<open>The identifiers of the sessions with a subscription that is the channel or a pattern matching it.\<close>

definition covered :: "(string \<times> string) set \<Rightarrow> string \<Rightarrow> string set" where
  "covered S ch = {sid. \<exists>key. (sid, key) \<in> S \<and> (key = ch \<and> \<not> IsWildcard key \<or> IsWildcard key \<and> Match key ch)}"

lemma covered_live:
  assumes "sub_inv I h" "\<not> IsWildcard ch"
  shows "covered (live_subs I h) ch = (\<lambda>p. SessionID (I p)) ` set (GetSubscribers h ch) \<union>
    (\<lambda>s. SessionID (I (sub_Session s))) ` {x. \<exists>pattern. (pattern, x) \<in> patterns h \<and> Match pattern ch}"
proof -
  have e: "exact_inv I h" and w: "wc_inv I h" using assms(1) by (simp_all add: sub_inv_def)
  have ex: "\<not> IsWildcard key \<and> uid = SessionID (I (sub_Session s))" if "mget (exact h key) uid = Some s" for key uid s
  proof (cases "mget (shard_subs (subShard_of h key)) key")
    case (Some m)
    then show ?thesis using exact_invD(3,5) [OF e Some] that by (simp add: exact_def mzero_def)
  qed (use that in \<open>simp add: exact_def mzero_def\<close>)
  have wild: "(pat, s) \<in> patterns h \<Longrightarrow> IsWildcard pat" for pat s using patterns_wild(1) [OF w] by blast
  have "sid \<in> covered (live_subs I h) ch \<longleftrightarrow> (\<exists>s uid. mget (exact h ch) uid = Some s \<and> sid = SessionID (I (sub_Session s))) \<or>
      (\<exists>pat x. (pat, x) \<in> patterns h \<and> Match pat ch \<and> sid = SessionID (I (sub_Session x)))" for sid
  proof
    assume "sid \<in> covered (live_subs I h) ch"
    then obtain key where key: "(sid, key) \<in> live_subs I h" "key = ch \<and> \<not> IsWildcard key \<or> IsWildcard key \<and> Match key ch"
      by (auto simp: covered_def)
    then show "(\<exists>s uid. mget (exact h ch) uid = Some s \<and> sid = SessionID (I (sub_Session s))) \<or>
      (\<exists>pat x. (pat, x) \<in> patterns h \<and> Match pat ch \<and> sid = SessionID (I (sub_Session x)))"
      unfolding live_iff using ex wild by blast
  next
    assume "(\<exists>s uid. mget (exact h ch) uid = Some s \<and> sid = SessionID (I (sub_Session s))) \<or>
      (\<exists>pat x. (pat, x) \<in> patterns h \<and> Match pat ch \<and> sid = SessionID (I (sub_Session x)))"
    then show "sid \<in> covered (live_subs I h) ch"
    proof
      assume "\<exists>s uid. mget (exact h ch) uid = Some s \<and> sid = SessionID (I (sub_Session s))"
      then obtain s where "mget (exact h ch) sid = Some s" using ex by blast
      then show ?thesis using assms(2) unfolding covered_def live_iff by blast
    qed (use wild in \<open>unfold covered_def live_iff, blast\<close>)
  qed
  then have "covered (live_subs I h) ch = {sid. (\<exists>s uid. mget (exact h ch) uid = Some s \<and> sid = SessionID (I (sub_Session s))) \<or>
      (\<exists>pat x. (pat, x) \<in> patterns h \<and> Match pat ch \<and> sid = SessionID (I (sub_Session x)))}" by blast
  also have "\<dots> = (\<lambda>p. SessionID (I p)) ` {sub_Session s | s uid. mget (exact h ch) uid = Some s} \<union>
    (\<lambda>s. SessionID (I (sub_Session s))) ` {x. \<exists>pattern. (pattern, x) \<in> patterns h \<and> Match pattern ch}" by auto
  finally show ?thesis by (simp only: set_GetSubscribers [OF assms(1)])
qed

lemma mergeMatching_spec:
  assumes inv: "sub_inv I h" and ch: "\<not> IsWildcard ch" and run: "mergeMatchingSubscribers I h ch = Some r"
  obtains m matched where "r = Inr (h\<lparr>hub_matcher := m\<rparr>, matched)" "sub_inv I (h\<lparr>hub_matcher := m\<rparr>)"
    "live_subs I (h\<lparr>hub_matcher := m\<rparr>) = live_subs I h" "mwf matched" "fst ` set matched = covered (live_subs I h) ch"
    "\<And>sid p. mget matched sid = Some p \<Longrightarrow> SessionID (I p) = sid"
proof -
  have w: "wc_inv I h" using inv by (simp add: sub_inv_def)
  have tr: "trie_inv (hub_matcher h)" and pat: "subs_at (hub_matcher h) = subs_of (patterns h)"
    using w by (simp_all add: wc_inv_def)
  obtain x where x: "Lookup (hub_matcher h) ch = Some x"
    using run by (auto simp: mergeMatchingSubscribers_def Let_def gobind_def split: option.splits)
  obtain m cands where m: "x = Inr (m, cands)" "trie_inv m" "subs_at m = subs_at (hub_matcher h)"
    "set cands = {x. \<exists>pattern. (pattern, x) \<in> patterns h \<and> Match pattern ch}"
    using Lookup_partial [OF x tr] matches_subs_of [OF pat, of ch] by auto
  let ?matched = "enter_sessions I (map sub_Session cands) (enter_sessions I (GetSubscribers h ch) [])"
  show thesis
  proof (rule that [of m ?matched])
    show "r = Inr (h\<lparr>hub_matcher := m\<rparr>, ?matched)"
      using run x m(1) by (simp add: mergeMatchingSubscribers_def Let_def gobind_def goret_def)
    show "sub_inv I (h\<lparr>hub_matcher := m\<rparr>)" "live_subs I (h\<lparr>hub_matcher := m\<rparr>) = live_subs I h"
      by (rule sub_inv_matcher [OF inv m(2,3)])+
    show "fst ` set ?matched = covered (live_subs I h) ch"
      unfolding covered_live [OF inv ch] enter_sessions_keys by (auto simp: m(4) image_image)
    show "SessionID (I p) = sid" if "mget ?matched sid = Some p" for sid p
      using enter_sessions_get [OF that] enter_sessions_get [of I "GetSubscribers h ch" "[]" sid p] by auto
  qed simp
qed

subsection \<open>Delivered offsets\<close>

lemma raiseDelivered_get: "mget (raiseDelivered I off cl ss) uid =
    map_option (\<lambda>s. if \<exists>(c, ok) \<in> set cl. ok \<and> SessionID (I c) = uid
      then s\<lparr>DeliveredOffset := max (DeliveredOffset s) off\<rparr> else s) (mget ss uid)"
proof (induction I off cl ss rule: raiseDelivered.induct)
  case (1 I off ss)
  then show ?case by (cases "mget ss uid") simp_all
next
  case (2 I off client ok cs ss)
  have upd: "mget (if \<not> ok then ss else case mget ss (SessionID (I client)) of None \<Rightarrow> ss
      | Some sub \<Rightarrow> if DeliveredOffset sub < off then mput (SessionID (I client)) (sub\<lparr>DeliveredOffset := off\<rparr>) ss else ss) uid =
    map_option (\<lambda>s. if ok \<and> SessionID (I client) = uid then s\<lparr>DeliveredOffset := max (DeliveredOffset s) off\<rparr> else s) (mget ss uid)"
    by (cases "mget ss uid") (auto simp: max_def not_less split: option.splits)
  show ?case unfolding raiseDelivered.simps 2 upd
    by (cases "mget ss uid") (auto simp: max_def)
qed

lemma raiseDelivered_wf: "mwf ss \<Longrightarrow> mwf (raiseDelivered I off cl ss)"
  by (induction I off cl ss rule: raiseDelivered.induct) (auto split: option.splits)

lemma recordDeliveredOffsets_spec:
  assumes inv: "sub_inv I h"
  shows "sub_inv I (recordDeliveredOffsets I h ch off cl)"
    "exact (recordDeliveredOffsets I h ch off cl) ch' =
       (if ch' = ch \<and> \<not> IsWildcard ch then raiseDelivered I off cl (exact h ch) else exact h ch')"
    "live_subs I (recordDeliveredOffsets I h ch off cl) = live_subs I h"
proof -
  let ?r = "recordDeliveredOffsets I h ch off cl"
  have e: "exact_inv I h" and w: "wc_inv I h" and len: "length (subShards h) = numHubShards"
    using inv by (simp_all add: sub_inv_def exact_inv_def)
  have Nil: "raiseDelivered I off cl [] = []" by (induction cl) (auto split: option.splits)
  have "exact_inv I ?r \<and> wcSubs ?r = wcSubs h \<and> hub_matcher ?r = hub_matcher h \<and>
    (\<forall>ch'. exact ?r ch' = (if ch' = ch \<and> \<not> IsWildcard ch then raiseDelivered I off cl (exact h ch) else exact h ch'))"
  proof (cases "IsWildcard ch \<or> cl = []")
    case True
    then show ?thesis using e by (auto simp: recordDeliveredOffsets_def)
  next
    case False
    show ?thesis
    proof (cases "mget (shard_subs (subShard_of h ch)) ch")
      case None
      then show ?thesis using e False Nil by (auto simp: recordDeliveredOffsets_def exact_def mzero_def)
    next
      case (Some m)
      let ?s = "(subShard_of h ch)\<lparr>shard_subs := mput ch (raiseDelivered I off cl m) (shard_subs (subShard_of h ch))\<rparr>"
      have r: "?r = set_subShard h ch ?s" using False Some by (simp add: recordDeliveredOffsets_def Let_def)
      note d = exact_invD [OF e Some]
      have sid: "uid = SessionID (I (sub_Session x))" if "mget (raiseDelivered I off cl m) uid = Some x" for uid x
        using that d(5) unfolding raiseDelivered_get by (auto split: if_splits)
      have ne: "raiseDelivered I off cl m \<noteq> []"
      proof
        assume "raiseDelivered I off cl m = []"
        then have "mget (raiseDelivered I off cl m) uid = None" for uid by simp
        then have "\<forall>uid. mget m uid = None" unfolding raiseDelivered_get by simp
        then show False using d(1) by (simp only: mget_all_None)
      qed
      have "exact_inv I (set_subShard h ch ?s)"
      proof (rule exact_inv_set [OF e])
        show "shard_subs ?s = mput ch (raiseDelivered I off cl m) (shard_subs (subShard_of h ch))" by simp
        show "mwf (mput ch (raiseDelivered I off cl m) (shard_subs (subShard_of h ch)))"
          using e by (simp add: exact_inv_def subShard_of_def)
        show "m' \<noteq> [] \<and> mwf m' \<and> \<not> IsWildcard ch \<and> validTopic ch \<and>
            (\<forall>uid s. mget m' uid = Some s \<longrightarrow> uid = SessionID (I (sub_Session s)))"
          if "mget (mput ch (raiseDelivered I off cl m) (shard_subs (subShard_of h ch))) ch = Some m'" for m'
          using that d(3,4) ne raiseDelivered_wf [OF d(2), of I off cl] sid by auto
      qed simp
      moreover have "exact (set_subShard h ch ?s) ch' = (if ch' = ch then raiseDelivered I off cl m else exact h ch')" for ch'
        by (subst exact_set_view [OF len]) simp_all
      moreover have "exact h ch = m" using Some by (simp add: exact_def mzero_def)
      ultimately show ?thesis using False unfolding r by simp
    qed
  qed
  note r = this
  have pat: "patterns ?r = patterns h" using r by (simp add: patterns_def)
  show "exact ?r ch' = (if ch' = ch \<and> \<not> IsWildcard ch then raiseDelivered I off cl (exact h ch) else exact h ch')"
    using r by blast
  show "sub_inv I ?r" using r w pat by (simp add: sub_inv_def wc_inv_def)
  show "live_subs I ?r = live_subs I h"
    using r unfolding live_subs_def pat by (auto simp: raiseDelivered_get split: if_splits)
qed

text \<open>
  Histories of a hub, with the subscriptions the calls established: a subscription that reports no
  error is live until the session cancels it. The guard on patterns keeps a session from holding two
  spellings of one pattern.
\<close>

inductive subscriptions :: "(sptr \<Rightarrow> sessIdent) \<Rightarrow> hub \<Rightarrow> (string \<times> string) set \<Rightarrow> bool" for I where
  new: "subscriptions I (NewHub lag m) {}"
| add: "subscriptions I h S \<Longrightarrow> (IsWildcard ch \<Longrightarrow> single_colon ch \<and> no_alias h ch sub) \<Longrightarrow> AddSub I h ch sub = goret (h', first, None) \<Longrightarrow>
    subscriptions I h' (insert (SessionID (I (sub_Session sub)), ch) S)"
| reject: "subscriptions I h S \<Longrightarrow> (IsWildcard ch \<Longrightarrow> single_colon ch \<and> no_alias h ch sub) \<Longrightarrow> AddSub I h ch sub = goret (h', first, Some e) \<Longrightarrow>
    subscriptions I h' S"
| remove: "subscriptions I h S \<Longrightarrow> (IsWildcard ch \<Longrightarrow> single_colon ch) \<Longrightarrow> RemoveSub I h ch c = goret (h', lst, rmd) \<Longrightarrow>
    subscriptions I h' (S - {(SessionID (I c), ch)})"
| broadcast: "subscriptions I h S \<Longrightarrow> \<not> IsWildcard ch \<Longrightarrow> mergeMatchingSubscribers I h ch = goret (h', matched) \<Longrightarrow>
    subscriptions I h' S"
| delivered: "subscriptions I h S \<Longrightarrow> subscriptions I (recordDeliveredOffsets I h ch off cl) S"

lemma sub_inv_new: "sub_inv I (NewHub lag m)" "live_subs I (NewHub lag m) = {}"
proof -
  have p: "patterns (NewHub lag m) = {}" by (simp add: patterns_def NewHub_def)
  have "exact (NewHub lag m) ch = []" for ch
    by (simp add: exact_def subShard_of_def NewHub_def newSubShard_def mzero_def)
  then show "live_subs I (NewHub lag m) = {}" by (simp add: live_subs_def p)
  have "wc_inv I (NewHub lag m)"
    unfolding wc_inv_def p using trie_inv_new by (auto simp: NewHub_def subs_of_def fun_eq_iff)
  then show "sub_inv I (NewHub lag m)"
    by (simp add: sub_inv_def exact_inv_def NewHub_def newSubShard_def)
qed

lemma AddSub_spec:
  assumes inv: "sub_inv I h" and ali: "IsWildcard ch \<Longrightarrow> single_colon ch \<and> no_alias h ch sub"
    and run: "AddSub I h ch sub = goret (h', first, e)"
  shows "sub_inv I h' \<and> live_subs I h' =
    (if e = None then insert (SessionID (I (sub_Session sub)), ch) (live_subs I h) else live_subs I h)"
proof (cases "IsWildcard ch")
  case True
  show ?thesis
    by (rule AddSub_wildcard [OF inv True conjunct2 [OF ali [OF True]] conjunct1 [OF ali [OF True]] run [unfolded goret_def]]) (use inv in auto)
next
  case False
  show ?thesis
  proof (cases "validTopic ch")
    case True
    then show ?thesis using AddSub_exact [OF inv False True, of sub] run by auto
  next
    case invalid: False
    then show ?thesis using AddSub_invalid [OF inv False invalid, of sub] run inv by simp
  qed
qed

lemma RemoveSub_spec:
  assumes inv: "sub_inv I h" and ids: "IsWildcard ch \<Longrightarrow> single_colon ch" and run: "RemoveSub I h ch c = goret (h', lst, rmd)"
  shows "sub_inv I h' \<and> live_subs I h' = live_subs I h - {(SessionID (I c), ch)} \<and>
    (rmd \<longleftrightarrow> (SessionID (I c), ch) \<in> live_subs I h)"
proof (cases "IsWildcard ch")
  case True
  show ?thesis
    by (rule RemoveSub_wildcard [OF inv True ids [OF True] run [unfolded goret_def]]) (use inv in auto)
next
  case False
  then have "(ch, x) \<notin> patterns h" for x using patterns_wild(1) [of I h ch x] inv by (auto simp: sub_inv_def)
  then have "(SessionID (I c), ch) \<in> live_subs I h \<longleftrightarrow> mget (exact h ch) (SessionID (I c)) \<noteq> None"
    by (auto simp: live_iff)
  then show ?thesis using RemoveSub_exact [OF inv False, of c] run by auto
qed

lemma subscriptions_inv: "subscriptions I h S \<Longrightarrow> sub_inv I h \<and> live_subs I h = S"
proof (induction rule: subscriptions.induct)
  case (new lag m)
  show ?case using sub_inv_new by blast
next
  case (add h S ch sub h' first)
  then show ?case using AddSub_spec [of I h ch sub h' first None] by simp
next
  case (reject h S ch sub h' first e)
  then show ?case using AddSub_spec [of I h ch sub h' first "Some e"] by simp
next
  case (remove h S ch c h' lst rmd)
  then show ?case using RemoveSub_spec [of I h ch c h' lst rmd] by simp
next
  case (broadcast h S ch h' matched)
  then have inv: "sub_inv I h" and live: "live_subs I h = S" by simp_all
  show ?case
    by (rule mergeMatching_spec [OF inv broadcast(2) broadcast(3) [unfolded goret_def]]) (use live in auto)
next
  case (delivered h S ch off cl)
  then show ?case using recordDeliveredOffsets_spec(1,3) [of I h ch off cl] by simp
qed

section \<open>Properties\<close>

text \<open>
  A publication reaches exactly its subscribers. Along every history of subscriptions,
  cancellations and broadcasts, the sessions selected for a channel are those with a live
  subscription to that very channel or to a pattern matching it, each once however many of its
  subscriptions match; nothing panics, and the selection returns when the trie has no tombed node.
  Patterns are assumed to be namespaced (exactly one colon) and sessions not to hold two spellings of
  one pattern, which is so for sessions that passed the namespace gate.
\<close>

lemma delivery_exact:
  assumes "subscriptions I h S" "\<not> IsWildcard ch"
  shows "(mergeMatchingSubscribers I h ch = Some r \<longrightarrow>
      (\<exists>h' matched. r = Inr (h', matched) \<and> subscriptions I h' S \<and> distinct (map fst matched) \<and>
         fst ` set matched = covered S ch \<and> (\<forall>(sid, p) \<in> set matched. SessionID (I p) = sid))) \<and>
    (no_tomb (hub_matcher h) \<longrightarrow> (\<exists>matched. mergeMatchingSubscribers I h ch = goret (h, matched)))"
proof (intro conjI impI)
  have inv: "sub_inv I h" and live: "live_subs I h = S" using subscriptions_inv [OF assms(1)] by simp_all
  assume run: "mergeMatchingSubscribers I h ch = Some r"
  show "\<exists>h' matched. r = Inr (h', matched) \<and> subscriptions I h' S \<and> distinct (map fst matched) \<and>
      fst ` set matched = covered S ch \<and> (\<forall>(sid, p) \<in> set matched. SessionID (I p) = sid)"
  proof (rule mergeMatching_spec [OF inv assms(2) run])
    fix m matched
    assume m: "r = Inr (h\<lparr>hub_matcher := m\<rparr>, matched)" "mwf matched" "fst ` set matched = covered (live_subs I h) ch"
      "\<And>sid p. mget matched sid = Some p \<Longrightarrow> SessionID (I p) = sid"
    have "subscriptions I (h\<lparr>hub_matcher := m\<rparr>) S"
      using subscriptions.broadcast [OF assms(1,2)] run m(1) by (simp add: goret_def)
    moreover have "\<forall>(sid, p) \<in> set matched. SessionID (I p) = sid"
      using m(2,4) by (auto simp: mget_iff_set)
    ultimately show ?thesis using m live by (auto simp: mwf_def)
  qed
next
  have "trie_inv (hub_matcher h)" using subscriptions_inv [OF assms(1)] by (simp add: sub_inv_def wc_inv_def)
  moreover assume "no_tomb (hub_matcher h)"
  ultimately have "\<exists>s. Lookup (hub_matcher h) ch = Some (Inr (hub_matcher h, s))"
    using lookup_loop_no_tomb [of "hub_matcher h" "SplitSegments ch"]
    by (auto simp: Lookup_def Let_def list_ex_iff)
  then show "\<exists>matched. mergeMatchingSubscribers I h ch = goret (h, matched)"
    by (auto simp: mergeMatchingSubscribers_def Let_def gobind_def goret_def)
qed

text \<open>Session 2 subscribed to the pattern \<^verbatim>\<open>acme:*\<close>.\<close>

definition pattern_trie :: "hubSubscriber main_node" where
  "pattern_trie = CNode [(''acme'', Branch (Some (CNode [(''*'', Branch None [NewSubscriber 2 False])])) [])]"

definition pattern_hub :: hub where
  "pattern_hub = (NewHub 0 0)\<lparr>hub_matcher := pattern_trie,
     wcSubs := [(''s2:acme:*'', \<lparr>Topic = ''acme:*'', Subscriber = NewSubscriber 2 False\<rparr>)]\<rparr>"

lemma pattern_hub_AddSub: "AddSub example_ident (NewHub 0 0) ''acme:*'' (NewSubscriber 2 False) = goret (pattern_hub, True, None)"
proof -
  have "Subscribe comparable_sub NewCSTrieMatcher ''acme:*'' (NewSubscriber 2 False) =
      Some (Inr (pattern_trie, Inr \<lparr>Topic = ''acme:*'', Subscriber = NewSubscriber 2 False\<rparr>))" by code_simp
  moreover have "IsWildcard ''acme:*''" "wcKey example_ident 2 ''acme:*'' = ''s2:acme:*''" by code_simp+
  ultimately show ?thesis
    by (simp add: AddSub_def addWildcardSub_def gobind_def goret_def NewHub_def pattern_hub_def NewSubscriber_def mput_def)
qed

lemma pattern_hub_subscriptions: "subscriptions example_ident pattern_hub {(''s2'', ''acme:*'')}"
proof -
  have "single_colon ''acme:*''" by code_simp
  then have "subscriptions example_ident pattern_hub {(SessionID (example_ident 2), ''acme:*'')}"
    using subscriptions.add [OF subscriptions.new [of example_ident 0 0] _ pattern_hub_AddSub]
    by (simp add: no_alias_def NewHub_def NewSubscriber_def)
  then show ?thesis by (simp add: example_ident_def)
qed

end
