(* ===== verification/Broadcast.thy ===== *)
theory Broadcast
  imports HubSubs
begin

text \<open>
  The fan-out of publications, \<^verbatim>\<open>BroadcastPublications\<close> of \<^verbatim>\<open>internal/session/hub.go\<close>: one frame per wire
  encoding, JSON payloads spliced into JSON frames verbatim, one send per selected session, and the
  bookkeeping of delivered offsets. The marshalers (\<^verbatim>\<open>protojson\<close>, \<^verbatim>\<open>proto\<close>), the decoding of a JSON object
  into a \<^verbatim>\<open>structpb.Struct\<close> and the sending of a frame to a session are parameters.
\<close>

section \<open>JSON validity\<close>

text \<open>\<^verbatim>\<open>json.Valid\<close> of the standard library: the scanner's states, its stack, and one step per byte.\<close>

datatype scan_state = BeginValue | BeginValueOrEmpty | BeginString | BeginStringOrEmpty | EndValue | EndTop
  | InString | InStringEsc | InStringHex nat | Neg | Digits | Zero | Dot | Dot0 | Exp | ExpSign | Exp0
  | Literal string | ScanError

datatype parse_state = ObjectKey | ObjectValue | ArrayValue

definition isJSONSpace :: "char \<Rightarrow> bool" where
  "isJSONSpace c \<longleftrightarrow> c = CHR '' '' \<or> c = CHR 0x09 \<or> c = CHR 0x0D \<or> c = CHR 0x0A"

definition isHexDigit :: "char \<Rightarrow> bool" where
  "isHexDigit c \<longleftrightarrow> isDigit c \<or> c \<in> set ''abcdefABCDEF''"

definition maxNestingDepth :: nat where
  "maxNestingDepth = 10000"

definition pushParseState :: "parse_state \<Rightarrow> parse_state list \<Rightarrow> scan_state \<Rightarrow> scan_state \<times> parse_state list" where
  "pushParseState ps stack st =
     (if length stack + 1 \<le> maxNestingDepth then (st, ps # stack) else (ScanError, ps # stack))"

definition popParseState :: "parse_state list \<Rightarrow> scan_state \<times> parse_state list" where
  "popParseState stack = (let stack = tl stack in (if stack = [] then EndTop else EndValue, stack))"

definition stateEndTop :: "char \<Rightarrow> parse_state list \<Rightarrow> scan_state \<times> parse_state list" where
  "stateEndTop c stack = (if isJSONSpace c then (EndTop, stack) else (ScanError, stack))"

fun stateEndValue :: "char \<Rightarrow> parse_state list \<Rightarrow> scan_state \<times> parse_state list" where
  "stateEndValue c [] = stateEndTop c []"
| "stateEndValue c (ps # stack) =
     (if isJSONSpace c then (EndValue, ps # stack)
      else case ps of
             ObjectKey \<Rightarrow> if c = CHR '':'' then (BeginValue, ObjectValue # stack) else (ScanError, ps # stack)
           | ObjectValue \<Rightarrow>
               if c = CHR '','' then (BeginString, ObjectKey # stack)
               else if c = CHR ''}'' then popParseState (ps # stack) else (ScanError, ps # stack)
           | ArrayValue \<Rightarrow>
               if c = CHR '','' then (BeginValue, ps # stack)
               else if c = CHR '']'' then popParseState (ps # stack) else (ScanError, ps # stack))"

definition stateBeginValue :: "char \<Rightarrow> parse_state list \<Rightarrow> scan_state \<times> parse_state list" where
  "stateBeginValue c stack =
     (if isJSONSpace c then (BeginValue, stack)
      else if c = CHR ''{'' then pushParseState ObjectKey stack BeginStringOrEmpty
      else if c = CHR ''['' then pushParseState ArrayValue stack BeginValueOrEmpty
      else if c = CHR 0x22 then (InString, stack)
      else if c = CHR ''-'' then (Neg, stack)
      else if c = CHR ''0'' then (Zero, stack)
      else if c = CHR ''t'' then (Literal ''rue'', stack)
      else if c = CHR ''f'' then (Literal ''alse'', stack)
      else if c = CHR ''n'' then (Literal ''ull'', stack)
      else if isDigit c then (Digits, stack)
      else (ScanError, stack))"

definition stateBeginString :: "char \<Rightarrow> parse_state list \<Rightarrow> scan_state \<times> parse_state list" where
  "stateBeginString c stack =
     (if isJSONSpace c then (BeginString, stack) else if c = CHR 0x22 then (InString, stack) else (ScanError, stack))"

definition state0 :: "char \<Rightarrow> parse_state list \<Rightarrow> scan_state \<times> parse_state list" where
  "state0 c stack =
     (if c = CHR ''.'' then (Dot, stack) else if c = CHR ''e'' \<or> c = CHR ''E'' then (Exp, stack)
      else stateEndValue c stack)"

fun scan_step :: "scan_state \<Rightarrow> char \<Rightarrow> parse_state list \<Rightarrow> scan_state \<times> parse_state list" where
  "scan_step BeginValue c stack = stateBeginValue c stack"
| "scan_step BeginValueOrEmpty c stack =
     (if isJSONSpace c then (BeginValueOrEmpty, stack)
      else if c = CHR '']'' then stateEndValue c stack else stateBeginValue c stack)"
| "scan_step BeginString c stack = stateBeginString c stack"
| "scan_step BeginStringOrEmpty c stack =
     (if isJSONSpace c then (BeginStringOrEmpty, stack)
      else if c = CHR ''}'' then stateEndValue c (ObjectValue # tl stack) else stateBeginString c stack)"
| "scan_step EndValue c stack = stateEndValue c stack"
| "scan_step EndTop c stack = stateEndTop c stack"
| "scan_step InString c stack =
     (if c = CHR 0x22 then (EndValue, stack) else if c = CHR 0x5C then (InStringEsc, stack)
      else if (of_char c :: nat) < 32 then (ScanError, stack) else (InString, stack))"
| "scan_step InStringEsc c stack =
     (if c \<in> set ''bfnrt/'' \<or> c = CHR 0x5C \<or> c = CHR 0x22 then (InString, stack)
      else if c = CHR ''u'' then (InStringHex 4, stack) else (ScanError, stack))"
| "scan_step (InStringHex n) c stack =
     (if \<not> isHexDigit c then (ScanError, stack)
      else if n \<le> 1 then (InString, stack) else (InStringHex (n - 1), stack))"
| "scan_step Neg c stack =
     (if c = CHR ''0'' then (Zero, stack) else if isDigit c then (Digits, stack) else (ScanError, stack))"
| "scan_step Digits c stack = (if isDigit c then (Digits, stack) else state0 c stack)"
| "scan_step Zero c stack = state0 c stack"
| "scan_step Dot c stack = (if isDigit c then (Dot0, stack) else (ScanError, stack))"
| "scan_step Dot0 c stack =
     (if isDigit c then (Dot0, stack) else if c = CHR ''e'' \<or> c = CHR ''E'' then (Exp, stack)
      else stateEndValue c stack)"
| "scan_step Exp c stack =
     (if c = CHR ''+'' \<or> c = CHR ''-'' then (ExpSign, stack)
      else if isDigit c then (Exp0, stack) else (ScanError, stack))"
| "scan_step ExpSign c stack = (if isDigit c then (Exp0, stack) else (ScanError, stack))"
| "scan_step Exp0 c stack = (if isDigit c then (Exp0, stack) else stateEndValue c stack)"
| "scan_step (Literal w) c stack =
     (case w of [] \<Rightarrow> stateEndValue c stack
      | x # xs \<Rightarrow> if c \<noteq> x then (ScanError, stack)
          else (if xs = [] then EndValue else Literal xs, stack))"
| "scan_step ScanError c stack = (ScanError, stack)"

fun scan :: "scan_state \<Rightarrow> parse_state list \<Rightarrow> bytes \<Rightarrow> scan_state \<times> parse_state list" where
  "scan st stack [] = (st, stack)"
| "scan st stack (c # s) = (case scan_step st c stack of (st', stack') \<Rightarrow> scan st' stack' s)"

definition json_Valid :: "bytes \<Rightarrow> bool" where
  "json_Valid s =
     (case scan BeginValue [] s of (st, stack) \<Rightarrow>
        st \<noteq> ScanError \<and> (st = EndTop \<or> fst (scan_step st (CHR '' '') stack) = EndTop))"

text \<open>\<^verbatim>\<open>bytes.TrimSpace\<close>: the UTF-8 encodings of \<^verbatim>\<open>unicode.IsSpace\<close> at both ends.\<close>

definition spaceRunes :: "bytes list" where
  "spaceRunes =
     map (\<lambda>c. [c]) [CHR 0x09, CHR 0x0A, CHR 0x0B, CHR 0x0C, CHR 0x0D, CHR 0x20] @
     [[CHR 0xC2, CHR 0x85], [CHR 0xC2, CHR 0xA0], [CHR 0xE1, CHR 0x9A, CHR 0x80]] @
     map (\<lambda>c. [CHR 0xE2, CHR 0x80, c])
       [CHR 0x80, CHR 0x81, CHR 0x82, CHR 0x83, CHR 0x84, CHR 0x85, CHR 0x86, CHR 0x87, CHR 0x88, CHR 0x89,
        CHR 0x8A, CHR 0xA8, CHR 0xA9, CHR 0xAF] @
     [[CHR 0xE2, CHR 0x81, CHR 0x9F], [CHR 0xE3, CHR 0x80, CHR 0x80]]"

function trimPrefixes :: "bytes list \<Rightarrow> bytes \<Rightarrow> bytes" where
  "trimPrefixes rs s =
     (case find (\<lambda>r. r \<noteq> [] \<and> prefix r s) rs of None \<Rightarrow> s | Some r \<Rightarrow> trimPrefixes rs (drop (length r) s))"
  by pat_completeness auto
termination
  by (relation "measure (\<lambda>(rs, s). length s)") (auto simp: find_Some_iff intro!: diff_less)

definition TrimSpace :: "bytes \<Rightarrow> bytes" where
  "TrimSpace s = rev (trimPrefixes (map rev spaceRunes) (rev (trimPrefixes spaceRunes s)))"

definition isJSONObject :: "bytes \<Rightarrow> bool" where
  "isJSONObject data =
     (let trimmed = TrimSpace data
      in length trimmed > 0 \<and> hd trimmed = CHR ''{'' \<and> json_Valid trimmed)"

section \<open>Splicing\<close>

definition jsonPayloadSplicePoint :: bytes where
  "jsonPayloadSplicePoint = [CHR 0x22] @ ''json'' @ [CHR 0x22] @ '':{}''"

fun spliceLoop :: "bytes \<Rightarrow> nat \<Rightarrow> bytes list \<Rightarrow> bytes option" where
  "spliceLoop out pos [] = Some out"
| "spliceLoop out pos (raw # raws) =
     (case Index (drop pos out) jsonPayloadSplicePoint of
        None \<Rightarrow> None
      | Some i \<Rightarrow>
          let i = i + pos; n = length jsonPayloadSplicePoint
          in spliceLoop (take (i + n - 2) out @ raw @ drop (i + n) out) (i + n - 2 + length raw) raws)"

definition spliceRawJSONPayloads :: "bytes \<Rightarrow> bytes list \<Rightarrow> bytes option" where
  "spliceRawJSONPayloads fr raws = spliceLoop fr 0 raws"

definition spliceRawJSONPayload :: "bytes \<Rightarrow> bytes \<Rightarrow> bytes option" where
  "spliceRawJSONPayload fr raw = spliceRawJSONPayloads fr [raw]"

text \<open>The text of a frame around its payloads: each payload follows its \<^verbatim>\<open>json\<close> key.\<close>

fun weave :: "bytes list \<Rightarrow> bytes list \<Rightarrow> bytes" where
  "weave (p # ps) (r # rs) = p @ [CHR 0x22] @ ''json'' @ [CHR 0x22] @ '':'' @ r @ weave ps rs"
| "weave [p] [] = p"
| "weave _ _ = []"

text \<open>The splice point first occurs right after \<open>p\<close>: \<open>p\<close> neither has one nor the beginning of one
  reaching into the point.\<close>

definition point_free :: "bytes \<Rightarrow> bool" where
  "point_free p \<longleftrightarrow> Index (p @ jsonPayloadSplicePoint) jsonPayloadSplicePoint = Some (length p)"

lemma Index_extend: "Index (p @ q) q = Some (length p) \<Longrightarrow> Index (p @ q @ r) q = Some (length p)"
proof (induction p)
  case Nil
  have "prefix q (q @ r)" by simp
  then show ?case by (cases "q @ r") auto
next
  case (Cons c p)
  have np: "\<not> prefix q (c # p @ q)" using Cons.prems by auto
  have "\<not> prefix q (c # p @ q @ r)"
  proof
    assume "prefix q (c # p @ q @ r)"
    then have "q = take (length q) (c # p @ q @ r)" by (metis append_eq_conv_conj prefix_def)
    also have "\<dots> = take (length q) (c # p @ q)" by (cases "length q") auto
    finally show False using np by (metis take_is_prefix)
  qed
  moreover have "Index (p @ q) q = Some (length p)" using Cons.prems np by auto
  ultimately show ?case using Cons.IH by simp
qed

lemma spliceLoop_weave:
  "length ps = Suc (length raws) \<Longrightarrow> \<forall>p \<in> set (butlast ps). point_free p \<Longrightarrow>
   spliceLoop (pre @ weave ps (map (\<lambda>_. ''{}'') raws)) (length pre) raws = Some (pre @ weave ps raws)"
proof (induction raws arbitrary: ps pre)
  case Nil
  then show ?case by (cases ps) auto
next
  case (Cons raw raws)
  let ?q = jsonPayloadSplicePoint
  obtain p ps' where ps: "ps = p # ps'" "length ps' = Suc (length raws)" using Cons.prems(1) by (cases ps) auto
  have p: "point_free p" and rest: "\<forall>p \<in> set (butlast ps'). point_free p"
    using Cons.prems(2) ps by (auto split: if_splits)
  let ?w = "weave ps' (map (\<lambda>_. ''{}'') raws)"
  let ?key = "[CHR 0x22] @ ''json'' @ [CHR 0x22] @ '':''"
  have q: "?q = ?key @ ''{}''" by (simp add: jsonPayloadSplicePoint_def)
  have out: "pre @ weave ps (map (\<lambda>_. ''{}'') (raw # raws)) = pre @ p @ ?q @ ?w" by (simp add: ps q)
  have idx: "Index (p @ ?q @ ?w) ?q = Some (length p)" using Index_extend [of p ?q ?w] p by (simp add: point_free_def)
  have t: "take (length p + length pre + length ?q - 2) (pre @ p @ ?q @ ?w) = pre @ p @ ?key" by (simp add: q)
  have d: "drop (length p + length pre + length ?q) (pre @ p @ ?q @ ?w) = ?w" by (simp add: q)
  have "spliceLoop (pre @ weave ps (map (\<lambda>_. ''{}'') (raw # raws))) (length pre) (raw # raws) =
      spliceLoop ((pre @ p @ ?key @ raw) @ ?w) (length (pre @ p @ ?key @ raw)) raws"
    unfolding out using idx t d by (simp add: Let_def q add_ac)
  also have "\<dots> = Some ((pre @ p @ ?key @ raw) @ weave ps' raws)" by (rule Cons.IH [OF ps(2) rest])
  finally show ?case by (simp add: ps)
qed

text \<open>
  (C32) Splicing puts every payload in its own place. A frame marshaled with empty objects as
  placeholders becomes the frame with the raw payloads in their order, whatever the payloads
  contain: a payload that itself has the text of a splice point is not mistaken for the next one.
  The text before each placeholder is assumed to have no splice point of its own, which is what
  escaping quotes in strings gives.
\<close>

theorem splice_exact:
  assumes "length ps = Suc (length raws)" "\<forall>p \<in> set (butlast ps). point_free p"
  shows "spliceRawJSONPayloads (weave ps (map (\<lambda>_. ''{}'') raws)) raws = Some (weave ps raws)"
  using spliceLoop_weave [OF assms, of "[]"] by (simp add: spliceRawJSONPayloads_def)

text \<open>Two messages, the first payload holding a splice point.\<close>

theorem splice_exact_witness:
  "\<exists>p1 p2 p3. point_free p1 \<and> point_free p2 \<and>
     spliceRawJSONPayloads (weave [p1, p2, p3] [''{}'', ''{}'']) [''{'' @ jsonPayloadSplicePoint @ ''}'', ''{}''] =
       Some (weave [p1, p2, p3] [''{'' @ jsonPayloadSplicePoint @ ''}'', ''{}''])"
proof -
  have "point_free ''[{''" "point_free ''},{''" by code_simp+
  then show ?thesis
    using splice_exact [of "[''[{'', ''},{'', ''}]'']" "[''{'' @ jsonPayloadSplicePoint @ ''}'', ''{}'']"]
    by (intro exI [of _ "''[{''"] exI [of _ "''},{''"] exI [of _ "''}]''"]) simp
qed

section \<open>The fan-out\<close>

text \<open>The parameters of a broadcast: the identifiers \<^verbatim>\<open>uuid.NewString\<close> returns for transient publications, the
  decoder, the empty struct, and the marshalers of the sessions. A marshaler is given the messages of the
  outbound frame.\<close>

record ('m, 'j) broadcastEnv =
  freshID :: "nat \<Rightarrow> string"
  decodeStruct :: "bytes \<Rightarrow> 'j option"
  emptyStruct :: 'j
  currentMarshaler :: "sptr \<Rightarrow> 'm"
  IsJSONWire :: "'m \<Rightarrow> bool"
  MarshalAppend :: "'m \<Rightarrow> 'j Message list \<Rightarrow> string + bytes"

datatype send_outcome = Sent | SendFailed string | SendPanicked

definition broadcastMessage :: "('m, 'j) broadcastEnv \<Rightarrow> string \<Rightarrow> nat \<times> Publication \<Rightarrow> 'j Message" where
  "broadcastMessage env ch = (\<lambda>(i, pub).
     \<lparr>msg_Id = publicationMessageID (freshID env i) ch (Offset pub), msg_Channel = ch,
      msg_Position = PositionFrom (Epoch pub) (Offset pub) True,
      msg_Payload = PayloadProtoV2 (decodeStruct env) pub,
      msg_Metadata = (if length (Metadata pub) = 0 then [] else Metadata pub), msg_Replay = False\<rparr>)"

definition broadcastMessages :: "('m, 'j) broadcastEnv \<Rightarrow> string \<Rightarrow> Publication list \<Rightarrow> 'j Message list" where
  "broadcastMessages env ch pubs = map (broadcastMessage env ch) (enumerate 0 pubs)"

definition maxOffsetOf :: "Publication list \<Rightarrow> u64" where
  "maxOffsetOf pubs = foldl (\<lambda>m pub. if Offset pub > m then Offset pub else m) 0 pubs"

text \<open>The raw payloads, when every publication of the batch is a JSON object.\<close>

definition jsonRaws :: "Publication list \<Rightarrow> bytes list option" where
  "jsonRaws pubs =
     (if list_all (\<lambda>pub. PubKind pub = PayloadKindJSON \<and> isJSONObject (Payload pub)) pubs
      then Some (map (\<lambda>pub. TrimSpace (Payload pub)) pubs) else None)"

definition jsonPlaceholder :: "('m, 'j) broadcastEnv \<Rightarrow> Publication \<Rightarrow> 'j WirePayload" where
  "jsonPlaceholder env pub = \<lparr>pl_ContentType = ContentType pub, pl_Data = Payload_Json (emptyStruct env)\<rparr>"

text \<open>The frame of one encoding.\<close>

definition broadcastFrame :: "('m, 'j) broadcastEnv \<Rightarrow> string \<Rightarrow> Publication list \<Rightarrow> 'm \<Rightarrow> string + bytes" where
  "broadcastFrame env ch pubs m =
     (let msgs = broadcastMessages env ch pubs
      in case jsonRaws pubs of
           None \<Rightarrow> MarshalAppend env m msgs
         | Some raws \<Rightarrow>
             if \<not> IsJSONWire env m then MarshalAppend env m msgs
             else case MarshalAppend env m
                        (map (\<lambda>(msg, pub). msg\<lparr>msg_Payload := Some (jsonPlaceholder env pub)\<rparr>) (zip msgs pubs)) of
                    Inl err \<Rightarrow> Inl err
                  | Inr b \<Rightarrow>
                      (case spliceRawJSONPayloads b raws of
                         Some b' \<Rightarrow> Inr b' | None \<Rightarrow> MarshalAppend env m msgs))"

text \<open>\<open>sendFrame i client b\<close> is what sending the frame to the client at position \<open>i\<close> leads to; a panic is
  recovered and counts as not delivered.\<close>

definition sendOne ::
    "(nat \<Rightarrow> sptr \<Rightarrow> bytes \<Rightarrow> send_outcome) \<Rightarrow> nat \<Rightarrow> sptr \<Rightarrow> string + bytes \<Rightarrow> bool" where
  "sendOne sendFrame i client fr =
     (case fr of Inl err \<Rightarrow> False | Inr b \<Rightarrow> sendFrame i client b = Sent)"

definition BroadcastPublications ::
    "(sptr \<Rightarrow> sessIdent) \<Rightarrow> ('m, 'j) broadcastEnv \<Rightarrow> (nat \<Rightarrow> sptr \<Rightarrow> bytes \<Rightarrow> send_outcome) \<Rightarrow> hub \<Rightarrow> string \<Rightarrow>
     Publication list \<Rightarrow> (hub \<times> (sptr \<times> (string + bytes) \<times> bool) list) go" where
  "BroadcastPublications I env sendFrame h ch pubs =
     (if length pubs = 0 then goret (h, [])
      else gobind (mergeMatchingSubscribers I h ch) (\<lambda>(h, subscribers).
        if length subscribers = 0 then goret (h, [])
        else let sends = map (\<lambda>(i, client).
                   let fr = broadcastFrame env ch pubs (currentMarshaler env client)
                   in (client, fr, sendOne sendFrame i client fr)) (enumerate 0 (map snd subscribers));
                 off = maxOffsetOf pubs
             in goret (if off > 0 then recordDeliveredOffsets I h ch off (map (\<lambda>(client, _, ok). (client, ok)) sends) else h,
                  sends)))"

definition BroadcastPublication where
  "BroadcastPublication I env sendFrame h ch pub = BroadcastPublications I env sendFrame h ch [pub]"

lemma sends_clients:
  "map fst (map (\<lambda>(i, client). let fr = F client in (client, fr, G i client fr)) (enumerate n cs)) = cs"
  by (induction cs arbitrary: n) (simp_all add: Let_def)

lemma DeliveredOffset_same: "max (DeliveredOffset s) 0 = DeliveredOffset s"
  by (simp add: max_def)

lemma record_zero:
  assumes "sub_inv I h" "\<not> IsWildcard ch"
  shows "mget (exact (if off > 0 then recordDeliveredOffsets I h ch off cl else h) ch) uid =
    map_option (\<lambda>s. if \<exists>(c, ok) \<in> set cl. ok \<and> SessionID (I c) = uid
      then s\<lparr>DeliveredOffset := max (DeliveredOffset s) off\<rparr> else s) (mget (exact h ch) uid)"
proof (cases "off > 0")
  case True
  then show ?thesis using recordDeliveredOffsets_spec(2) [OF assms(1), of ch off cl ch] assms(2) by (simp add: raiseDelivered_get)
next
  case False
  then have "off = 0" by (simp add: word_gt_0)
  then show ?thesis by (cases "mget (exact h ch) uid") (simp_all add: DeliveredOffset_same)
qed

lemma exact_matcher [simp]: "exact (h\<lparr>hub_matcher := m\<rparr>) = exact h"
  by (simp add: exact_def fun_eq_iff subShard_of_def)


text \<open>One session subscribed through a pattern, text frames, and a send that succeeds.\<close>

definition example_env :: "(unit, unit) broadcastEnv" where
  "example_env = \<lparr>freshID = (\<lambda>_. ''u''), decodeStruct = (\<lambda>_. None), emptyStruct = (), currentMarshaler = (\<lambda>_. ()),
     IsJSONWire = (\<lambda>_. False), MarshalAppend = (\<lambda>_ msgs. Inr (concat (map msg_Id msgs)))\<rparr>"


end
