(* ===== verification/NodeSubs.thy ===== *)
theory NodeSubs
  imports HubSubs
begin

text \<open>
  Subscribing and unsubscribing on a node: the saga of \<^verbatim>\<open>internal/runtime/subscription_saga.go\<close>, the
  operations \<^verbatim>\<open>AddSubscription\<close> and \<^verbatim>\<open>RemoveSubscription\<close> of \<^verbatim>\<open>internal/runtime/node.go\<close>, the local variants of
  \<^verbatim>\<open>internal/runtime/cluster_resume.go\<close>, and the channel tracking of \<^verbatim>\<open>internal/session/runtime.go\<close>. The broker
  and the cluster stores are interfaces of the source; they are given by their operations. Each
  operation holds the lock of its channel and is one step; log lines and time-outs are left out.
\<close>

section \<open>Sagas\<close>

record ('s, 'e) subSagaStep =
  step_name :: string
  commit :: "'s \<Rightarrow> ('s \<times> 'e option) go"
  rollback :: "'s \<Rightarrow> 's go"

text \<open>The loop of \<^verbatim>\<open>runSubSaga\<close>; \<open>executed\<close> are the steps already committed, latest first.\<close>

fun rollbackAll :: "('s, 'e) subSagaStep list \<Rightarrow> 's \<Rightarrow> 's go" where
  "rollbackAll [] s = goret s"
| "rollbackAll (st # sts) s = gobind (rollback st s) (rollbackAll sts)"

fun sagaLoop ::
    "('s, 'e) subSagaStep list \<Rightarrow> ('s, 'e) subSagaStep list \<Rightarrow> 's \<Rightarrow> ('s \<times> (string \<times> 'e) option) go" where
  "sagaLoop executed [] s = goret (s, None)"
| "sagaLoop executed (st # sts) s =
     gobind (commit st s) (\<lambda>(s, err).
       case err of
         None \<Rightarrow> sagaLoop (st # executed) sts s
       | Some e \<Rightarrow> gobind (rollbackAll executed s) (\<lambda>s. goret (s, Some (step_name st, e))))"

definition runSubSaga :: "('s, 'e) subSagaStep list \<Rightarrow> 's \<Rightarrow> ('s \<times> (string \<times> 'e) option) go" where
  "runSubSaga steps s = sagaLoop [] steps s"

section \<open>The node\<close>

record ('b, 'e) brokerOps =
  b_Subscribe :: "'b \<Rightarrow> string \<Rightarrow> ('b \<times> 'e option) go"
  b_Unsubscribe :: "'b \<Rightarrow> string \<Rightarrow> ('b \<times> 'e option) go"

text \<open>\<open>co_sync\<close> writes the lease and the snapshot of a session with the given subscriptions,
  \<open>co_adjust\<close> changes the shared count of a channel.\<close>

record 'c clusterOps =
  co_sync :: "'c \<Rightarrow> sptr \<Rightarrow> (string \<times> bool \<times> u64) list \<Rightarrow> 'c \<times> string option"
  co_adjust :: "'c \<Rightarrow> string \<Rightarrow> int \<Rightarrow> 'c \<times> string option"

datatype 'e subError = HubError topic_error | ClientClosed | BrokerError 'e | ClusterError string
  | SubscriptionNotFound

record ('b, 'c) nodeState =
  n_hub :: hub
  n_broker :: 'b
  n_cluster :: 'c
  tracked :: "sptr \<Rightarrow> (string, unit) gomap"
  sess_closed :: "sptr \<Rightarrow> bool"
  ActiveChannels :: int
  SubscriptionsTotal :: int

definition TrackChannel :: "('b, 'c) nodeState \<Rightarrow> sptr \<Rightarrow> string \<Rightarrow> ('b, 'c) nodeState \<times> bool" where
  "TrackChannel n c ch =
     (if sess_closed n c then (n, True)
      else (n\<lparr>tracked := (tracked n)(c := mput ch () (tracked n c))\<rparr>, False))"

definition ForceTrackChannel :: "('b, 'c) nodeState \<Rightarrow> sptr \<Rightarrow> string \<Rightarrow> ('b, 'c) nodeState" where
  "ForceTrackChannel n c ch = n\<lparr>tracked := (tracked n)(c := mput ch () (tracked n c))\<rparr>"

definition UntrackChannel :: "('b, 'c) nodeState \<Rightarrow> sptr \<Rightarrow> string \<Rightarrow> ('b, 'c) nodeState" where
  "UntrackChannel n c ch = n\<lparr>tracked := (tracked n)(c := mdel ch (tracked n c))\<rparr>"

text \<open>The subscriptions of \<^verbatim>\<open>clusterSessionSnapshot\<close> with their flags and delivered offsets.\<close>

definition snapshotSubscriptions :: "(sptr \<Rightarrow> sessIdent) \<Rightarrow> ('b, 'c) nodeState \<Rightarrow> sptr \<Rightarrow> (string \<times> bool \<times> u64) list" where
  "snapshotSubscriptions I n c =
     map (\<lambda>ch. case LookupSubscriber I (n_hub n) ch c of
                 Some sub \<Rightarrow> (ch, Ephemeral sub, DeliveredOffset sub)
               | None \<Rightarrow> (ch, False, 0)) (sort (map fst (tracked n c)))"

definition syncSession ::
    "(sptr \<Rightarrow> sessIdent) \<Rightarrow> 'c clusterOps \<Rightarrow> ('b, 'c) nodeState \<Rightarrow> sptr \<Rightarrow> ('b, 'c) nodeState \<times> string option" where
  "syncSession I cops n c =
     (let (cl, err) = co_sync cops (n_cluster n) c (snapshotSubscriptions I n c) in (n\<lparr>n_cluster := cl\<rparr>, err))"

definition adjustClusterChannelSubscriptions ::
    "'c clusterOps \<Rightarrow> ('b, 'c) nodeState \<Rightarrow> string \<Rightarrow> int \<Rightarrow> ('b, 'c) nodeState \<times> string option" where
  "adjustClusterChannelSubscriptions cops n channel delta =
     (if channel = [] \<or> delta = 0 then (n, None)
      else let (cl, err) = co_adjust cops (n_cluster n) channel delta in (n\<lparr>n_cluster := cl\<rparr>, err))"

text \<open>The state of a saga is the node and the flag its closures share: \<^verbatim>\<open>first\<close> when adding, \<^verbatim>\<open>last\<close> when
  removing. Both sagas end with the same two cluster steps.\<close>

definition clusterSessionStep ::
    "(sptr \<Rightarrow> sessIdent) \<Rightarrow> 'c clusterOps \<Rightarrow> sptr \<Rightarrow> (('b, 'c) nodeState \<times> bool, 'e subError) subSagaStep" where
  "clusterSessionStep I cops c =
     \<lparr>step_name = ''cluster.session'',
      commit = (\<lambda>(n, flag). let (n, err) = syncSession I cops n c in goret ((n, flag), map_option ClusterError err)),
      rollback = (\<lambda>(n, flag). goret (fst (syncSession I cops n c), flag))\<rparr>"

definition clusterChannelStep ::
    "'c clusterOps \<Rightarrow> string \<Rightarrow> int \<Rightarrow> (('b, 'c) nodeState \<times> bool, 'e subError) subSagaStep" where
  "clusterChannelStep cops ch delta =
     \<lparr>step_name = ''cluster.channel'',
      commit = (\<lambda>(n, flag). let (n, err) = adjustClusterChannelSubscriptions cops n ch delta
                             in goret ((n, flag), map_option ClusterError err)),
      rollback = (\<lambda>(n, flag). goret (fst (adjustClusterChannelSubscriptions cops n ch (- delta)), flag))\<rparr>"

definition brokerSubscribe :: "('b, 'e) brokerOps \<Rightarrow> ('b, 'c) nodeState \<Rightarrow> string \<Rightarrow> (('b, 'c) nodeState \<times> 'e subError option) go" where
  "brokerSubscribe bops n ch =
     gobind (b_Subscribe bops (n_broker n) ch) (\<lambda>(b, err).
       let n = n\<lparr>n_broker := b\<rparr>
       in case err of Some e \<Rightarrow> goret (n, Some (BrokerError e))
                    | None \<Rightarrow> goret (n\<lparr>ActiveChannels := ActiveChannels n + 1\<rparr>, None))"

definition brokerUnsubscribe :: "('b, 'e) brokerOps \<Rightarrow> ('b, 'c) nodeState \<Rightarrow> string \<Rightarrow> (('b, 'c) nodeState \<times> 'e subError option) go" where
  "brokerUnsubscribe bops n ch =
     gobind (b_Unsubscribe bops (n_broker n) ch) (\<lambda>(b, err).
       let n = n\<lparr>n_broker := b\<rparr>
       in case err of Some e \<Rightarrow> goret (n, Some (BrokerError e))
                    | None \<Rightarrow> goret (n\<lparr>ActiveChannels := ActiveChannels n - 1\<rparr>, None))"

definition addSteps ::
    "(sptr \<Rightarrow> sessIdent) \<Rightarrow> ('b, 'e) brokerOps \<Rightarrow> 'c clusterOps \<Rightarrow> string \<Rightarrow> hubSubscriber \<Rightarrow>
     (('b, 'c) nodeState \<times> bool, 'e subError) subSagaStep list" where
  "addSteps I bops cops ch sub =
     [\<lparr>step_name = ''hub.addSub'',
       commit = (\<lambda>(n, _). gobind (AddSub I (n_hub n) ch sub) (\<lambda>(h, first, err).
                   goret ((n\<lparr>n_hub := h\<rparr>, first), map_option HubError err))),
       rollback = (\<lambda>(n, first). gobind (RemoveSub I (n_hub n) ch (sub_Session sub)) (\<lambda>(h, _, _).
                   goret (n\<lparr>n_hub := h\<rparr>, first)))\<rparr>,
      \<lparr>step_name = ''track.client'',
       commit = (\<lambda>(n, first). let (n, isClosed) = TrackChannel n (sub_Session sub) ch
                   in goret ((n, first), if isClosed then Some ClientClosed else None)),
       rollback = (\<lambda>(n, first). goret (UntrackChannel n (sub_Session sub) ch, first))\<rparr>,
      \<lparr>step_name = ''broker.Subscribe'',
       commit = (\<lambda>(n, first). if \<not> first then goret ((n, first), None)
                   else gobind (brokerSubscribe bops n ch) (\<lambda>(n, err). goret ((n, first), err))),
       rollback = (\<lambda>(n, first). if \<not> first then goret (n, first)
                   else gobind (b_Unsubscribe bops (n_broker n) ch) (\<lambda>(b, _).
                     goret (n\<lparr>n_broker := b, ActiveChannels := ActiveChannels n - 1\<rparr>, first)))\<rparr>,
      clusterSessionStep I cops (sub_Session sub),
      clusterChannelStep cops ch 1]"

definition AddSubscription ::
    "(sptr \<Rightarrow> sessIdent) \<Rightarrow> ('b, 'e) brokerOps \<Rightarrow> 'c clusterOps \<Rightarrow> ('b, 'c) nodeState \<Rightarrow> string \<Rightarrow> hubSubscriber \<Rightarrow>
     (('b, 'c) nodeState \<times> (string \<times> 'e subError) option) go" where
  "AddSubscription I bops cops n ch sub =
     (if LookupSubscriber I (n_hub n) ch (sub_Session sub) \<noteq> None then goret (n, None)
      else gobind (runSubSaga (addSteps I bops cops ch sub) (n, False)) (\<lambda>((n, _), err).
        case err of Some e \<Rightarrow> goret (n, Some e)
                  | None \<Rightarrow> goret (n\<lparr>SubscriptionsTotal := SubscriptionsTotal n + 1\<rparr>, None)))"

definition removeSteps ::
    "(sptr \<Rightarrow> sessIdent) \<Rightarrow> ('b, 'e) brokerOps \<Rightarrow> 'c clusterOps \<Rightarrow> string \<Rightarrow> sptr \<Rightarrow> hubSubscriber \<Rightarrow>
     (('b, 'c) nodeState \<times> bool, 'e subError) subSagaStep list" where
  "removeSteps I bops cops ch c subscriber =
     [\<lparr>step_name = ''hub.removeSub'',
       commit = (\<lambda>(n, _). gobind (RemoveSub I (n_hub n) ch c) (\<lambda>(h, lst, rmd).
                   goret ((n\<lparr>n_hub := h\<rparr>, lst), if \<not> rmd then Some SubscriptionNotFound else None))),
       rollback = (\<lambda>(n, lst). gobind (AddSub I (n_hub n) ch subscriber) (\<lambda>(h, _, _).
                   goret (n\<lparr>n_hub := h\<rparr>, lst)))\<rparr>,
      \<lparr>step_name = ''untrack.client'',
       commit = (\<lambda>(n, lst). goret ((UntrackChannel n c ch, lst), None)),
       rollback = (\<lambda>(n, lst). goret (ForceTrackChannel n c ch, lst))\<rparr>,
      \<lparr>step_name = ''broker.Unsubscribe'',
       commit = (\<lambda>(n, lst). if \<not> lst then goret ((n, lst), None)
                   else gobind (brokerUnsubscribe bops n ch) (\<lambda>(n, err). goret ((n, lst), err))),
       rollback = (\<lambda>(n, lst). if \<not> lst then goret (n, lst)
                   else gobind (b_Subscribe bops (n_broker n) ch) (\<lambda>(b, _).
                     goret (n\<lparr>n_broker := b, ActiveChannels := ActiveChannels n + 1\<rparr>, lst)))\<rparr>,
      clusterSessionStep I cops c,
      clusterChannelStep cops ch (-1)]"

definition RemoveSubscription ::
    "(sptr \<Rightarrow> sessIdent) \<Rightarrow> ('b, 'e) brokerOps \<Rightarrow> 'c clusterOps \<Rightarrow> ('b, 'c) nodeState \<Rightarrow> string \<Rightarrow> sptr \<Rightarrow>
     (('b, 'c) nodeState \<times> (string \<times> 'e subError) option) go" where
  "RemoveSubscription I bops cops n ch c =
     (case LookupSubscriber I (n_hub n) ch c of
        None \<Rightarrow> goret (n, None)
      | Some subscriber \<Rightarrow>
          gobind (runSubSaga (removeSteps I bops cops ch c subscriber) (n, False)) (\<lambda>((n, _), err).
            case err of Some e \<Rightarrow> goret (n, Some e)
                      | None \<Rightarrow> goret (n\<lparr>SubscriptionsTotal := SubscriptionsTotal n - 1\<rparr>, None)))"

definition restoreLocalSubscription ::
    "(sptr \<Rightarrow> sessIdent) \<Rightarrow> ('b, 'e) brokerOps \<Rightarrow> ('b, 'c) nodeState \<Rightarrow> string \<Rightarrow> hubSubscriber \<Rightarrow>
     (('b, 'c) nodeState \<times> 'e subError option) go" where
  "restoreLocalSubscription I bops n ch sub =
     (if LookupSubscriber I (n_hub n) ch (sub_Session sub) \<noteq> None then goret (n, None)
      else gobind (AddSub I (n_hub n) ch sub) (\<lambda>(h, first, err).
        let n = n\<lparr>n_hub := h\<rparr>
        in case err of
             Some e \<Rightarrow> goret (n, Some (HubError e))
           | None \<Rightarrow>
               let restored = (\<lambda>n. let n = ForceTrackChannel n (sub_Session sub) ch
                                   in n\<lparr>SubscriptionsTotal := SubscriptionsTotal n + 1\<rparr>)
               in if \<not> first then goret (restored n, None)
                  else gobind (brokerSubscribe bops n ch) (\<lambda>(n, err).
                    case err of
                      Some e \<Rightarrow> gobind (RemoveSub I (n_hub n) ch (sub_Session sub)) (\<lambda>(h, _, _).
                        goret (n\<lparr>n_hub := h\<rparr>, Some e))
                    | None \<Rightarrow> goret (restored n, None))))"

definition removeLocalSubscriptionOnly ::
    "(sptr \<Rightarrow> sessIdent) \<Rightarrow> ('b, 'e) brokerOps \<Rightarrow> ('b, 'c) nodeState \<Rightarrow> string \<Rightarrow> sptr \<Rightarrow> bool \<Rightarrow>
     (('b, 'c) nodeState \<times> bool \<times> 'e subError option) go" where
  "removeLocalSubscriptionOnly I bops n ch c updateMetrics =
     gobind (RemoveSub I (n_hub n) ch c) (\<lambda>(h, lst, rmd).
       let n = n\<lparr>n_hub := h\<rparr>
       in if \<not> rmd then goret (n, False, None)
          else let n = UntrackChannel n c ch;
                   counted = (\<lambda>n. if updateMetrics then n\<lparr>SubscriptionsTotal := SubscriptionsTotal n - 1\<rparr> else n)
               in if \<not> lst then goret (counted n, True, None)
                  else gobind (b_Unsubscribe bops (n_broker n) ch) (\<lambda>(b, err).
                    let n = n\<lparr>n_broker := b\<rparr>
                    in case err of
                         Some e \<Rightarrow> goret (n, True, Some (BrokerError e))
                       | None \<Rightarrow> goret (counted (if updateMetrics then n\<lparr>ActiveChannels := ActiveChannels n - 1\<rparr> else n),
                           True, None)))"


section \<open>Sagas are atomic\<close>

text \<open>A saga that keeps a ladder of assertions, one rung per step, ends on the top rung when it succeeds and on
  the bottom rung when it fails.\<close>

lemma rollbackAll_ladder:
  assumes "\<And>k s s'. k < length executed \<Longrightarrow> P (Suc k) s \<Longrightarrow> rollback (rev executed ! k) s = goret s' \<Longrightarrow> P k s'"
    and "P (length executed) s" "rollbackAll executed s = goret s'"
  shows "P 0 s'"
  using assms
proof (induction executed arbitrary: s)
  case (Cons st executed)
  from Cons(4) obtain t where t: "rollback st s = goret t" "rollbackAll executed t = goret s'"
    by (auto simp: gobind_eq_goret)
  have "P (length executed) t" using Cons(2) [of "length executed" s t] Cons(3) t(1) by (simp add: nth_append)
  moreover have "P k s'" if "k < length executed" "P (Suc k) s" "rollback (rev executed ! k) s = goret s'" for k s s'
    using Cons(2) [of k s s'] that by (simp add: nth_append)
  ultimately show ?case using Cons(1) t(2) by blast
qed simp

lemma sagaLoop_ladder:
  assumes commits: "\<And>k s s' e. k < length (rev executed @ sts) \<Longrightarrow> P k s \<Longrightarrow>
      commit ((rev executed @ sts) ! k) s = goret (s', e) \<Longrightarrow> if e = None then P (Suc k) s' else P k s'"
    and rollbacks: "\<And>k s s'. k < length (rev executed @ sts) \<Longrightarrow> P (Suc k) s \<Longrightarrow>
      rollback ((rev executed @ sts) ! k) s = goret s' \<Longrightarrow> P k s'"
    and "P (length executed) s" "sagaLoop executed sts s = goret (s', r)"
  shows "if r = None then P (length executed + length sts) s' else P 0 s'"
  using assms
proof (induction sts arbitrary: executed s)
  case Nil
  from Nil(4) have "s' = s" "r = None" by simp_all
  then show ?case using Nil(3) by simp
next
  case (Cons st sts)
  from Cons(5) obtain t e where t: "commit st s = goret (t, e)" by (auto simp: gobind_eq_goret)
  have c: "if e = None then P (Suc (length executed)) t else P (length executed) t"
    using Cons(2) [of "length executed" s t e] Cons(4) t by (simp add: nth_append)
  show ?case
  proof (cases e)
    case None
    have run: "sagaLoop (st # executed) sts s0 = goret (s', r)" if "s0 = t" for s0 using Cons(5) t None that by simp
    have "if r = None then P (length (st # executed) + length sts) s' else P 0 s'"
    proof (rule Cons(1) [OF _ _ _ run [OF refl]])
      show "if e = None then P (Suc k) s' else P k s'"
        if "k < length (rev (st # executed) @ sts)" "P k s" "commit ((rev (st # executed) @ sts) ! k) s = goret (s', e)" for k s s' e
        using Cons(2) [of k s s' e] that by simp
      show "P k s'"
        if "k < length (rev (st # executed) @ sts)" "P (Suc k) s" "rollback ((rev (st # executed) @ sts) ! k) s = goret s'" for k s s'
        using Cons(3) [of k s s'] that by simp
      show "P (length (st # executed)) t" using c None by simp
    qed
    then show ?thesis by (cases r) simp_all
  next
    case (Some x)
    then obtain u where u: "rollbackAll executed t = goret u" "s' = u" "r \<noteq> None" using Cons(5) t by (auto simp: gobind_eq_goret)
    have "P 0 u"
    proof (rule rollbackAll_ladder [OF _ _ u(1)])
      show "P (length executed) t" using c Some by simp
      show "P k s'" if "k < length executed" "P (Suc k) s" "rollback (rev executed ! k) s = goret s'" for k s s'
        using Cons(3) [of k s s'] that by (simp add: nth_append)
    qed
    then show ?thesis using u by auto
  qed
qed

lemma saga_ladder:
  assumes "\<And>k s s' e. k < length steps \<Longrightarrow> P k s \<Longrightarrow> commit (steps ! k) s = goret (s', e) \<Longrightarrow>
      if e = None then P (Suc k) s' else P k s'"
    and "\<And>k s s'. k < length steps \<Longrightarrow> P (Suc k) s \<Longrightarrow> rollback (steps ! k) s = goret s' \<Longrightarrow> P k s'"
    and "P 0 s" "runSubSaga steps s = goret (s', r)"
  shows "if r = None then P (length steps) s' else P 0 s'"
proof -
  have "if r = None then P (length ([] :: ('a, 'b) subSagaStep list) + length steps) s' else P 0 s'"
  proof (rule sagaLoop_ladder)
    show "sagaLoop [] steps s = goret (s', r)" using assms(4) by (simp add: runSubSaga_def)
    show "P (length ([] :: ('a, 'b) subSagaStep list)) s" using assms(3) by simp
  qed (simp_all only: rev.simps append_Nil, fact assms(1), fact assms(2))
  then show ?thesis by (cases r) simp_all
qed

section \<open>The view of the hub\<close>

definition namespaced :: "string \<Rightarrow> bool" where
  "namespaced ch \<longleftrightarrow> (\<exists>ns. NamespaceOf ch = Inr ns)"

lemma namespaced_single_colon: "namespaced ch \<Longrightarrow> single_colon ch"
  by (auto simp: namespaced_def single_colon_def NamespaceOf_Inr)

definition hub_ok :: "(sptr \<Rightarrow> sessIdent) \<Rightarrow> hub \<Rightarrow> bool" where
  "hub_ok I h \<longleftrightarrow> sub_inv I h \<and> (\<forall>key t. mget (wcSubs h) key = Some t \<longrightarrow> namespaced (Topic t))"

text \<open>The record of a session's subscription; wildcard subscriptions are namespaced.\<close>

definition sub_record :: "(sptr \<Rightarrow> sessIdent) \<Rightarrow> hub \<Rightarrow> string \<Rightarrow> sptr \<Rightarrow> hubSubscriber option" where
  "sub_record I h ch c = (if IsWildcard ch \<and> \<not> namespaced ch then None else LookupSubscriber I h ch c)"

lemma Lookup_exact: "\<not> IsWildcard ch \<Longrightarrow> LookupSubscriber I h ch c = mget (exact h ch) (SessionID (I c))"
  by (simp add: LookupSubscriber_def exact_def mzero_def split: option.split)

lemma hub_ok_no_alias:
  assumes "hub_ok I h" "namespaced ch"
  shows "no_alias h ch sub"
proof -
  have w: "mwf (wcSubs h)" using assms(1) by (simp add: hub_ok_def sub_inv_def wc_inv_def)
  have "Topic t = ch" if t: "t \<in> snd ` set (wcSubs h)" and segs: "SplitSegments (Topic t) = SplitSegments ch" for t
  proof -
    obtain key where "(key, t) \<in> set (wcSubs h)" using t by force
    then have "mget (wcSubs h) key = Some t" using w by (simp add: mget_iff_set)
    then have "namespaced (Topic t)" using assms(1) by (auto simp: hub_ok_def)
    then show ?thesis using assms(2) SplitSegments_inj [OF _ _ segs] unfolding namespaced_def by blast
  qed
  then show ?thesis by (auto simp: no_alias_def)
qed


lemma hub_okD: "hub_ok I h \<Longrightarrow> sub_inv I h" "hub_ok I h \<Longrightarrow> wc_inv I h" "hub_ok I h \<Longrightarrow> exact_inv I h"
  by (simp_all add: hub_ok_def sub_inv_def)

lemma live_exact:
  assumes "hub_ok I h" "\<not> IsWildcard ch"
  shows "(sid, ch) \<in> live_subs I h \<longleftrightarrow> mget (exact h ch) sid \<noteq> None"
  using patterns_wild(1) [OF hub_okD(2) [OF assms(1)]] assms(2) unfolding live_iff by blast

lemma live_namespaced:
  assumes "hub_ok I h" "(sid, ch) \<in> live_subs I h" "IsWildcard ch"
  shows "namespaced ch"
proof -
  have "mget (exact h ch) sid = None"
    using exact_invD(3) [OF hub_okD(3) [OF assms(1)], of ch] assms(3)
    by (cases "mget (shard_subs (subShard_of h ch)) ch") (auto simp: exact_def mzero_def)
  then obtain x where "(ch, x) \<in> patterns h" using assms(2) unfolding live_iff by auto
  then obtain key t where "mget (wcSubs h) key = Some t" "Topic t = ch" unfolding patterns_def by blast
  then show ?thesis using assms(1) by (auto simp: hub_ok_def)
qed

lemma live_record:
  assumes "hub_ok I h"
  shows "(SessionID (I c), ch) \<in> live_subs I h \<longleftrightarrow> sub_record I h ch c \<noteq> None"
proof (cases "IsWildcard ch")
  case True
  show ?thesis
  proof (cases "namespaced ch")
    case ns: True
    show ?thesis
      using live_pattern [OF hub_okD(2) [OF assms] namespaced_single_colon [OF ns] True hub_okD(3) [OF assms]] ns True
      by (simp add: sub_record_def LookupSubscriber_def)
  next
    case False
    then show ?thesis using live_namespaced [OF assms _ True] True by (auto simp: sub_record_def)
  qed
next
  case False
  then show ?thesis using live_exact [OF assms False] by (simp add: sub_record_def Lookup_exact)
qed

definition record_put :: "(sptr \<Rightarrow> sessIdent) \<Rightarrow> (string \<Rightarrow> sptr \<Rightarrow> hubSubscriber option) \<Rightarrow> string \<Rightarrow> sptr \<Rightarrow>
    hubSubscriber option \<Rightarrow> string \<Rightarrow> sptr \<Rightarrow> hubSubscriber option" where
  "record_put I f ch c v ch' c' = (if ch' = ch \<and> SessionID (I c') = SessionID (I c) then v else f ch' c')"

lemma record_put_put [simp]: "record_put I (record_put I f ch c v) ch c w = record_put I f ch c w"
  by (simp add: fun_eq_iff record_put_def)

lemma wild_record:
  assumes "namespaced ch" "IsWildcard ch" "\<And>k. mget (wcSubs h') k = (if k = wcKey I c ch then v else mget (wcSubs h) k)"
    and "\<And>ch'. exact h' ch' = exact h ch'"
  shows "sub_record I h' = record_put I (sub_record I h) ch c (map_option Subscriber v)"
proof (intro ext)
  fix ch' c'
  show "sub_record I h' ch' c' = record_put I (sub_record I h) ch c (map_option Subscriber v) ch' c'"
  proof (cases "IsWildcard ch' \<and> namespaced ch'")
    case True
    then show ?thesis
      using assms wcKey_inject [of ch' ch I c' c] namespaced_single_colon
      by (auto simp: sub_record_def record_put_def LookupSubscriber_def)
  next
    case False
    then show ?thesis using assms by (auto simp: sub_record_def record_put_def Lookup_exact)
  qed
qed

lemma exact_record:
  assumes "\<not> IsWildcard ch" "\<And>ch' sid. mget (exact h' ch') sid = (if ch' = ch \<and> sid = SessionID (I c) then v else mget (exact h ch') sid)"
    and "wcSubs h' = wcSubs h"
  shows "sub_record I h' = record_put I (sub_record I h) ch c v"
proof (intro ext)
  fix ch' c'
  show "sub_record I h' ch' c' = record_put I (sub_record I h) ch c v ch' c'"
  proof (cases "IsWildcard ch'")
    case True
    then show ?thesis using assms(1,3) by (auto simp: sub_record_def record_put_def LookupSubscriber_def)
  next
    case False
    then show ?thesis using assms(2) by (simp add: sub_record_def record_put_def Lookup_exact)
  qed
qed

lemma sub_record_session: "SessionID (I c) = SessionID (I c') \<Longrightarrow> sub_record I h ch c = sub_record I h ch c'"
  by (simp add: sub_record_def LookupSubscriber_def wcKey_def split: option.split)

lemma record_put_session: "SessionID (I c) = SessionID (I c') \<Longrightarrow> record_put I f ch c = record_put I f ch c'"
  by (simp add: record_put_def fun_eq_iff)

lemma record_put_same: "sub_record I h ch c = v \<Longrightarrow> record_put I (sub_record I h) ch c v = sub_record I h"
proof (intro ext)
  fix ch' c'
  assume v: "sub_record I h ch c = v"
  show "record_put I (sub_record I h) ch c v ch' c' = sub_record I h ch' c'"
    using v sub_record_session [of I c' c h ch] by (simp add: record_put_def)
qed

text \<open>What adding and removing a subscription do to the records and to the set of live subscriptions.\<close>

lemma AddSub_view:
  assumes ok: "hub_ok I h" and ns: "IsWildcard ch \<longrightarrow> namespaced ch" and new: "sub_record I h ch (sub_Session sub) = None"
    and run: "AddSub I h ch sub = goret (h', first, e)"
  shows "hub_ok I h'" "e \<noteq> None \<longleftrightarrow> \<not> validTopic ch" "e \<noteq> None \<Longrightarrow> h' = h"
    "e = None \<Longrightarrow> sub_record I h' = record_put I (sub_record I h) ch (sub_Session sub) (Some sub) \<and>
       live_subs I h' = insert (SessionID (I (sub_Session sub)), ch) (live_subs I h) \<and>
       (first \<longleftrightarrow> IsWildcard ch \<or> (\<forall>sid. (sid, ch) \<notin> live_subs I h))"
proof -
  note inv = hub_okD(1) [OF ok]
  let ?goal = "hub_ok I h' \<and> (e \<noteq> None \<longleftrightarrow> \<not> validTopic ch) \<and> (e \<noteq> None \<longrightarrow> h' = h) \<and>
      (e = None \<longrightarrow> sub_record I h' = record_put I (sub_record I h) ch (sub_Session sub) (Some sub) \<and>
       live_subs I h' = insert (SessionID (I (sub_Session sub)), ch) (live_subs I h) \<and>
       (first \<longleftrightarrow> IsWildcard ch \<or> (\<forall>sid. (sid, ch) \<notin> live_subs I h)))"
  have ?goal
  proof (cases "IsWildcard ch")
    case wild: True
    note n = ns [rule_format, OF wild]
    have lk: "mget (wcSubs h) (wcKey I (sub_Session sub) ch) = None" using new wild n by (simp add: sub_record_def LookupSubscriber_def)
    show ?thesis
    proof (rule AddSub_wildcard [OF inv wild hub_ok_no_alias [OF ok n] namespaced_single_colon [OF n] run [unfolded goret_def]])
      assume "mget (wcSubs h) (wcKey I (sub_Session sub) ch) \<noteq> None"
      then show ?thesis using lk by simp
    next
      assume "Inr (h', first, e) = Inr (h, False, Some ErrBadTopic)" "\<not> validTopic ch"
      then show ?thesis using ok by simp
    next
      fix m
      let ?h = "h\<lparr>hub_matcher := m, wcSubs := mput (wcKey I (sub_Session sub) ch) \<lparr>Topic = ch, Subscriber = sub\<rparr> (wcSubs h)\<rparr>"
      assume a: "Inr (h', first, e) = Inr (?h, True, None)" "sub_inv I ?h"
        "live_subs I ?h = insert (SessionID (I (sub_Session sub)), ch) (live_subs I h)" "validTopic ch"
      have "sub_record I ?h = record_put I (sub_record I h) ch (sub_Session sub) (map_option Subscriber (Some \<lparr>Topic = ch, Subscriber = sub\<rparr>))"
        by (rule wild_record [OF n wild]) (simp_all add: exact_def subShard_of_def)
      moreover have "hub_ok I ?h" using ok a(2) n by (simp add: hub_ok_def)
      ultimately show ?thesis using a wild by simp
    qed
  next
    case ex: False
    show ?thesis
    proof (cases "validTopic ch")
      case True
      obtain h2 where h2: "AddSub I h ch sub = goret (h2, exact h ch = [], None)" "sub_inv I h2"
        "\<forall>ch'. exact h2 ch' = (if ch' = ch then mput (SessionID (I (sub_Session sub))) sub (exact h ch) else exact h ch')"
        "wcSubs h2 = wcSubs h" "live_subs I h2 = insert (SessionID (I (sub_Session sub)), ch) (live_subs I h)"
        using AddSub_exact [OF inv ex True, of sub] by blast
      then have "sub_record I h2 = record_put I (sub_record I h) ch (sub_Session sub) (Some sub)"
        by (intro exact_record [OF ex]) simp_all
      moreover have "(exact h ch = []) \<longleftrightarrow> (\<forall>sid. (sid, ch) \<notin> live_subs I h)"
        using live_exact [OF ok ex] mget_all_None [of "exact h ch"] by simp
      ultimately show ?thesis using h2(1,2,4,5) run ok ex True by (auto simp: hub_ok_def)
    next
      case False
      then show ?thesis using AddSub_invalid [OF inv ex False, of sub] run ok by auto
    qed
  qed
  then show "hub_ok I h'" "e \<noteq> None \<longleftrightarrow> \<not> validTopic ch" "e \<noteq> None \<Longrightarrow> h' = h"
    "e = None \<Longrightarrow> sub_record I h' = record_put I (sub_record I h) ch (sub_Session sub) (Some sub) \<and>
       live_subs I h' = insert (SessionID (I (sub_Session sub)), ch) (live_subs I h) \<and>
       (first \<longleftrightarrow> IsWildcard ch \<or> (\<forall>sid. (sid, ch) \<notin> live_subs I h))" by blast+
qed

lemma RemoveSub_view:
  assumes ok: "hub_ok I h" and ns: "IsWildcard ch \<longrightarrow> namespaced ch"
    and run: "RemoveSub I h ch c = goret (h', lst, rmd)"
  shows "hub_ok I h' \<and> sub_record I h' = record_put I (sub_record I h) ch c None \<and>
     live_subs I h' = live_subs I h - {(SessionID (I c), ch)} \<and>
     (rmd \<longleftrightarrow> sub_record I h ch c \<noteq> None) \<and>
     (rmd \<longrightarrow> (lst \<longleftrightarrow> IsWildcard ch \<or> (\<forall>sid. (sid, ch) \<notin> live_subs I h')))"
proof (cases "IsWildcard ch")
  case wild: True
  note n = ns [rule_format, OF wild] and inv = hub_okD(1) [OF ok]
  show ?thesis
  proof (rule RemoveSub_wildcard [OF inv wild namespaced_single_colon [OF n] run [unfolded goret_def]])
    assume a: "Inr (h', lst, rmd) = Inr (h, True, False)" "(SessionID (I c), ch) \<notin> live_subs I h"
    then have none: "sub_record I h ch c = None" using live_record [OF ok] by simp
    show ?thesis using a(1) ok none a(2) unfolding record_put_same [OF none] by simp
  next
    fix m t
    let ?h = "h\<lparr>hub_matcher := m, wcSubs := mdel (wcKey I c ch) (wcSubs h)\<rparr>"
    assume a: "Inr (h', lst, rmd) = Inr (?h, True, True)" "mget (wcSubs h) (wcKey I c ch) = Some t"
      "(SessionID (I c), ch) \<in> live_subs I h" "sub_inv I ?h" "live_subs I ?h = live_subs I h - {(SessionID (I c), ch)}"
    have "sub_record I ?h = record_put I (sub_record I h) ch c None"
      using wild_record [OF n wild, of ?h I c None h] by (simp add: exact_def subShard_of_def)
    moreover have "hub_ok I ?h" using ok a(4) by (simp add: hub_ok_def)
    ultimately show ?thesis using a wild live_record [OF ok, of c ch] by simp
  qed
next
  case ex: False
  obtain h2 l2 where h2: "RemoveSub I h ch c = goret (h2, l2, mget (exact h ch) (SessionID (I c)) \<noteq> None)" "sub_inv I h2"
    "mget (exact h ch) (SessionID (I c)) \<noteq> None \<longrightarrow> (l2 \<longleftrightarrow> mdel (SessionID (I c)) (exact h ch) = [])"
    "\<forall>ch'. exact h2 ch' = (if ch' = ch then mdel (SessionID (I c)) (exact h ch) else exact h ch')"
    "wcSubs h2 = wcSubs h" "live_subs I h2 = live_subs I h - {(SessionID (I c), ch)}"
    using RemoveSub_exact [OF hub_okD(1) [OF ok] ex, of c] by blast
  have r: "sub_record I h2 = record_put I (sub_record I h) ch c None" using h2(4,5) by (intro exact_record [OF ex]) simp_all
  have ok2: "hub_ok I h2" using h2(2,5) ok by (simp add: hub_ok_def)
  have "(mdel (SessionID (I c)) (exact h ch) = []) \<longleftrightarrow> (\<forall>sid. (sid, ch) \<notin> live_subs I h2)"
    using live_exact [OF ok2 ex] mget_all_None [of "exact h2 ch"] h2(4) by simp
  moreover have "mget (exact h ch) (SessionID (I c)) = sub_record I h ch c" using ex by (simp add: sub_record_def Lookup_exact)
  ultimately show ?thesis using h2(1,3,6) run ok2 r ex by auto
qed


lemma live_valid:
  assumes "hub_ok I h" "(sid, ch) \<in> live_subs I h"
  shows "validTopic ch"
proof (cases "IsWildcard ch")
  case True
  then have "mget (exact h ch) sid = None"
    using exact_invD(3) [OF hub_okD(3) [OF assms(1)], of ch]
    by (cases "mget (shard_subs (subShard_of h ch)) ch") (auto simp: exact_def mzero_def)
  then show ?thesis using assms(2) patterns_wild(2) [OF hub_okD(2) [OF assms(1)]] unfolding live_iff by auto
next
  case False
  then obtain m where "mget (shard_subs (subShard_of h ch)) ch = Some m"
    using live_exact [OF assms(1) False] assms(2)
    by (cases "mget (shard_subs (subShard_of h ch)) ch") (auto simp: exact_def mzero_def)
  then show ?thesis using exact_invD(4) [OF hub_okD(3) [OF assms(1)]] by blast
qed

text \<open>The broker counts one interest per session for a pattern and one in all for a channel.\<close>

definition interest_key :: "string \<times> string \<Rightarrow> string option \<times> string" where
  "interest_key = (\<lambda>(sid, ch). (if IsWildcard ch then Some sid else None, ch))"

lemma interest_key_fresh:
  assumes "(sid, ch) \<notin> S"
  shows "interest_key (sid, ch) \<in> interest_key ` S \<longleftrightarrow> \<not> (IsWildcard ch \<or> (\<forall>sid. (sid, ch) \<notin> S))"
  using assms by (force simp: interest_key_def image_iff split: if_splits)

definition interests :: "(string \<times> string) set \<Rightarrow> string \<Rightarrow> int" where
  "interests S ch = int (card {k \<in> interest_key ` S. snd k = ch})"

lemma interests_insert:
  assumes "finite S" "(sid, ch) \<notin> S"
  shows "interests (insert (sid, ch) S) c = interests S c + (if c = ch \<and> (IsWildcard ch \<or> (\<forall>sid. (sid, ch) \<notin> S)) then 1 else 0)"
    "int (card (interest_key ` insert (sid, ch) S)) =
       int (card (interest_key ` S)) + (if IsWildcard ch \<or> (\<forall>sid. (sid, ch) \<notin> S) then 1 else 0)"
proof -
  have snd: "snd (interest_key (sid, ch)) = ch" by (simp add: interest_key_def)
  have eq: "{k \<in> interest_key ` insert (sid, ch) S. snd k = c} =
      (if c = ch then insert (interest_key (sid, ch)) {k \<in> interest_key ` S. snd k = c} else {k \<in> interest_key ` S. snd k = c})"
    using snd by auto
  have fin: "finite {k \<in> interest_key ` S. snd k = c'}" for c' using assms(1) by simp
  show "interests (insert (sid, ch) S) c = interests S c + (if c = ch \<and> (IsWildcard ch \<or> (\<forall>sid. (sid, ch) \<notin> S)) then 1 else 0)"
    unfolding interests_def eq using interest_key_fresh [OF assms(2)] snd by (simp add: card_insert_if [OF fin])
  show "int (card (interest_key ` insert (sid, ch) S)) =
       int (card (interest_key ` S)) + (if IsWildcard ch \<or> (\<forall>sid. (sid, ch) \<notin> S) then 1 else 0)"
    using assms(1) interest_key_fresh [OF assms(2)] by (simp add: card_insert_if)
qed

lemma interests_remove:
  assumes "finite S" "(sid, ch) \<in> S" "S' = S - {(sid, ch)}"
  shows "interests S c = interests S' c + (if c = ch \<and> (IsWildcard ch \<or> (\<forall>sid. (sid, ch) \<notin> S')) then 1 else 0)"
    "int (card (interest_key ` S)) = int (card (interest_key ` S')) + (if IsWildcard ch \<or> (\<forall>sid. (sid, ch) \<notin> S') then 1 else 0)"
  using interests_insert [of S' sid ch] assms by (simp_all add: insert_absorb)

lemma interests_pos: "finite S \<Longrightarrow> interests S ch > 0 \<longleftrightarrow> (\<exists>sid. (sid, ch) \<in> S)"
  by (force simp: interests_def card_gt_0_iff interest_key_def)


section \<open>Subscribing and unsubscribing at a node\<close>

text \<open>What a node promises of its local state: the records and the set of its subscriptions, the channels its
  sessions track, the interests of the broker, and the gauges.\<close>

record nodeView =
  v_record :: "string \<Rightarrow> sptr \<Rightarrow> hubSubscriber option"
  v_live :: "(string \<times> string) set"
  v_tracked :: "sptr \<Rightarrow> string \<Rightarrow> bool"
  v_count :: "string \<Rightarrow> int"
  v_active :: int
  v_total :: int
  v_closed :: "sptr \<Rightarrow> bool"

definition view :: "(sptr \<Rightarrow> sessIdent) \<Rightarrow> ('b \<Rightarrow> string \<Rightarrow> int) \<Rightarrow> ('b, 'c) nodeState \<Rightarrow> nodeView" where
  "view I bcount n = \<lparr>v_record = sub_record I (n_hub n), v_live = live_subs I (n_hub n),
     v_tracked = (\<lambda>p ch. mget (tracked n p) ch \<noteq> None), v_count = bcount (n_broker n),
     v_active = ActiveChannels n, v_total = SubscriptionsTotal n, v_closed = sess_closed n\<rparr>"

lemma view_sel [simp]:
  "v_record (view I bcount n) = sub_record I (n_hub n)" "v_live (view I bcount n) = live_subs I (n_hub n)"
  "v_tracked (view I bcount n) p ch = (mget (tracked n p) ch \<noteq> None)" "v_count (view I bcount n) = bcount (n_broker n)"
  "v_active (view I bcount n) = ActiveChannels n" "v_total (view I bcount n) = SubscriptionsTotal n"
  "v_closed (view I bcount n) = sess_closed n"
  by (simp_all add: view_def)

lemma view_upd [simp]:
  "view I bcount (n\<lparr>n_hub := h\<rparr>) = (view I bcount n)\<lparr>v_record := sub_record I h, v_live := live_subs I h\<rparr>"
  "view I bcount (n\<lparr>n_broker := b\<rparr>) = (view I bcount n)\<lparr>v_count := bcount b\<rparr>"
  "view I bcount (n\<lparr>n_cluster := c\<rparr>) = view I bcount n"
  "view I bcount (n\<lparr>ActiveChannels := i\<rparr>) = (view I bcount n)\<lparr>v_active := i\<rparr>"
  "view I bcount (n\<lparr>SubscriptionsTotal := j\<rparr>) = (view I bcount n)\<lparr>v_total := j\<rparr>"
  by (simp_all add: view_def)

lemma view_track [simp]:
  "view I bcount (ForceTrackChannel n p ch) =
     (view I bcount n)\<lparr>v_tracked := (v_tracked (view I bcount n))(p := (v_tracked (view I bcount n) p)(ch := True))\<rparr>"
  "view I bcount (UntrackChannel n p ch) =
     (view I bcount n)\<lparr>v_tracked := (v_tracked (view I bcount n))(p := (v_tracked (view I bcount n) p)(ch := False))\<rparr>"
  by (auto simp: view_def ForceTrackChannel_def UntrackChannel_def fun_eq_iff)

lemma track_frame [simp]:
  "n_hub (ForceTrackChannel n p ch) = n_hub n" "n_broker (ForceTrackChannel n p ch) = n_broker n"
  "n_hub (UntrackChannel n p ch) = n_hub n" "n_broker (UntrackChannel n p ch) = n_broker n"
  "SubscriptionsTotal (ForceTrackChannel n p ch) = SubscriptionsTotal n" "ActiveChannels (ForceTrackChannel n p ch) = ActiveChannels n"
  "SubscriptionsTotal (UntrackChannel n p ch) = SubscriptionsTotal n" "ActiveChannels (UntrackChannel n p ch) = ActiveChannels n"
  by (simp_all add: ForceTrackChannel_def UntrackChannel_def)

text \<open>The rungs of the two sagas.\<close>

definition add_rung :: "(sptr \<Rightarrow> sessIdent) \<Rightarrow> string \<Rightarrow> hubSubscriber \<Rightarrow> bool \<Rightarrow> nat \<Rightarrow> nodeView \<Rightarrow> nodeView" where
  "add_rung I ch sub first k v =
     (let p = sub_Session sub;
          v = (if k \<ge> 1 then v\<lparr>v_record := record_put I (v_record v) ch p (Some sub), v_live := insert (SessionID (I p), ch) (v_live v)\<rparr> else v);
          v = (if k \<ge> 2 then v\<lparr>v_tracked := (v_tracked v)(p := (v_tracked v p)(ch := True))\<rparr> else v)
      in if k \<ge> 3 \<and> first then v\<lparr>v_count := (v_count v)(ch := v_count v ch + 1), v_active := v_active v + 1\<rparr> else v)"

definition remove_rung :: "(sptr \<Rightarrow> sessIdent) \<Rightarrow> string \<Rightarrow> sptr \<Rightarrow> bool \<Rightarrow> nat \<Rightarrow> nodeView \<Rightarrow> nodeView" where
  "remove_rung I ch p lst k v =
     (let v = (if k \<ge> 1 then v\<lparr>v_record := record_put I (v_record v) ch p None, v_live := v_live v - {(SessionID (I p), ch)}\<rparr> else v);
          v = (if k \<ge> 2 then v\<lparr>v_tracked := (v_tracked v)(p := (v_tracked v p)(ch := False))\<rparr> else v)
      in if k \<ge> 3 \<and> lst then v\<lparr>v_count := (v_count v)(ch := v_count v ch - 1), v_active := v_active v - 1\<rparr> else v)"

text \<open>The invariant of a node.\<close>

definition node_inv :: "(sptr \<Rightarrow> sessIdent) \<Rightarrow> ('b \<Rightarrow> bool) \<Rightarrow> ('b \<Rightarrow> string \<Rightarrow> int) \<Rightarrow> (string \<Rightarrow> bool) \<Rightarrow>
    ('b, 'c) nodeState \<Rightarrow> bool" where
  "node_inv I binv bcount accepts n \<longleftrightarrow> hub_ok I (n_hub n) \<and> binv (n_broker n) \<and> finite (live_subs I (n_hub n)) \<and>
     (\<forall>p ch. mget (tracked n p) ch \<noteq> None \<longleftrightarrow> (\<exists>s. sub_record I (n_hub n) ch p = Some s \<and> sub_Session s = p)) \<and>
     (\<forall>sid ch. (sid, ch) \<in> live_subs I (n_hub n) \<longrightarrow> accepts ch) \<and>
     bcount (n_broker n) = interests (live_subs I (n_hub n)) \<and>
     ActiveChannels n = int (card (interest_key ` live_subs I (n_hub n))) \<and>
     SubscriptionsTotal n = int (card (live_subs I (n_hub n)))"

text \<open>The contract of the broker: it counts the interests of the keys it accepts, giving one up never fails.\<close>

locale interest_broker =
  fixes bops :: "('b, 'e) brokerOps" and binv :: "'b \<Rightarrow> bool" and bcount :: "'b \<Rightarrow> string \<Rightarrow> int" and accepts :: "string \<Rightarrow> bool"
  assumes Subscribe_returns: "binv b \<Longrightarrow> \<exists>b' e. b_Subscribe bops b ch = goret (b', e)"
    and Subscribe_law: "binv b \<Longrightarrow> b_Subscribe bops b ch = goret (b', e) \<Longrightarrow>
      binv b' \<and> (e = None \<longleftrightarrow> accepts ch) \<and> bcount b' = (if accepts ch then (bcount b)(ch := bcount b ch + 1) else bcount b)"
    and Unsubscribe_returns: "binv b \<Longrightarrow> \<exists>b' e. b_Unsubscribe bops b ch = goret (b', e)"
    and Unsubscribe_law: "binv b \<Longrightarrow> bcount b ch > 0 \<Longrightarrow> b_Unsubscribe bops b ch = goret (b', e) \<Longrightarrow>
      binv b' \<and> e = None \<and> bcount b' = (bcount b)(ch := bcount b ch - 1)"
begin

lemma cluster_view:
  "hub_ok I (n_hub (fst (syncSession I cops n c))) = hub_ok I (n_hub n)"
  "binv (n_broker (fst (syncSession I cops n c))) = binv (n_broker n)"
  "view I bcount (fst (syncSession I cops n c)) = view I bcount n"
  "hub_ok I (n_hub (fst (adjustClusterChannelSubscriptions cops n ch d))) = hub_ok I (n_hub n)"
  "binv (n_broker (fst (adjustClusterChannelSubscriptions cops n ch d))) = binv (n_broker n)"
  "view I bcount (fst (adjustClusterChannelSubscriptions cops n ch d)) = view I bcount n"
  by (auto simp: syncSession_def adjustClusterChannelSubscriptions_def split: prod.split)

end


context interest_broker
begin

definition add_at :: "(sptr \<Rightarrow> sessIdent) \<Rightarrow> string \<Rightarrow> hubSubscriber \<Rightarrow> bool \<Rightarrow> nodeView \<Rightarrow> nat \<Rightarrow> ('b, 'c) nodeState \<times> bool \<Rightarrow> bool" where
  "add_at I ch sub first0 v k = (\<lambda>(n, first). hub_ok I (n_hub n) \<and> binv (n_broker n) \<and>
     view I bcount n = add_rung I ch sub first0 k v \<and> (k \<ge> 1 \<longrightarrow> first = first0) \<and> (k \<ge> 3 \<and> first0 \<longrightarrow> accepts ch))"

lemma add_commit:
  assumes ns: "IsWildcard ch \<longrightarrow> namespaced ch" and new: "v_record v ch (sub_Session sub) = None"
    and first0: "first0 \<longleftrightarrow> IsWildcard ch \<or> (\<forall>sid. (sid, ch) \<notin> v_live v)"
    and k: "k < length (addSteps I bops cops ch sub)" and at: "add_at I ch sub first0 v k s"
    and run: "commit (addSteps I bops cops ch sub ! k) s = goret (s', e)"
  shows "if e = None then add_at I ch sub first0 v (Suc k) s' else add_at I ch sub first0 v k s'"
proof -
  obtain n first where s: "s = (n, first)" by (cases s)
  consider "k = 0" | "k = 1" | "k = 2" | "k = 3" | "k = 4" using k by (fastforce simp: addSteps_def)
  then show ?thesis
  proof cases
    case 1
    have ok: "hub_ok I (n_hub n)" "binv (n_broker n)" and vw: "view I bcount n = v" using at s 1 by (simp_all add: add_at_def add_rung_def Let_def)
    obtain h f e' where h: "AddSub I (n_hub n) ch sub = goret (h, f, e')" "s' = (n\<lparr>n_hub := h\<rparr>, f)" "e = map_option HubError e'"
      using run s 1 by (auto simp: addSteps_def gobind_eq_goret)
    have rec: "sub_record I (n_hub n) ch (sub_Session sub) = None" using new vw by auto
    note a = AddSub_view [OF ok(1) ns rec h(1)]
    show ?thesis
    proof (cases e')
      case None
      then show ?thesis using a(1) a(4) [OF None] ok h vw first0 1 by (auto simp: add_at_def add_rung_def Let_def)
    next
      case (Some x)
      then show ?thesis using a(3) ok h vw 1 by (auto simp: add_at_def add_rung_def Let_def)
    qed
  next
    case 2
    then show ?thesis using run s at
      by (auto simp: addSteps_def TrackChannel_def ForceTrackChannel_def [symmetric] add_at_def add_rung_def Let_def split: if_splits)
  next
    case 3
    show ?thesis
    proof (cases first)
      case True
      obtain b e' where b: "b_Subscribe bops (n_broker n) ch = goret (b, e')"
        "(case e' of Some e \<Rightarrow> ((n\<lparr>n_broker := b\<rparr>, first), Some (BrokerError e))
           | None \<Rightarrow> ((n\<lparr>n_broker := b, ActiveChannels := ActiveChannels n + 1\<rparr>, first), None)) = (s', e)"
        using run s 3 True by (auto simp: addSteps_def brokerSubscribe_def gobind_eq_goret Let_def split: option.splits)
      have "binv (n_broker n)" using at s by (simp add: add_at_def)
      note l = Subscribe_law [OF this b(1)]
      have vw: "view I bcount n = add_rung I ch sub first0 2 v" using at s 3 by (simp add: add_at_def)
      have "ActiveChannels n = v_active v" "bcount (n_broker n) = v_count v"
        using arg_cong [OF vw, of v_active] arg_cong [OF vw, of v_count] by (simp_all add: add_rung_def Let_def)
      then show ?thesis using at s 3 True b(2) l
        by (auto simp: add_at_def add_rung_def Let_def split: option.splits if_splits)
    qed (use run s 3 at in \<open>auto simp: addSteps_def add_at_def add_rung_def Let_def\<close>)
  next
    case 4
    then show ?thesis using run s at
      by (auto simp: addSteps_def clusterSessionStep_def add_at_def add_rung_def Let_def split_beta cluster_view)
  next
    case 5
    then show ?thesis using run s at
      by (auto simp: addSteps_def clusterChannelStep_def add_at_def add_rung_def Let_def split_beta cluster_view)
  qed
qed

end


context interest_broker
begin

lemma add_rollback:
  assumes ns: "IsWildcard ch \<longrightarrow> namespaced ch" and new: "v_record v = record_put I (v_record v) ch (sub_Session sub) None"
    and live: "(SessionID (I (sub_Session sub)), ch) \<notin> v_live v" and trk: "\<not> v_tracked v (sub_Session sub) ch" and pos: "v_count v ch \<ge> 0"
    and k: "k < length (addSteps I bops cops ch sub)" and at: "add_at I ch sub first0 v (Suc k) s"
    and run: "rollback (addSteps I bops cops ch sub ! k) s = goret s'"
  shows "add_at I ch sub first0 v k s'"
proof -
  obtain n first where s: "s = (n, first)" by (cases s)
  consider "k = 0" | "k = 1" | "k = 2" | "k = 3" | "k = 4" using k by (fastforce simp: addSteps_def)
  then show ?thesis
  proof cases
    case 1
    have ok: "hub_ok I (n_hub n)" "binv (n_broker n)" and vw: "view I bcount n = add_rung I ch sub first0 1 v"
      using at s 1 by (simp_all add: add_at_def)
    obtain h l r where h: "RemoveSub I (n_hub n) ch (sub_Session sub) = goret (h, l, r)" "s' = (n\<lparr>n_hub := h\<rparr>, first)"
      using run s 1 by (auto simp: addSteps_def gobind_eq_goret)
    have "sub_record I (n_hub n) = record_put I (v_record v) ch (sub_Session sub) (Some sub)"
      "live_subs I (n_hub n) = insert (SessionID (I (sub_Session sub)), ch) (v_live v)"
      using arg_cong [OF vw, of v_record] arg_cong [OF vw, of v_live] by (simp_all add: add_rung_def Let_def)
    then have "sub_record I h = v_record v" "live_subs I h = v_live v" "hub_ok I h"
      using RemoveSub_view [OF ok(1) ns h(1)] new live by simp_all
    then show ?thesis using h ok vw 1 by (simp add: add_at_def add_rung_def Let_def)
  next
    case 2
    have "(v_tracked v)(sub_Session sub := (v_tracked v (sub_Session sub))(ch := False)) = v_tracked v"
      using trk by (simp add: fun_eq_iff)
    then show ?thesis using run s at 2 by (auto simp: addSteps_def add_at_def add_rung_def Let_def numeral_2_eq_2 [symmetric])
  next
    case 3
    show ?thesis
    proof (cases first)
      case True
      obtain b e where b: "b_Unsubscribe bops (n_broker n) ch = goret (b, e)"
        "s' = (n\<lparr>n_broker := b, ActiveChannels := ActiveChannels n - 1\<rparr>, first)"
        using run s 3 True by (auto simp: addSteps_def gobind_eq_goret)
      have i: "binv (n_broker n)" and vw: "view I bcount n = add_rung I ch sub True 3 v" and f: "first0"
        using at s 3 True by (simp_all add: add_at_def numeral_3_eq_3 [symmetric])
      have c: "bcount (n_broker n) = (v_count v)(ch := v_count v ch + 1)" "ActiveChannels n = v_active v + 1"
        using arg_cong [OF vw, of v_count] arg_cong [OF vw, of v_active] by (simp_all add: add_rung_def Let_def)
      have "binv b \<and> bcount b = v_count v" using Unsubscribe_law [OF i _ b(1)] c(1) pos by simp
      then show ?thesis using at s 3 True b(2) c(2) f vw by (simp add: add_at_def add_rung_def Let_def)
    qed (use run s 3 at in \<open>auto simp: addSteps_def add_at_def add_rung_def Let_def\<close>)
  next
    case 4
    then show ?thesis using run s at
      by (auto simp: addSteps_def clusterSessionStep_def add_at_def add_rung_def Let_def split_beta cluster_view)
  next
    case 5
    then show ?thesis using run s at
      by (auto simp: addSteps_def clusterChannelStep_def add_at_def add_rung_def Let_def split_beta cluster_view)
  qed
qed

end


context interest_broker
begin

definition remove_at :: "(sptr \<Rightarrow> sessIdent) \<Rightarrow> string \<Rightarrow> sptr \<Rightarrow> bool \<Rightarrow> nodeView \<Rightarrow> nat \<Rightarrow> ('b, 'c) nodeState \<times> bool \<Rightarrow> bool" where
  "remove_at I ch p last0 v k = (\<lambda>(n, lst). hub_ok I (n_hub n) \<and> binv (n_broker n) \<and>
     view I bcount n = remove_rung I ch p last0 k v \<and> (k \<ge> 1 \<longrightarrow> lst = last0))"

lemmas remove_rungs = remove_at_def remove_rung_def Let_def

lemma remove_commit:
  assumes ns: "IsWildcard ch \<longrightarrow> namespaced ch" and sub: "v_record v ch p = Some subscriber"
    and last0: "last0 \<longleftrightarrow> IsWildcard ch \<or> (\<forall>sid. (sid, ch) \<notin> v_live v - {(SessionID (I p), ch)})"
    and pos: "v_count v ch > 0"
    and k: "k < length (removeSteps I bops cops ch p subscriber)" and at: "remove_at I ch p last0 v k s"
    and run: "commit (removeSteps I bops cops ch p subscriber ! k) s = goret (s', e)"
  shows "if e = None then remove_at I ch p last0 v (Suc k) s' else remove_at I ch p last0 v k s'"
proof -
  obtain n lst where s: "s = (n, lst)" by (cases s)
  consider "k = 0" | "k = 1" | "k = 2" | "k = 3" | "k = 4" using k by (fastforce simp: removeSteps_def)
  then show ?thesis
  proof cases
    case 1
    have ok: "hub_ok I (n_hub n)" "binv (n_broker n)" and vw: "view I bcount n = v" using at s 1 by (simp_all add: remove_rungs)
    obtain h l r where h: "RemoveSub I (n_hub n) ch p = goret (h, l, r)" "s' = (n\<lparr>n_hub := h\<rparr>, l)"
      "e = (if \<not> r then Some SubscriptionNotFound else None)"
      using run s 1 by (auto simp: removeSteps_def gobind_eq_goret)
    note a = RemoveSub_view [OF ok(1) ns h(1)]
    have v0: "v_record v = sub_record I (n_hub n)" "v_live v = live_subs I (n_hub n)" by (simp_all flip: vw)
    have r using a sub unfolding v0 by simp
    moreover have "l = last0" using a \<open>r\<close> unfolding last0 v0 by simp
    moreover have "hub_ok I h" "sub_record I h = record_put I (v_record v) ch p None" "live_subs I h = v_live v - {(SessionID (I p), ch)}"
      using a unfolding v0 by blast+
    ultimately show ?thesis using ok(2) h vw 1 by (simp add: remove_rungs)
  next
    case 2
    then show ?thesis using run s at by (auto simp: removeSteps_def remove_rungs)
  next
    case 3
    show ?thesis
    proof (cases lst)
      case True
      obtain b e' where b: "b_Unsubscribe bops (n_broker n) ch = goret (b, e')"
        "(case e' of Some e \<Rightarrow> ((n\<lparr>n_broker := b\<rparr>, lst), Some (BrokerError e))
           | None \<Rightarrow> ((n\<lparr>n_broker := b, ActiveChannels := ActiveChannels n - 1\<rparr>, lst), None)) = (s', e)"
        using run s 3 True by (auto simp: removeSteps_def brokerUnsubscribe_def gobind_eq_goret Let_def split: option.splits)
      have i: "binv (n_broker n)" and vw: "view I bcount n = remove_rung I ch p last0 2 v" using at s 3 by (simp_all add: remove_at_def)
      have c: "ActiveChannels n = v_active v" "bcount (n_broker n) = v_count v"
        using arg_cong [OF vw, of v_active] arg_cong [OF vw, of v_count] by (simp_all add: remove_rung_def Let_def)
      have "binv b \<and> e' = None \<and> bcount b = (v_count v)(ch := v_count v ch - 1)"
        using Unsubscribe_law [OF i _ b(1)] c(2) pos by simp
      then show ?thesis using at s 3 True b(2) c by (auto simp: remove_rungs)
    qed (use run s 3 at in \<open>auto simp: removeSteps_def remove_rungs\<close>)
  next
    case 4
    then show ?thesis using run s at
      by (auto simp: removeSteps_def clusterSessionStep_def remove_rungs split_beta cluster_view)
  next
    case 5
    then show ?thesis using run s at
      by (auto simp: removeSteps_def clusterChannelStep_def remove_rungs split_beta cluster_view)
  qed
qed

lemma remove_rollback:
  assumes ns: "IsWildcard ch \<longrightarrow> namespaced ch" and sub: "v_record v = record_put I (v_record v) ch p (Some subscriber)"
    and own: "sub_Session subscriber = p" and valid: "validTopic ch" "accepts ch"
    and live: "(SessionID (I p), ch) \<in> v_live v" and trk: "v_tracked v p ch"
    and k: "k < length (removeSteps I bops cops ch p subscriber)" and at: "remove_at I ch p last0 v (Suc k) s"
    and run: "rollback (removeSteps I bops cops ch p subscriber ! k) s = goret s'"
  shows "remove_at I ch p last0 v k s'"
proof -
  obtain n lst where s: "s = (n, lst)" by (cases s)
  consider "k = 0" | "k = 1" | "k = 2" | "k = 3" | "k = 4" using k by (fastforce simp: removeSteps_def)
  then show ?thesis
  proof cases
    case 1
    have ok: "hub_ok I (n_hub n)" "binv (n_broker n)" and vw: "view I bcount n = remove_rung I ch p last0 1 v"
      using at s 1 by (simp_all add: remove_at_def)
    obtain h f e where h: "AddSub I (n_hub n) ch subscriber = goret (h, f, e)" "s' = (n\<lparr>n_hub := h\<rparr>, lst)"
      using run s 1 by (auto simp: removeSteps_def gobind_eq_goret)
    have r: "sub_record I (n_hub n) = record_put I (v_record v) ch p None"
      and l: "live_subs I (n_hub n) = v_live v - {(SessionID (I p), ch)}"
      using arg_cong [OF vw, of v_record] arg_cong [OF vw, of v_live] by (simp_all add: remove_rung_def Let_def)
    have none: "sub_record I (n_hub n) ch (sub_Session subscriber) = None" by (simp add: r own record_put_def)
    note a = AddSub_view [OF ok(1) ns none h(1)]
    have "sub_record I h = v_record v" "live_subs I h = v_live v" using a(2,4) valid r l sub own live by auto
    then show ?thesis using a(1) h ok vw 1 by (simp add: remove_rungs)
  next
    case 2
    have "(v_tracked v)(p := (v_tracked v p)(ch := True)) = v_tracked v" using trk by (simp add: fun_eq_iff)
    then show ?thesis using run s at 2 by (auto simp: removeSteps_def remove_rungs numeral_2_eq_2 [symmetric])
  next
    case 3
    show ?thesis
    proof (cases lst)
      case True
      obtain b e where b: "b_Subscribe bops (n_broker n) ch = goret (b, e)"
        "s' = (n\<lparr>n_broker := b, ActiveChannels := ActiveChannels n + 1\<rparr>, lst)"
        using run s 3 True by (auto simp: removeSteps_def gobind_eq_goret)
      have i: "binv (n_broker n)" and vw: "view I bcount n = remove_rung I ch p True 3 v" and f: "last0"
        using at s 3 True by (simp_all add: remove_at_def numeral_3_eq_3 [symmetric])
      have c: "bcount (n_broker n) = (v_count v)(ch := v_count v ch - 1)" "ActiveChannels n = v_active v - 1"
        using arg_cong [OF vw, of v_count] arg_cong [OF vw, of v_active] by (simp_all add: remove_rung_def Let_def)
      have "binv b \<and> bcount b = v_count v" using Subscribe_law [OF i b(1)] c(1) valid(2) by simp
      then show ?thesis using at s 3 True b(2) c(2) f vw by (simp add: remove_rungs)
    qed (use run s 3 at in \<open>auto simp: removeSteps_def remove_rungs\<close>)
  next
    case 4
    then show ?thesis using run s at
      by (auto simp: removeSteps_def clusterSessionStep_def remove_rungs split_beta cluster_view)
  next
    case 5
    then show ?thesis using run s at
      by (auto simp: removeSteps_def clusterChannelStep_def remove_rungs split_beta cluster_view)
  qed
qed

end


text \<open>The invariant depends on the view only.\<close>

definition view_inv :: "(string \<Rightarrow> bool) \<Rightarrow> nodeView \<Rightarrow> bool" where
  "view_inv accepts v \<longleftrightarrow> finite (v_live v) \<and>
     (\<forall>p ch. v_tracked v p ch \<longleftrightarrow> (\<exists>s. v_record v ch p = Some s \<and> sub_Session s = p)) \<and>
     (\<forall>sid ch. (sid, ch) \<in> v_live v \<longrightarrow> accepts ch) \<and> v_count v = interests (v_live v) \<and>
     v_active v = int (card (interest_key ` v_live v)) \<and> v_total v = int (card (v_live v))"

lemma node_inv_view: "node_inv I binv bcount accepts n \<longleftrightarrow>
    hub_ok I (n_hub n) \<and> binv (n_broker n) \<and> view_inv accepts (view I bcount n)"
  by (simp only: node_inv_def view_inv_def view_sel)

lemma view_inv_add:
  assumes inv: "view_inv accepts v" and new: "v_record v ch (sub_Session sub) = None" "(SessionID (I (sub_Session sub)), ch) \<notin> v_live v"
    and same: "\<And>p. SessionID (I p) = SessionID (I (sub_Session sub)) \<Longrightarrow> v_record v ch p = None"
    and first: "first \<longleftrightarrow> IsWildcard ch \<or> (\<forall>sid. (sid, ch) \<notin> v_live v)" and acc: "first \<Longrightarrow> accepts ch"
    and v': "v' = (add_rung I ch sub first 5 v)\<lparr>v_total := v_total v + 1\<rparr>"
  shows "view_inv accepts v'"
proof -
  let ?sid = "SessionID (I (sub_Session sub))"
  have fin: "finite (v_live v)" using inv by (simp add: view_inv_def)
  have live: "v_live v' = insert (?sid, ch) (v_live v)"
    and rec: "v_record v' = record_put I (v_record v) ch (sub_Session sub) (Some sub)"
    and trk: "v_tracked v' = (v_tracked v)(sub_Session sub := (v_tracked v (sub_Session sub))(ch := True))"
    and cnt: "v_count v' = (if first then (v_count v)(ch := v_count v ch + 1) else v_count v)"
    and act: "v_active v' = v_active v + (if first then 1 else 0)" and tot: "v_total v' = v_total v + 1"
    using v' by (auto simp: add_rung_def Let_def)
  have "accepts ch" using acc first inv unfolding view_inv_def by (cases first) blast+
  moreover have "v_count v' = interests (v_live v')"
    using interests_insert(1) [OF fin new(2)] inv unfolding live cnt first view_inv_def by (auto simp: fun_eq_iff)
  moreover have "v_active v' = int (card (interest_key ` v_live v'))"
    using interests_insert(2) [OF fin new(2)] inv unfolding live act first view_inv_def by simp
  moreover have "v_total v' = int (card (v_live v'))" using inv fin new(2) unfolding live tot view_inv_def by simp
  moreover have "v_tracked v' p c \<longleftrightarrow> (\<exists>s. v_record v' c p = Some s \<and> sub_Session s = p)" for p c
  proof (cases "c = ch \<and> SessionID (I p) = ?sid")
    case True
    then have "\<not> v_tracked v p c" using inv same [of p] unfolding view_inv_def by auto
    then show ?thesis using True unfolding trk rec record_put_def by auto
  next
    case False
    then have "v_tracked v' p c = v_tracked v p c" "v_record v' c p = v_record v c p" unfolding trk rec record_put_def by auto
    then show ?thesis using inv unfolding view_inv_def by simp
  qed
  ultimately show ?thesis using inv fin unfolding view_inv_def live by blast
qed

lemma view_inv_remove:
  assumes inv: "view_inv accepts v" and live0: "(SessionID (I p), ch) \<in> v_live v"
    and own: "\<And>q s. SessionID (I q) = SessionID (I p) \<Longrightarrow> v_record v ch q = Some s \<Longrightarrow> sub_Session s = p"
    and lst: "lst \<longleftrightarrow> IsWildcard ch \<or> (\<forall>sid. (sid, ch) \<notin> v_live v - {(SessionID (I p), ch)})"
    and v': "v' = (remove_rung I ch p lst 5 v)\<lparr>v_total := v_total v - 1\<rparr>"
  shows "view_inv accepts v'"
proof -
  have fin: "finite (v_live v)" using inv by (simp add: view_inv_def)
  have live: "v_live v' = v_live v - {(SessionID (I p), ch)}" and rec: "v_record v' = record_put I (v_record v) ch p None"
    and trk: "v_tracked v' = (v_tracked v)(p := (v_tracked v p)(ch := False))"
    and cnt: "v_count v' = (if lst then (v_count v)(ch := v_count v ch - 1) else v_count v)"
    and act: "v_active v' = v_active v - (if lst then 1 else 0)" and tot: "v_total v' = v_total v - 1"
    using v' by (auto simp: remove_rung_def Let_def)
  have l: "lst \<longleftrightarrow> IsWildcard ch \<or> (\<forall>sid. (sid, ch) \<notin> v_live v')" using lst by (simp add: live)
  have "v_count v' = interests (v_live v')"
    using interests_remove(1) [OF fin live0 live] inv unfolding cnt l view_inv_def by (auto simp: fun_eq_iff)
  moreover have "v_active v' = int (card (interest_key ` v_live v'))"
    using interests_remove(2) [OF fin live0 live] inv unfolding act l view_inv_def by simp
  moreover have "card (v_live v) = Suc (card (v_live v'))" unfolding live using card.remove [OF fin live0] .
  then have "v_total v' = int (card (v_live v'))" using inv unfolding tot view_inv_def by simp
  moreover have "v_tracked v' q c \<longleftrightarrow> (\<exists>s. v_record v' c q = Some s \<and> sub_Session s = q)" for q c
  proof (cases "c = ch \<and> SessionID (I q) = SessionID (I p)")
    case True
    then have "v_tracked v q c \<longrightarrow> q = p" using inv own [of q] unfolding view_inv_def by auto
    then show ?thesis using True unfolding trk rec record_put_def by auto
  next
    case False
    then have "v_tracked v' q c = v_tracked v q c" "v_record v' c q = v_record v c q" unfolding trk rec record_put_def by auto
    then show ?thesis using inv unfolding view_inv_def by simp
  qed
  ultimately show ?thesis using inv fin unfolding view_inv_def live by blast
qed


context interest_broker
begin

lemma saga_result:
  assumes "gobind saga (\<lambda>((n, _), err). case err of Some e \<Rightarrow> goret (n, Some e) | None \<Rightarrow> goret (g n, None)) = goret (n', r)"
  obtains m f where "saga = goret ((m, f), r)" "n' = (if r = None then g m else m)"
proof -
  obtain m f err where *: "saga = goret ((m, f), err)" "(case err of Some e \<Rightarrow> goret (m, Some e) | None \<Rightarrow> goret (g m, None)) = goret (n', r)"
    using assms by (auto simp: gobind_eq_goret)
  from *(2) have r: "r = err \<and> n' = (if err = None then g m else m)" by (cases err) auto
  show thesis by (rule that [of m f]) (simp_all add: r *(1))
qed

lemma add_ladder:
  assumes inv: "node_inv I binv bcount accepts n" and ns: "IsWildcard ch \<longrightarrow> namespaced ch"
    and none: "sub_record I (n_hub n) ch (sub_Session sub) = None"
    and first0: "first0 \<longleftrightarrow> IsWildcard ch \<or> (\<forall>sid. (sid, ch) \<notin> live_subs I (n_hub n))"
  shows "k < length (addSteps I bops cops ch sub) \<Longrightarrow> add_at I ch sub first0 (view I bcount n) k s \<Longrightarrow>
      commit (addSteps I bops cops ch sub ! k) s = goret (s', e) \<Longrightarrow>
      if e = None then add_at I ch sub first0 (view I bcount n) (Suc k) s' else add_at I ch sub first0 (view I bcount n) k s'"
    "k < length (addSteps I bops cops ch sub) \<Longrightarrow> add_at I ch sub first0 (view I bcount n) (Suc k) s \<Longrightarrow>
      rollback (addSteps I bops cops ch sub ! k) s = goret s' \<Longrightarrow> add_at I ch sub first0 (view I bcount n) k s'"
    "add_at I ch sub first0 (view I bcount n) 0 (n, False)"
proof -
  let ?p = "sub_Session sub" and ?v = "view I bcount n"
  have ok: "hub_ok I (n_hub n)" "binv (n_broker n)" and vi: "view_inv accepts ?v" using inv by (simp_all add: node_inv_view)
  have new: "v_record ?v ch ?p = None" using none by simp
  have f0: "first0 \<longleftrightarrow> IsWildcard ch \<or> (\<forall>sid. (sid, ch) \<notin> v_live ?v)" by (simp add: first0)
  have trk: "\<not> v_tracked ?v ?p ch" using vi none unfolding view_inv_def by simp
  have pos: "v_count ?v ch \<ge> 0" using vi unfolding view_inv_def interests_def by simp
  have rec: "v_record ?v = record_put I (v_record ?v) ch ?p None" using record_put_same [OF none] by simp
  have fr: "(SessionID (I ?p), ch) \<notin> v_live ?v" using live_record [OF ok(1), of ?p ch] none by simp
  show "k < length (addSteps I bops cops ch sub) \<Longrightarrow> add_at I ch sub first0 ?v k s \<Longrightarrow>
      commit (addSteps I bops cops ch sub ! k) s = goret (s', e) \<Longrightarrow>
      if e = None then add_at I ch sub first0 ?v (Suc k) s' else add_at I ch sub first0 ?v k s'"
    by (rule add_commit [OF ns new f0])
  show "k < length (addSteps I bops cops ch sub) \<Longrightarrow> add_at I ch sub first0 ?v (Suc k) s \<Longrightarrow>
      rollback (addSteps I bops cops ch sub ! k) s = goret s' \<Longrightarrow> add_at I ch sub first0 ?v k s'"
    by (rule add_rollback [OF ns rec fr trk pos])
  show "add_at I ch sub first0 ?v 0 (n, False)" using ok by (simp add: add_at_def add_rung_def)
qed

lemma AddSubscription_spec:
  assumes inv: "node_inv I binv bcount accepts n" and ns: "IsWildcard ch \<longrightarrow> namespaced ch"
    and run: "AddSubscription I bops cops n ch sub = goret (n', r)"
  shows "node_inv I binv bcount accepts n'"
    "r \<noteq> None \<Longrightarrow> view I bcount n' = view I bcount n"
    "r = None \<Longrightarrow> live_subs I (n_hub n') = insert (SessionID (I (sub_Session sub)), ch) (live_subs I (n_hub n))"
    "sess_closed n' = sess_closed n"
proof -
  let ?p = "sub_Session sub" and ?v = "view I bcount n"
  define first0 where "first0 \<longleftrightarrow> IsWildcard ch \<or> (\<forall>sid. (sid, ch) \<notin> live_subs I (n_hub n))"
  have ok: "hub_ok I (n_hub n)" "binv (n_broker n)" and vi: "view_inv accepts ?v" using inv by (simp_all add: node_inv_view)
  have lk: "LookupSubscriber I (n_hub n) ch ?p = sub_record I (n_hub n) ch ?p" using ns by (auto simp: sub_record_def)
  let ?goal = "node_inv I binv bcount accepts n' \<and> (r \<noteq> None \<longrightarrow> view I bcount n' = ?v) \<and>
      (r = None \<longrightarrow> live_subs I (n_hub n') = insert (SessionID (I ?p), ch) (live_subs I (n_hub n))) \<and> sess_closed n' = sess_closed n"
  have ?goal
  proof (cases "sub_record I (n_hub n) ch ?p")
    case (Some s)
    then have "n' = n" "r = None" using run lk by (simp_all add: AddSubscription_def)
    then show ?thesis using inv live_record [OF ok(1), of ?p ch] Some by auto
  next
    case None
    have fresh: "(SessionID (I ?p), ch) \<notin> live_subs I (n_hub n)" using live_record [OF ok(1), of ?p ch] None by simp
    obtain m f where m: "runSubSaga (addSteps I bops cops ch sub) (n, False) = goret ((m, f), r)"
      "n' = (if r = None then m\<lparr>SubscriptionsTotal := SubscriptionsTotal m + 1\<rparr> else m)"
      by (rule saga_result [of _ "\<lambda>n. n\<lparr>SubscriptionsTotal := SubscriptionsTotal n + 1\<rparr>" n' r]) (use run None lk in \<open>auto simp: AddSubscription_def\<close>)
    note ladder = add_ladder [OF inv ns None first0_def]
    have at: "if r = None then add_at I ch sub first0 ?v (length (addSteps I bops cops ch sub)) (m, f)
        else add_at I ch sub first0 ?v 0 (m, f)"
      by (rule saga_ladder [where P = "add_at I ch sub first0 ?v", OF ladder(1,2) ladder(3) m(1)])
    show ?thesis
    proof (cases r)
      case none: None
      have len: "length (addSteps I bops cops ch sub) = 5" by (simp add: addSteps_def)
      have at': "hub_ok I (n_hub m)" "binv (n_broker m)" "view I bcount m = add_rung I ch sub first0 5 ?v"
        and acc: "first0 \<Longrightarrow> accepts ch"
        using at none unfolding len by (simp_all add: add_at_def)
      have live: "live_subs I (n_hub m) = insert (SessionID (I ?p), ch) (live_subs I (n_hub n))"
        and tot: "SubscriptionsTotal m = SubscriptionsTotal n" and cl: "sess_closed m = sess_closed n"
        using arg_cong [OF at'(3), of v_live] arg_cong [OF at'(3), of v_total] arg_cong [OF at'(3), of v_closed]
        by (simp_all add: add_rung_def Let_def split: if_splits)
      have "view_inv accepts (view I bcount n')"
      proof (rule view_inv_add [OF vi _ _ _ _ acc])
        show "view I bcount n' = (add_rung I ch sub first0 5 ?v)\<lparr>v_total := v_total ?v + 1\<rparr>" using m(2) none at'(3) tot by simp
        show "v_record ?v ch q = None" if "SessionID (I q) = SessionID (I ?p)" for q
          using sub_record_session [OF that, of "n_hub n" ch] None by simp
      qed (use None fresh first0_def in simp_all)
      then show ?thesis using m(2) none at' live cl by (simp add: node_inv_view)
    next
      case (Some x)
      then have "hub_ok I (n_hub m)" "binv (n_broker m)" "view I bcount m = ?v" using at by (simp_all add: add_at_def add_rung_def)
      moreover from this(3) have "sess_closed m = sess_closed n" using view_sel(7) by metis
      ultimately show ?thesis using m(2) Some vi by (simp add: node_inv_view)
    qed
  qed
  then show "node_inv I binv bcount accepts n'" "r \<noteq> None \<Longrightarrow> view I bcount n' = view I bcount n"
    "r = None \<Longrightarrow> live_subs I (n_hub n') = insert (SessionID (I (sub_Session sub)), ch) (live_subs I (n_hub n))"
    "sess_closed n' = sess_closed n" by blast+
qed

end


context interest_broker
begin

lemma remove_ladder:
  assumes inv: "node_inv I binv bcount accepts n" and ns: "IsWildcard ch \<longrightarrow> namespaced ch"
    and rec: "sub_record I (n_hub n) ch p = Some sb" and own: "sub_Session sb = p"
    and last0: "last0 \<longleftrightarrow> IsWildcard ch \<or> (\<forall>sid. (sid, ch) \<notin> live_subs I (n_hub n) - {(SessionID (I p), ch)})"
  shows "k < length (removeSteps I bops cops ch p sb) \<Longrightarrow> remove_at I ch p last0 (view I bcount n) k s \<Longrightarrow>
      commit (removeSteps I bops cops ch p sb ! k) s = goret (s', e) \<Longrightarrow>
      if e = None then remove_at I ch p last0 (view I bcount n) (Suc k) s' else remove_at I ch p last0 (view I bcount n) k s'"
    "k < length (removeSteps I bops cops ch p sb) \<Longrightarrow> remove_at I ch p last0 (view I bcount n) (Suc k) s \<Longrightarrow>
      rollback (removeSteps I bops cops ch p sb ! k) s = goret s' \<Longrightarrow> remove_at I ch p last0 (view I bcount n) k s'"
    "remove_at I ch p last0 (view I bcount n) 0 (n, False)"
proof -
  let ?v = "view I bcount n"
  have ok: "hub_ok I (n_hub n)" "binv (n_broker n)" and vi: "view_inv accepts ?v" using inv by (simp_all add: node_inv_view)
  have live: "(SessionID (I p), ch) \<in> v_live ?v" using live_record [OF ok(1), of p ch] rec by simp
  have valid: "validTopic ch" "accepts ch" using live_valid [OF ok(1)] live vi unfolding view_inv_def by auto
  have trk: "v_tracked ?v p ch" using vi rec own unfolding view_inv_def by simp
  have pos: "v_count ?v ch > 0" using vi live interests_pos [of "v_live ?v" ch] unfolding view_inv_def by auto
  have r0: "v_record ?v ch p = Some sb" "v_record ?v = record_put I (v_record ?v) ch p (Some sb)"
    using rec record_put_same [OF rec] by simp_all
  have l0: "last0 \<longleftrightarrow> IsWildcard ch \<or> (\<forall>sid. (sid, ch) \<notin> v_live ?v - {(SessionID (I p), ch)})" using last0 by simp
  show "k < length (removeSteps I bops cops ch p sb) \<Longrightarrow> remove_at I ch p last0 ?v k s \<Longrightarrow>
      commit (removeSteps I bops cops ch p sb ! k) s = goret (s', e) \<Longrightarrow>
      if e = None then remove_at I ch p last0 ?v (Suc k) s' else remove_at I ch p last0 ?v k s'"
    by (rule remove_commit [where I = I, OF ns r0(1) l0 pos])
  show "k < length (removeSteps I bops cops ch p sb) \<Longrightarrow> remove_at I ch p last0 ?v (Suc k) s \<Longrightarrow>
      rollback (removeSteps I bops cops ch p sb ! k) s = goret s' \<Longrightarrow> remove_at I ch p last0 ?v k s'"
    by (rule remove_rollback [where I = I, OF ns r0(2) own valid live trk])
  show "remove_at I ch p last0 ?v 0 (n, False)" using ok by (simp add: remove_rungs)
qed

lemma RemoveSubscription_spec:
  assumes inv: "node_inv I binv bcount accepts n" and ns: "IsWildcard ch \<longrightarrow> namespaced ch"
    and own: "\<And>s. sub_record I (n_hub n) ch p = Some s \<Longrightarrow> sub_Session s = p"
    and run: "RemoveSubscription I bops cops n ch p = goret (n', r)"
  shows "node_inv I binv bcount accepts n' \<and> (r \<noteq> None \<longrightarrow> view I bcount n' = view I bcount n) \<and>
    (r = None \<longrightarrow> live_subs I (n_hub n') = live_subs I (n_hub n) - {(SessionID (I p), ch)}) \<and> sess_closed n' = sess_closed n"
proof (cases "sub_record I (n_hub n) ch p")
  case None
  have ok: "hub_ok I (n_hub n)" using inv by (simp add: node_inv_view)
  have "n' = n" "r = None" using run None ns by (auto simp: RemoveSubscription_def sub_record_def split: if_splits)
  then show ?thesis using inv live_record [OF ok, of p ch] None by auto
next
  case (Some s)
  let ?v = "view I bcount n"
  define last0 where "last0 \<longleftrightarrow> IsWildcard ch \<or> (\<forall>sid. (sid, ch) \<notin> live_subs I (n_hub n) - {(SessionID (I p), ch)})"
  have ok: "hub_ok I (n_hub n)" "binv (n_broker n)" and vi: "view_inv accepts ?v" using inv by (simp_all add: node_inv_view)
  have lk: "LookupSubscriber I (n_hub n) ch p = Some s" using Some by (auto simp: sub_record_def split: if_splits)
  obtain m f where m: "runSubSaga (removeSteps I bops cops ch p s) (n, False) = goret ((m, f), r)"
    "n' = (if r = None then m\<lparr>SubscriptionsTotal := SubscriptionsTotal m - 1\<rparr> else m)"
    by (rule saga_result [of _ "\<lambda>n. n\<lparr>SubscriptionsTotal := SubscriptionsTotal n - 1\<rparr>" n' r]) (use run lk in \<open>auto simp: RemoveSubscription_def\<close>)
  note ladder = remove_ladder [OF inv ns Some own [OF Some] last0_def]
  have "length (removeSteps I bops cops ch p s) = 5" by (simp add: removeSteps_def)
  moreover have "if r = None then remove_at I ch p last0 ?v (length (removeSteps I bops cops ch p s)) (m, f) else remove_at I ch p last0 ?v 0 (m, f)"
    by (rule saga_ladder [where P = "remove_at I ch p last0 ?v", OF ladder(1,2) ladder(3) m(1)])
  ultimately have at: "if r = None then remove_at I ch p last0 ?v 5 (m, f) else remove_at I ch p last0 ?v 0 (m, f)" by metis
  show ?thesis
  proof (cases r)
    case none: None
    have at': "hub_ok I (n_hub m)" "binv (n_broker m)" "view I bcount m = remove_rung I ch p last0 5 ?v"
      using at none by (simp_all add: remove_at_def)
    have live: "live_subs I (n_hub m) = live_subs I (n_hub n) - {(SessionID (I p), ch)}"
      and tot: "SubscriptionsTotal m = SubscriptionsTotal n" and cl: "sess_closed m = sess_closed n"
      using arg_cong [OF at'(3), of v_live] arg_cong [OF at'(3), of v_total] arg_cong [OF at'(3), of v_closed]
      by (simp_all add: remove_rung_def Let_def split: if_splits)
    have "view_inv accepts (view I bcount n')"
    proof (rule view_inv_remove [OF vi])
      show "view I bcount n' = (remove_rung I ch p last0 5 ?v)\<lparr>v_total := v_total ?v - 1\<rparr>" using m(2) none at'(3) tot by simp
      show "sub_Session s' = p" if q: "SessionID (I q) = SessionID (I p)" "v_record ?v ch q = Some s'" for q s'
        using q sub_record_session [OF q(1), of "n_hub n" ch] Some own [OF Some] by simp
      show "(SessionID (I p), ch) \<in> v_live ?v" using live_record [OF ok(1), of p ch] Some by simp
    qed (simp add: last0_def)
    then show ?thesis using m(2) none at' live cl by (simp add: node_inv_view)
  next
    case (Some x)
    then have "hub_ok I (n_hub m)" "binv (n_broker m)" "view I bcount m = ?v" using at by (simp_all add: remove_rungs)
    moreover from this(3) have "sess_closed m = sess_closed n" using view_sel(7) by metis
    ultimately show ?thesis using m(2) Some vi by (simp add: node_inv_view)
  qed
qed

end


context interest_broker
begin

lemma brokerSubscribe_spec:
  assumes "binv (n_broker n)" "brokerSubscribe bops n ch = goret (n', e)"
  shows "\<exists>b. binv b \<and> (e = None \<longleftrightarrow> accepts ch) \<and>
    n' = (if accepts ch then n\<lparr>n_broker := b, ActiveChannels := ActiveChannels n + 1\<rparr> else n\<lparr>n_broker := b\<rparr>) \<and>
    bcount b = (if accepts ch then (bcount (n_broker n))(ch := bcount (n_broker n) ch + 1) else bcount (n_broker n))"
proof -
  obtain b e' where b: "b_Subscribe bops (n_broker n) ch = goret (b, e')" using assms(2) by (auto simp: brokerSubscribe_def gobind_eq_goret)
  show ?thesis using Subscribe_law [OF assms(1) b] assms(2) b
    by (intro exI [of _ b]) (auto simp: brokerSubscribe_def Let_def split: option.splits if_splits)
qed

lemma restoreLocalSubscription_spec:
  assumes inv: "node_inv I binv bcount accepts n" and ns: "IsWildcard ch \<longrightarrow> namespaced ch"
    and run: "restoreLocalSubscription I bops n ch sub = goret (n', r)"
  shows "node_inv I binv bcount accepts n' \<and> (r \<noteq> None \<longrightarrow> view I bcount n' = view I bcount n) \<and>
    (r = None \<longrightarrow> live_subs I (n_hub n') = insert (SessionID (I (sub_Session sub)), ch) (live_subs I (n_hub n)))"
proof -
  let ?p = "sub_Session sub" and ?v = "view I bcount n"
  have ok: "hub_ok I (n_hub n)" "binv (n_broker n)" and vi: "view_inv accepts ?v" using inv by (simp_all add: node_inv_view)
  have lk: "LookupSubscriber I (n_hub n) ch ?p = sub_record I (n_hub n) ch ?p" using ns by (auto simp: sub_record_def)
  show ?thesis
  proof (cases "sub_record I (n_hub n) ch ?p")
    case (Some s)
    then have "n' = n" "r = None" using run lk by (simp_all add: restoreLocalSubscription_def)
    then show ?thesis using inv live_record [OF ok(1), of ?p ch] Some by auto
  next
    case None
    obtain h first e where h: "AddSub I (n_hub n) ch sub = goret (h, first, e)"
      using run lk None by (auto simp: restoreLocalSubscription_def gobind_eq_goret)
    note a = AddSub_view [OF ok(1) ns None h]
    have fresh: "(SessionID (I ?p), ch) \<notin> live_subs I (n_hub n)" using live_record [OF ok(1), of ?p ch] None by simp
    let ?done = "\<lambda>n. (ForceTrackChannel n ?p ch)\<lparr>SubscriptionsTotal := SubscriptionsTotal (ForceTrackChannel n ?p ch) + 1\<rparr>"
    have finish: ?thesis
      if m: "n' = ?done m" "r = None" "e = None" "n_hub m = h" "binv (n_broker m)"
        and vm: "view I bcount m = (if first then ?v\<lparr>v_record := sub_record I h, v_live := live_subs I h, v_count := (v_count ?v)(ch := v_count ?v ch + 1), v_active := v_active ?v + 1\<rparr>
            else ?v\<lparr>v_record := sub_record I h, v_live := live_subs I h\<rparr>)"
        and acc: "first \<Longrightarrow> accepts ch" for m
    proof -
      note a4 = a(4) [OF m(3)]
      have tot: "SubscriptionsTotal m = SubscriptionsTotal n"
        using arg_cong [OF vm, of v_total] by (simp split: if_splits)
      have "view_inv accepts (view I bcount n')"
      proof (rule view_inv_add [OF vi _ _ _ _ acc])
        show "view I bcount n' = (add_rung I ch sub first 5 ?v)\<lparr>v_total := v_total ?v + 1\<rparr>"
          unfolding m(1) using conjunct1 [OF a4] conjunct1 [OF conjunct2 [OF a4]] vm tot by (cases first) (simp_all add: add_rung_def Let_def)
        show "v_record ?v ch q = None" if "SessionID (I q) = SessionID (I ?p)" for q
          using sub_record_session [OF that, of "n_hub n" ch] None by simp
      qed (use None fresh a4 in simp_all)
      then show ?thesis using m a(1) a4 by (simp add: node_inv_view)
    qed
    show ?thesis
    proof (cases e)
      case (Some x)
      then have "n' = n" "r \<noteq> None" using run lk None h a(3) by (auto simp: restoreLocalSubscription_def Let_def)
      then show ?thesis using inv by auto
    next
      case e: None
      show ?thesis
      proof (cases first)
        case False
        then have m: "n' = ?done (n\<lparr>n_hub := h\<rparr>)" "r = None" using run lk None h e by (auto simp: restoreLocalSubscription_def Let_def)
        show ?thesis by (rule finish [OF m e]) (use ok False in simp_all)
      next
        case True
        obtain m e2 where m: "brokerSubscribe bops (n\<lparr>n_hub := h\<rparr>) ch = goret (m, e2)"
          using run lk None h e True by (auto simp: restoreLocalSubscription_def Let_def gobind_eq_goret)
        obtain b where b: "binv b" "e2 = None \<longleftrightarrow> accepts ch"
            "m = (if accepts ch then n\<lparr>n_hub := h, n_broker := b, ActiveChannels := ActiveChannels n + 1\<rparr> else n\<lparr>n_hub := h, n_broker := b\<rparr>)"
            "bcount b = (if accepts ch then (bcount (n_broker n))(ch := bcount (n_broker n) ch + 1) else bcount (n_broker n))"
          using brokerSubscribe_spec [of "n\<lparr>n_hub := h\<rparr>", OF _ m] ok(2) by auto
        show ?thesis
        proof (cases "accepts ch")
          case acc: True
          then have m2: "n' = ?done m" "r = None" using run lk None h e True m b(2) by (auto simp: restoreLocalSubscription_def Let_def)
          show ?thesis by (rule finish [OF m2 e]) (use ok b acc True in simp_all)
        next
          case False
          then obtain h2 l2 r2 where h2: "RemoveSub I h ch ?p = goret (h2, l2, r2)" "n' = n\<lparr>n_hub := h2, n_broker := b\<rparr>" "r \<noteq> None"
            using run lk None h e True m b(2,3) by (auto simp: restoreLocalSubscription_def Let_def gobind_eq_goret)
          have "sub_record I h2 = sub_record I (n_hub n)" "live_subs I h2 = live_subs I (n_hub n)" "hub_ok I h2"
            using RemoveSub_view [OF a(1) ns h2(1)] a(4) [OF e] record_put_same [OF None] fresh by simp_all
          then have "view I bcount n' = ?v" using h2(2) b(4) False by (simp add: view_def)
          then show ?thesis using h2 b(1) vi \<open>hub_ok I h2\<close> by (auto simp: node_inv_view)
        qed
      qed
    qed
  qed
qed

lemma removeLocalSubscriptionOnly_spec:
  assumes inv: "node_inv I binv bcount accepts n" and ns: "IsWildcard ch \<longrightarrow> namespaced ch"
    and own: "\<And>s. sub_record I (n_hub n) ch p = Some s \<Longrightarrow> sub_Session s = p"
    and run: "removeLocalSubscriptionOnly I bops n ch p True = goret (n', rmd, r)"
  shows "node_inv I binv bcount accepts n' \<and> r = None \<and> live_subs I (n_hub n') = live_subs I (n_hub n) - {(SessionID (I p), ch)} \<and>
    (rmd \<longleftrightarrow> (SessionID (I p), ch) \<in> live_subs I (n_hub n))"
proof -
  let ?v = "view I bcount n"
  have ok: "hub_ok I (n_hub n)" "binv (n_broker n)" and vi: "view_inv accepts ?v" using inv by (simp_all add: node_inv_view)
  obtain h lst rmd' where h: "RemoveSub I (n_hub n) ch p = goret (h, lst, rmd')"
    using run by (auto simp: removeLocalSubscriptionOnly_def gobind_eq_goret)
  note a = RemoveSub_view [OF ok(1) ns h]
  have lr: "(SessionID (I p), ch) \<in> live_subs I (n_hub n) \<longleftrightarrow> sub_record I (n_hub n) ch p \<noteq> None" by (rule live_record [OF ok(1)])
  show ?thesis
  proof (cases rmd')
    case False
    then have "n' = n\<lparr>n_hub := h\<rparr>" "\<not> rmd" "r = None" using run h by (simp_all add: removeLocalSubscriptionOnly_def)
    moreover have "sub_record I h = sub_record I (n_hub n)" using a False record_put_same by metis
    ultimately show ?thesis using a False lr vi ok by (simp add: node_inv_view view_def)
  next
    case True
    then obtain s where s: "sub_record I (n_hub n) ch p = Some s" using a by auto
    have live: "(SessionID (I p), ch) \<in> live_subs I (n_hub n)" using lr s by simp
    let ?m = "UntrackChannel (n\<lparr>n_hub := h\<rparr>) p ch"
    obtain m where m: "n' = m\<lparr>SubscriptionsTotal := SubscriptionsTotal m - 1\<rparr>" "rmd" "r = None" "n_hub m = h" "binv (n_broker m)"
      "view I bcount m = remove_rung I ch p lst 5 ?v"
    proof (cases lst)
      case False
      show thesis by (rule that [of ?m]) (use run h True False a ok in \<open>auto simp: removeLocalSubscriptionOnly_def Let_def remove_rung_def\<close>)
    next
      case l: True
      obtain b e where b: "b_Unsubscribe bops (n_broker n) ch = goret (b, e)"
        using run h True l by (auto simp: removeLocalSubscriptionOnly_def Let_def gobind_eq_goret)
      have "bcount (n_broker n) ch > 0" using vi live interests_pos [of "v_live ?v" ch] unfolding view_inv_def by auto
      note u = Unsubscribe_law [OF ok(2) this b]
      show thesis
        by (rule that [of "?m\<lparr>n_broker := b, ActiveChannels := ActiveChannels ?m - 1\<rparr>"])
          (use run h True l a u b in \<open>auto simp: removeLocalSubscriptionOnly_def Let_def remove_rung_def\<close>)
    qed
    have tot: "SubscriptionsTotal m = SubscriptionsTotal n"
      using arg_cong [OF m(6), of v_total] by (simp add: remove_rung_def Let_def split: if_splits)
    have "view_inv accepts (view I bcount n')"
    proof (rule view_inv_remove [OF vi])
      show "view I bcount n' = (remove_rung I ch p lst 5 ?v)\<lparr>v_total := v_total ?v - 1\<rparr>" using m(1,6) tot by simp
      show "sub_Session s' = p" if q: "SessionID (I q) = SessionID (I p)" "v_record ?v ch q = Some s'" for q s'
        using q sub_record_session [OF q(1), of "n_hub n" ch] own by simp
    qed (use live a True in simp_all)
    then show ?thesis using m a live by (simp add: node_inv_view)
  qed
qed

end

end
