(* ===== verification/NodeRun.thy ===== *)
theory NodeRun
  imports NodeSubs MemoryBroker
begin

text \<open>
  A node over the in-memory broker: the broker meets the contract of \<^verbatim>\<open>NodeSubs\<close>, the runs of a node keep its
  parts consistent, and the operations return as long as no pattern the broker refuses is presented.
\<close>

definition memBrokerOps :: "(memoryBroker, interest_error) brokerOps" where
  "memBrokerOps = \<lparr>b_Subscribe = broker_Subscribe,
     b_Unsubscribe = (\<lambda>b ch. gobind (broker_Unsubscribe b ch) (\<lambda>b. goret (b, None)))\<rparr>"

interpretation mem: interest_broker memBrokerOps broker_inv interest_count routable
proof
  fix b ch b' e
  assume inv: "broker_inv b"
  show "\<exists>b' e. b_Subscribe memBrokerOps b ch = goret (b', e)"
    using broker_Subscribe_spec [OF inv, of ch] by (auto simp: memBrokerOps_def)
  show "\<exists>b' e. b_Unsubscribe memBrokerOps b ch = goret (b', e)"
    using broker_Unsubscribe_spec [OF inv, of ch] by (auto simp: memBrokerOps_def)
  {
    assume "b_Subscribe memBrokerOps b ch = goret (b', e)"
    then show "broker_inv b' \<and> (e = None \<longleftrightarrow> routable ch) \<and>
        interest_count b' = (if routable ch then (interest_count b)(ch := interest_count b ch + 1) else interest_count b)"
      using broker_Subscribe_spec [OF inv, of ch] by (auto simp: memBrokerOps_def fun_eq_iff)
  next
    assume "0 < interest_count b ch" "b_Unsubscribe memBrokerOps b ch = goret (b', e)"
    then show "broker_inv b' \<and> e = None \<and> interest_count b' = (interest_count b)(ch := interest_count b ch - 1)"
      using broker_Unsubscribe_spec [OF inv, of ch] by (auto simp: memBrokerOps_def fun_eq_iff)
  }
qed

section \<open>Runs\<close>

definition newNode :: "int \<Rightarrow> int \<Rightarrow> int \<Rightarrow> string \<Rightarrow> 'c \<Rightarrow> (memoryBroker, 'c) nodeState" where
  "newNode lag maxConns sz epoch cl =
     \<lparr>n_hub = NewHub lag maxConns, n_broker = NewMemoryBroker sz epoch, n_cluster = cl, tracked = (\<lambda>_. []),
      sess_closed = (\<lambda>_. False), ActiveChannels = 0, SubscriptionsTotal = 0\<rparr>"

text \<open>\<open>node_run I cops R n\<close>: the states a node reaches when the patterns presented to it satisfy \<open>R\<close>. Failing
  operations are steps as well. A session cancels its own subscriptions; sessions close and the cluster
  stores change at any time.\<close>

inductive node_run ::
    "(sptr \<Rightarrow> sessIdent) \<Rightarrow> 'c clusterOps \<Rightarrow> (string \<Rightarrow> bool) \<Rightarrow> (memoryBroker, 'c) nodeState \<Rightarrow> bool" for I cops R where
  start: "sz \<ge> 0 \<Longrightarrow> node_run I cops R (newNode lag maxConns sz epoch cl)"
| add: "node_run I cops R n \<Longrightarrow> (IsWildcard ch \<longrightarrow> namespaced ch \<and> R ch) \<Longrightarrow>
    AddSubscription I memBrokerOps cops n ch sub = goret (n', r) \<Longrightarrow> node_run I cops R n'"
| remove: "node_run I cops R n \<Longrightarrow> (IsWildcard ch \<longrightarrow> namespaced ch) \<Longrightarrow>
    (\<forall>s. LookupSubscriber I (n_hub n) ch c = Some s \<longrightarrow> sub_Session s = c) \<Longrightarrow>
    RemoveSubscription I memBrokerOps cops n ch c = goret (n', r) \<Longrightarrow> node_run I cops R n'"
| restore: "node_run I cops R n \<Longrightarrow> (IsWildcard ch \<longrightarrow> namespaced ch \<and> R ch) \<Longrightarrow>
    restoreLocalSubscription I memBrokerOps n ch sub = goret (n', e) \<Longrightarrow> node_run I cops R n'"
| fence: "node_run I cops R n \<Longrightarrow> (IsWildcard ch \<longrightarrow> namespaced ch) \<Longrightarrow>
    (\<forall>s. LookupSubscriber I (n_hub n) ch c = Some s \<longrightarrow> sub_Session s = c) \<Longrightarrow>
    removeLocalSubscriptionOnly I memBrokerOps n ch c True = goret (n', rmd, e) \<Longrightarrow> node_run I cops R n'"
| broadcast: "node_run I cops R n \<Longrightarrow> \<not> IsWildcard ch \<Longrightarrow> mergeMatchingSubscribers I (n_hub n) ch = goret (h, matched) \<Longrightarrow>
    node_run I cops R (n\<lparr>n_hub := h\<rparr>)"
| delivered: "node_run I cops R n \<Longrightarrow> node_run I cops R (n\<lparr>n_hub := recordDeliveredOffsets I (n_hub n) ch off cl\<rparr>)"
| publish: "node_run I cops R n \<Longrightarrow> ValidateTopic ch = None \<Longrightarrow> unat (nextOff (ring_or_new (n_broker n) ch pub)) < 2 ^ 64 - 1 \<Longrightarrow>
    Publish (n_broker n) ch now pub = goret (b, off, ev) \<Longrightarrow> node_run I cops R (n\<lparr>n_broker := b\<rparr>)"
| close: "node_run I cops R n \<Longrightarrow> node_run I cops R (n\<lparr>sess_closed := f\<rparr>)"
| cluster: "node_run I cops R n \<Longrightarrow> node_run I cops R (n\<lparr>n_cluster := cl\<rparr>)"

abbreviation mem_inv :: "(sptr \<Rightarrow> sessIdent) \<Rightarrow> (memoryBroker, 'c) nodeState \<Rightarrow> bool" where
  "mem_inv I n \<equiv> node_inv I broker_inv interest_count routable n"

lemma newNode_inv:
  assumes "sz \<ge> 0"
  shows "mem_inv I (newNode lag maxConns sz epoch cl)"
proof -
  have "sub_record I (NewHub lag maxConns) ch p = None" for ch p
    by (simp add: sub_record_def LookupSubscriber_def subShard_of_def NewHub_def newSubShard_def)
  moreover have "hub_ok I (NewHub lag maxConns)" using sub_inv_new(1) by (simp add: hub_ok_def NewHub_def)
  moreover have "interest_count (NewMemoryBroker sz epoch) ch = 0" for ch
    by (simp add: interest_count_def NewMemoryBroker_def mzero_def)
  ultimately show ?thesis
    using NewMemoryBroker_inv [OF assms] sub_inv_new(2) [of I lag maxConns]
    by (simp add: node_inv_def newNode_def interests_def fun_eq_iff)
qed

lemma mem_inv_hub:
  assumes "mem_inv I n" "hub_ok I h" "live_subs I h = live_subs I (n_hub n)"
    and "\<And>ch p. map_option sub_Session (sub_record I h ch p) = map_option sub_Session (sub_record I (n_hub n) ch p)"
  shows "mem_inv I (n\<lparr>n_hub := h\<rparr>)"
proof -
  have "(\<exists>s. sub_record I h ch p = Some s \<and> sub_Session s = p) \<longleftrightarrow> (\<exists>s. sub_record I (n_hub n) ch p = Some s \<and> sub_Session s = p)" for ch p
    using assms(4) [of ch p] by (cases "sub_record I h ch p"; cases "sub_record I (n_hub n) ch p") auto
  then show ?thesis using assms(1-3) unfolding node_inv_def by simp
qed

lemma sub_record_own:
  assumes "\<forall>s. LookupSubscriber I h ch c = Some s \<longrightarrow> sub_Session s = c" "sub_record I h ch c = Some s"
  shows "sub_Session s = c"
  using assms by (auto simp: sub_record_def split: if_splits)

lemma node_run_inv: "node_run I cops R n \<Longrightarrow> mem_inv I n"
proof (induction rule: node_run.induct)
  case (start sz lag maxConns epoch cl)
  then show ?case by (rule newNode_inv)
next
  case (add n ch sub n' r)
  show ?case by (rule mem.AddSubscription_spec(1) [OF add(4) _ add(3)]) (use add(2) in blast)
next
  case (remove n ch c n' r)
  show ?case using mem.RemoveSubscription_spec [OF remove(5) remove(2) sub_record_own [OF remove(3)] remove(4)] by blast
next
  case (restore n ch sub n' e)
  have "IsWildcard ch \<longrightarrow> namespaced ch" using restore(2) by blast
  then show ?case using mem.restoreLocalSubscription_spec [OF restore(4) _ restore(3)] by blast
next
  case (fence n ch c n' rmd e)
  show ?case using mem.removeLocalSubscriptionOnly_spec [OF fence(5) fence(2) sub_record_own [OF fence(3)] fence(4)] by blast
next
  case (broadcast n ch h matched)
  have ok: "hub_ok I (n_hub n)" using broadcast(4) by (simp add: node_inv_def)
  show ?case
  proof (rule mergeMatching_spec [OF hub_okD(1) [OF ok] broadcast(2) broadcast(3) [unfolded goret_def]])
    fix m mm
    assume m: "Inr (h, matched) = Inr ((n_hub n)\<lparr>hub_matcher := m\<rparr>, mm)" "sub_inv I ((n_hub n)\<lparr>hub_matcher := m\<rparr>)"
      "live_subs I ((n_hub n)\<lparr>hub_matcher := m\<rparr>) = live_subs I (n_hub n)"
    have "hub_ok I h" using m ok by (simp add: hub_ok_def)
    then show ?case
      using m by (intro mem_inv_hub [OF broadcast(4)]) (simp_all add: sub_record_def LookupSubscriber_def subShard_of_def)
  qed
next
  case (delivered n ch off cl)
  let ?h = "recordDeliveredOffsets I (n_hub n) ch off cl"
  have ok: "hub_ok I (n_hub n)" using delivered(2) by (simp add: node_inv_def)
  note r = recordDeliveredOffsets_spec [OF hub_okD(1) [OF ok], of ch off cl]
  have w: "wcSubs ?h = wcSubs (n_hub n)"
    by (simp add: recordDeliveredOffsets_def set_subShard_def Let_def split: option.split)
  show ?case
  proof (rule mem_inv_hub [OF delivered(2)])
    show "hub_ok I ?h" using r(1) ok w by (simp add: hub_ok_def)
    show "map_option sub_Session (sub_record I ?h ch' p) = map_option sub_Session (sub_record I (n_hub n) ch' p)" for ch' p
    proof (cases "IsWildcard ch'")
      case True
      then show ?thesis using w by (simp add: sub_record_def LookupSubscriber_def)
    next
      case False
      then show ?thesis using r(2) [of ch']
        by (cases "mget (exact (n_hub n) ch) (SessionID (I p))") (auto simp: sub_record_def Lookup_exact raiseDelivered_get)
    qed
  qed (rule r(3))
next
  case (publish n ch pub now b off ev)
  have inv: "broker_inv (n_broker n)" using publish(5) by (simp add: node_inv_def)
  have "broker_inv b" "wcCounts b = wcCounts (n_broker n)" "subs_of_ch b = subs_of_ch (n_broker n)"
    using Publish_spec [OF inv publish(2,3), of now] publish(4) by auto
  then have "broker_inv b" "interest_count b = interest_count (n_broker n)" by (simp_all add: interest_count_def fun_eq_iff)
  then show ?case using publish(5) by (simp add: node_inv_def)
next
  case (close n f)
  then show ?case by (simp add: node_inv_def)
next
  case (cluster n cl)
  then show ?case by (simp add: node_inv_def)
qed


section \<open>The operations return\<close>

text \<open>Total correctness of a saga: steps that return and keep the ladder make the saga return.\<close>

lemma rollbackAll_returns:
  assumes "\<And>k s. k < length executed \<Longrightarrow> P (Suc k) s \<Longrightarrow> \<exists>s'. rollback (rev executed ! k) s = goret s' \<and> P k s'"
    and "P (length executed) s"
  shows "\<exists>s'. rollbackAll executed s = goret s' \<and> P 0 s'"
  using assms
proof (induction executed arbitrary: s)
  case (Cons st executed)
  obtain t where t: "rollback st s = goret t" "P (length executed) t"
    using Cons(2) [of "length executed" s] Cons(3) by (auto simp: nth_append)
  have "\<exists>s'. rollbackAll executed t = goret s' \<and> P 0 s'"
  proof (rule Cons(1) [OF _ t(2)])
    show "\<exists>s'. rollback (rev executed ! k) s = goret s' \<and> P k s'" if "k < length executed" "P (Suc k) s" for k s
      using Cons(2) [of k s] that by (simp add: nth_append)
  qed
  then show ?case using t(1) by simp
qed simp

lemma saga_returns:
  assumes commits: "\<And>k s. k < length steps \<Longrightarrow> P k s \<Longrightarrow>
      \<exists>s' e. commit (steps ! k) s = goret (s', e) \<and> (if e = None then P (Suc k) s' else P k s')"
    and rollbacks: "\<And>k s. k < length steps \<Longrightarrow> P (Suc k) s \<Longrightarrow> \<exists>s'. rollback (steps ! k) s = goret s' \<and> P k s'"
    and start: "P 0 s"
  shows "\<exists>s' r. runSubSaga steps s = goret (s', r) \<and> (if r = None then P (length steps) s' else P 0 s')"
proof -
  have "\<exists>s' r. sagaLoop executed sts s = goret (s', r) \<and> (if r = None then P (length steps) s' else P 0 s')"
    if "steps = rev executed @ sts" "P (length executed) s" for executed sts s
    using that
  proof (induction sts arbitrary: executed s)
    case (Cons st sts)
    have k: "length executed < length steps" "steps ! length executed = st" using Cons(2) by (simp_all add: nth_append)
    obtain t e where t: "commit st s = goret (t, e)" "if e = None then P (Suc (length executed)) t else P (length executed) t"
      using commits [OF k(1) Cons(3)] k(2) by auto
    show ?case
    proof (cases e)
      case None
      then show ?thesis using Cons(1) [of "st # executed" t] Cons(2) t by simp
    next
      case (Some x)
      have "\<exists>s'. rollbackAll executed t = goret s' \<and> P 0 s'"
      proof (rule rollbackAll_returns [where P = P])
        show "P (length executed) t" using t(2) Some by simp
        show "\<exists>s'. rollback (rev executed ! k) s = goret s' \<and> P k s'" if "k < length executed" "P (Suc k) s" for k s
          using rollbacks [of k s] that Cons(2) by (simp add: nth_append)
      qed
      then obtain s' where "rollbackAll executed t = goret s'" "P 0 s'" by blast
      then show ?thesis using t(1) Some by (intro exI [of _ s'] exI [of _ "Some (step_name st, x)"]) simp
    qed
  qed simp
  from this [of "[]" steps s] show ?thesis using start by (simp add: runSubSaga_def)
qed

text \<open>A hub is tidy when its trie has no tomb and every pattern in it is one the broker accepts.\<close>

definition hub_tidy :: "hub \<Rightarrow> bool" where
  "hub_tidy h \<longleftrightarrow> no_tomb (hub_matcher h) \<and> (\<forall>key t. mget (wcSubs h) key = Some t \<longrightarrow> routable (Topic t))"

lemma routable_front:
  assumes "routable ch" "IsWildcard ch"
  shows "literal_segs (butlast (SplitSegments ch))"
  using assms not_IsWildcard_literal [of ch] by (auto simp: routable_def)

lemma tidy_shorter:
  assumes ok: "hub_ok I h" and "hub_tidy h" "routable ch" "IsWildcard ch"
  shows "subs_at (hub_matcher h) (butlast (SplitSegments ch)) = {}"
proof -
  have w: "wc_inv I h" by (rule hub_okD(2) [OF ok])
  have "SplitSegments p \<noteq> butlast (SplitSegments ch)" if "(p, x) \<in> patterns h" for p x
    using routable_front [OF assms(3,4)] patterns_wild(1) [OF w that] not_IsWildcard_literal [of p] by auto
  then show ?thesis using w by (auto simp: wc_inv_def subs_of_def)
qed

lemma AddSub_tidy:
  assumes ok: "hub_ok I h" and tidy: "hub_tidy h" and ch: "IsWildcard ch \<longrightarrow> namespaced ch \<and> routable ch"
  shows "\<exists>h' f e. AddSub I h ch sub = goret (h', f, e) \<and> hub_tidy h'"
proof (cases "IsWildcard ch")
  case True
  have tr: "trie_inv (hub_matcher h)" using hub_okD(2) [OF ok] by (simp add: wc_inv_def)
  have nt: "no_tomb (hub_matcher h)" using tidy by (simp add: hub_tidy_def)
  obtain t' where "subscribe_loop (hub_matcher h) (SplitSegments ch) sub = Some (Inr t')" "no_tomb t'"
    using subscribe_loop_no_tomb [OF tr SplitSegments_nonempty nt] by blast
  then show ?thesis using True ch tidy
    by (auto simp: AddSub_def addWildcardSub_def Subscribe_def validateSubscriber_def comparable_sub_def Let_def gobind_def goret_def hub_tidy_def
        split: option.split)
next
  case False
  have "hub_matcher (set_subShard h ch s) = hub_matcher h \<and> wcSubs (set_subShard h ch s) = wcSubs h" for s by simp
  then show ?thesis using False tidy
    by (auto simp: AddSub_def hub_tidy_def Let_def split: option.split prod.split)
qed

lemma RemoveSub_tidy:
  assumes ok: "hub_ok I h" and tidy: "hub_tidy h" and ch: "IsWildcard ch \<longrightarrow> namespaced ch"
  shows "\<exists>h' l r. RemoveSub I h ch c = goret (h', l, r) \<and> hub_tidy h'"
proof (cases "IsWildcard ch")
  case wild: True
  have w: "wc_inv I h" by (rule hub_okD(2) [OF ok])
  have tr: "trie_inv (hub_matcher h)" using w by (simp add: wc_inv_def)
  have nt: "no_tomb (hub_matcher h)" using tidy by (simp add: hub_tidy_def)
  show ?thesis
  proof (cases "mget (wcSubs h) (wcKey I c ch)")
    case None
    then show ?thesis using wild tidy by (auto simp: RemoveSub_def removeWildcardSub_def)
  next
    case (Some t)
    have t: "routable (Topic t)" "IsWildcard (Topic t)" using tidy Some wc_inv_entry(2) [OF w Some] by (auto simp: hub_tidy_def)
    obtain m where m: "unsubscribe_loop (hub_matcher h) (SplitSegments (Topic t)) (Subscriber t) = Some (Inr m)" "no_tomb m"
      using unsubscribe_loop_no_tomb [OF tr SplitSegments_nonempty nt] tidy_shorter [OF ok tidy t] by blast
    then show ?thesis using wild Some tidy
      by (auto simp: RemoveSub_def removeWildcardSub_def Unsubscribe_def Let_def gobind_def goret_def hub_tidy_def)
  qed
next
  case False
  have "hub_matcher (set_subShard h ch s) = hub_matcher h \<and> wcSubs (set_subShard h ch s) = wcSubs h" for s by simp
  then show ?thesis using False tidy by (auto simp: RemoveSub_def hub_tidy_def Let_def split: prod.split)
qed

lemma mergeMatching_tidy:
  assumes "hub_ok I h" "hub_tidy h"
  shows "\<exists>matched. mergeMatchingSubscribers I h ch = goret (h, matched)"
proof -
  have "trie_inv (hub_matcher h)" using hub_okD(2) [OF assms(1)] by (simp add: wc_inv_def)
  then have "\<exists>s. Lookup (hub_matcher h) ch = Some (Inr (hub_matcher h, s))"
    using lookup_loop_no_tomb [of "hub_matcher h" "SplitSegments ch"] assms(2)
    by (auto simp: Lookup_def Let_def list_ex_iff hub_tidy_def)
  then show ?thesis by (auto simp: mergeMatchingSubscribers_def Let_def gobind_def goret_def)
qed


lemma cluster_hub [simp]:
  "n_hub (fst (syncSession I cops n c)) = n_hub n" "n_hub (fst (adjustClusterChannelSubscriptions cops n ch d)) = n_hub n"
  by (auto simp: syncSession_def adjustClusterChannelSubscriptions_def split: prod.split)

lemma brokerOps_return:
  assumes "broker_inv (n_broker n)"
  shows "\<exists>n' e. brokerSubscribe memBrokerOps n ch = goret (n', e) \<and> n_hub n' = n_hub n"
    "\<exists>n' e. brokerUnsubscribe memBrokerOps n ch = goret (n', e) \<and> n_hub n' = n_hub n"
  using mem.Subscribe_returns [OF assms, of ch] mem.Unsubscribe_returns [OF assms, of ch]
  by (auto simp: brokerSubscribe_def brokerUnsubscribe_def Let_def split: option.split)

lemma add_steps_return:
  assumes k: "k < length (addSteps I memBrokerOps cops ch sub)" and ok: "hub_ok I (n_hub n)" "broker_inv (n_broker n)" "hub_tidy (n_hub n)"
    and ch: "IsWildcard ch \<longrightarrow> namespaced ch \<and> routable ch"
  shows "\<exists>n' f' e. commit (addSteps I memBrokerOps cops ch sub ! k) (n, f) = goret ((n', f'), e) \<and> hub_tidy (n_hub n')"
    "\<exists>n' f'. rollback (addSteps I memBrokerOps cops ch sub ! k) (n, f) = goret (n', f') \<and> hub_tidy (n_hub n')"
proof -
  have ns: "IsWildcard ch \<longrightarrow> namespaced ch" using ch by blast
  obtain h1 f1 e1 where h1: "AddSub I (n_hub n) ch sub = goret (h1, f1, e1)" "hub_tidy h1"
    using AddSub_tidy [OF ok(1,3) ch] by blast
  obtain h2 l2 r2 where h2: "RemoveSub I (n_hub n) ch (sub_Session sub) = goret (h2, l2, r2)" "hub_tidy h2"
    using RemoveSub_tidy [OF ok(1,3) ns] by blast
  obtain n3 e3 where n3: "brokerSubscribe memBrokerOps n ch = goret (n3, e3)" "n_hub n3 = n_hub n"
    using brokerOps_return(1) [OF ok(2)] by blast
  obtain b4 e4 where b4: "b_Unsubscribe memBrokerOps (n_broker n) ch = goret (b4, e4)"
    using mem.Unsubscribe_returns [OF ok(2)] by blast
  consider "k = 0" | "k = 1" | "k = 2" | "k = 3" | "k = 4" using k by (fastforce simp: addSteps_def)
  then show "\<exists>n' f' e. commit (addSteps I memBrokerOps cops ch sub ! k) (n, f) = goret ((n', f'), e) \<and> hub_tidy (n_hub n')"
    by cases (use h1 n3 ok in \<open>auto simp: addSteps_def TrackChannel_def clusterSessionStep_def clusterChannelStep_def split_beta\<close>)
  consider "k = 0" | "k = 1" | "k = 2" | "k = 3" | "k = 4" using k by (fastforce simp: addSteps_def)
  then show "\<exists>n' f'. rollback (addSteps I memBrokerOps cops ch sub ! k) (n, f) = goret (n', f') \<and> hub_tidy (n_hub n')"
    by cases (use h2 b4 ok in \<open>auto simp: addSteps_def clusterSessionStep_def clusterChannelStep_def\<close>)
qed

lemma remove_steps_return:
  assumes k: "k < length (removeSteps I memBrokerOps cops ch p s)" and ok: "hub_ok I (n_hub n)" "broker_inv (n_broker n)" "hub_tidy (n_hub n)"
    and ch: "IsWildcard ch \<longrightarrow> namespaced ch \<and> routable ch"
  shows "\<exists>n' f' e. commit (removeSteps I memBrokerOps cops ch p s ! k) (n, f) = goret ((n', f'), e) \<and> hub_tidy (n_hub n')"
    "\<exists>n' f'. rollback (removeSteps I memBrokerOps cops ch p s ! k) (n, f) = goret (n', f') \<and> hub_tidy (n_hub n')"
proof -
  have ns: "IsWildcard ch \<longrightarrow> namespaced ch" using ch by blast
  obtain h1 f1 e1 where h1: "AddSub I (n_hub n) ch s = goret (h1, f1, e1)" "hub_tidy h1"
    using AddSub_tidy [OF ok(1,3) ch] by blast
  obtain h2 l2 r2 where h2: "RemoveSub I (n_hub n) ch p = goret (h2, l2, r2)" "hub_tidy h2"
    using RemoveSub_tidy [OF ok(1,3) ns] by blast
  obtain n3 e3 where n3: "brokerUnsubscribe memBrokerOps n ch = goret (n3, e3)" "n_hub n3 = n_hub n"
    using brokerOps_return(2) [OF ok(2)] by blast
  obtain b4 e4 where b4: "b_Subscribe memBrokerOps (n_broker n) ch = goret (b4, e4)"
    using mem.Subscribe_returns [OF ok(2)] by blast
  consider "k = 0" | "k = 1" | "k = 2" | "k = 3" | "k = 4" using k by (fastforce simp: removeSteps_def)
  then show "\<exists>n' f' e. commit (removeSteps I memBrokerOps cops ch p s ! k) (n, f) = goret ((n', f'), e) \<and> hub_tidy (n_hub n')"
    by cases (use h2 n3 ok in \<open>auto simp: removeSteps_def clusterSessionStep_def clusterChannelStep_def split_beta\<close>)
  consider "k = 0" | "k = 1" | "k = 2" | "k = 3" | "k = 4" using k by (fastforce simp: removeSteps_def)
  then show "\<exists>n' f'. rollback (removeSteps I memBrokerOps cops ch p s ! k) (n, f) = goret (n', f') \<and> hub_tidy (n_hub n')"
    by cases (use h1 b4 ok in \<open>auto simp: removeSteps_def clusterSessionStep_def clusterChannelStep_def\<close>)
qed


lemma AddSubscription_returns:
  fixes cops :: "'c clusterOps" and n :: "(memoryBroker, 'c) nodeState"
  assumes inv: "mem_inv I n" and tidy: "hub_tidy (n_hub n)" and ch: "IsWildcard ch \<longrightarrow> namespaced ch \<and> routable ch"
  shows "\<exists>n' r. AddSubscription I memBrokerOps cops n ch sub = goret (n', r) \<and> hub_tidy (n_hub n')"
proof (cases "sub_record I (n_hub n) ch (sub_Session sub)")
  case (Some s)
  then show ?thesis using tidy by (auto simp: AddSubscription_def sub_record_def split: if_splits)
next
  case None
  have ns: "IsWildcard ch \<longrightarrow> namespaced ch" using ch by blast
  have lk: "LookupSubscriber I (n_hub n) ch (sub_Session sub) = None" using None ns by (auto simp: sub_record_def split: if_splits)
  define first0 where "first0 \<longleftrightarrow> IsWildcard ch \<or> (\<forall>sid. (sid, ch) \<notin> live_subs I (n_hub n))"
  note ladder = mem.add_ladder [OF inv ns None first0_def]
  define P where "P k s \<longleftrightarrow> mem.add_at I ch sub first0 (view I interest_count n) k s \<and> hub_tidy (n_hub (fst s))" for k and s :: "(memoryBroker, 'c) nodeState \<times> bool"
  have okD: "hub_ok I (n_hub m)" "broker_inv (n_broker m)" "hub_tidy (n_hub m)" if "P k (m, f)" for k m f
    using that by (simp_all add: P_def mem.add_at_def)
  have "\<exists>s' r. runSubSaga (addSteps I memBrokerOps cops ch sub) (n, False) = goret (s', r) \<and>
      (if r = None then P (length (addSteps I memBrokerOps cops ch sub)) s' else P 0 s')"
  proof (rule saga_returns)
    fix k and s :: "(memoryBroker, 'c) nodeState \<times> bool"
    assume k: "k < length (addSteps I memBrokerOps cops ch sub)"
    obtain m f where s: "s = (m, f)" by (cases s)
    {
      assume "P k s"
      then have p: "P k (m, f)" by (simp add: s)
      obtain m' f' e where c: "commit (addSteps I memBrokerOps cops ch sub ! k) (m, f) = goret ((m', f'), e)" "hub_tidy (n_hub m')"
        using add_steps_return(1) [OF k okD [OF p] ch] by blast
      then show "\<exists>s' e. commit (addSteps I memBrokerOps cops ch sub ! k) s = goret (s', e) \<and> (if e = None then P (Suc k) s' else P k s')"
        using ladder(1) [OF k _ c(1)] p unfolding s P_def by auto
    next
      assume "P (Suc k) s"
      then have p: "P (Suc k) (m, f)" by (simp add: s)
      obtain m' f' where c: "rollback (addSteps I memBrokerOps cops ch sub ! k) (m, f) = goret (m', f')" "hub_tidy (n_hub m')"
        using add_steps_return(2) [OF k okD [OF p] ch] by blast
      then show "\<exists>s'. rollback (addSteps I memBrokerOps cops ch sub ! k) s = goret s' \<and> P k s'"
        using ladder(2) [OF k _ c(1)] p unfolding s P_def by auto
    }
  qed (use ladder(3) tidy in \<open>simp add: P_def\<close>)
  then obtain m f r where "runSubSaga (addSteps I memBrokerOps cops ch sub) (n, False) = goret ((m, f), r)" "hub_tidy (n_hub m)"
    by (auto simp: P_def split: if_splits)
  then show ?thesis using lk by (cases r) (auto simp: AddSubscription_def)
qed

lemma RemoveSubscription_returns:
  fixes cops :: "'c clusterOps" and n :: "(memoryBroker, 'c) nodeState"
  assumes inv: "mem_inv I n" and tidy: "hub_tidy (n_hub n)" and ns: "IsWildcard ch \<longrightarrow> namespaced ch"
    and own: "\<And>s. sub_record I (n_hub n) ch p = Some s \<Longrightarrow> sub_Session s = p"
  shows "\<exists>n' r. RemoveSubscription I memBrokerOps cops n ch p = goret (n', r) \<and> hub_tidy (n_hub n')"
proof (cases "sub_record I (n_hub n) ch p")
  case None
  then show ?thesis using tidy ns by (auto simp: RemoveSubscription_def sub_record_def split: if_splits)
next
  case (Some sb)
  have lk: "LookupSubscriber I (n_hub n) ch p = Some sb" using Some by (auto simp: sub_record_def split: if_splits)
  have "hub_ok I (n_hub n)" using inv by (simp add: node_inv_def)
  then have "(SessionID (I p), ch) \<in> live_subs I (n_hub n)" using live_record Some by simp
  then have ch: "IsWildcard ch \<longrightarrow> namespaced ch \<and> routable ch" using inv ns unfolding node_inv_def by blast
  define last0 where "last0 \<longleftrightarrow> IsWildcard ch \<or> (\<forall>sid. (sid, ch) \<notin> live_subs I (n_hub n) - {(SessionID (I p), ch)})"
  note ladder = mem.remove_ladder [OF inv ns Some own [OF Some] last0_def]
  define P where "P k s \<longleftrightarrow> mem.remove_at I ch p last0 (view I interest_count n) k s \<and> hub_tidy (n_hub (fst s))" for k and s :: "(memoryBroker, 'c) nodeState \<times> bool"
  have okD: "hub_ok I (n_hub m)" "broker_inv (n_broker m)" "hub_tidy (n_hub m)" if "P k (m, f)" for k m f
    using that by (simp_all add: P_def mem.remove_at_def)
  have "\<exists>s' r. runSubSaga (removeSteps I memBrokerOps cops ch p sb) (n, False) = goret (s', r) \<and>
      (if r = None then P (length (removeSteps I memBrokerOps cops ch p sb)) s' else P 0 s')"
  proof (rule saga_returns)
    fix k and s :: "(memoryBroker, 'c) nodeState \<times> bool"
    assume k: "k < length (removeSteps I memBrokerOps cops ch p sb)"
    obtain m f where s: "s = (m, f)" by (cases s)
    {
      assume "P k s"
      then have p: "P k (m, f)" by (simp add: s)
      obtain m' f' e where c: "commit (removeSteps I memBrokerOps cops ch p sb ! k) (m, f) = goret ((m', f'), e)" "hub_tidy (n_hub m')"
        using remove_steps_return(1) [OF k okD [OF p] ch] by blast
      then show "\<exists>s' e. commit (removeSteps I memBrokerOps cops ch p sb ! k) s = goret (s', e) \<and> (if e = None then P (Suc k) s' else P k s')"
        using ladder(1) [OF k _ c(1)] p unfolding s P_def by auto
    next
      assume "P (Suc k) s"
      then have p: "P (Suc k) (m, f)" by (simp add: s)
      obtain m' f' where c: "rollback (removeSteps I memBrokerOps cops ch p sb ! k) (m, f) = goret (m', f')" "hub_tidy (n_hub m')"
        using remove_steps_return(2) [OF k okD [OF p] ch] by blast
      then show "\<exists>s'. rollback (removeSteps I memBrokerOps cops ch p sb ! k) s = goret s' \<and> P k s'"
        using ladder(2) [OF k _ c(1)] p unfolding s P_def by auto
    }
  qed (use ladder(3) tidy in \<open>simp add: P_def\<close>)
  then obtain m f r where "runSubSaga (removeSteps I memBrokerOps cops ch p sb) (n, False) = goret ((m, f), r)" "hub_tidy (n_hub m)"
    by (auto simp: P_def split: if_splits)
  then show ?thesis using lk by (cases r) (auto simp: RemoveSubscription_def)
qed

lemma node_run_tidy: "node_run I cops routable n \<Longrightarrow> hub_tidy (n_hub n)"
proof (induction rule: node_run.induct)
  case (start sz lag maxConns epoch cl)
  then show ?case using trie_inv_new(2) by (simp add: newNode_def NewHub_def hub_tidy_def)
next
  case (add n ch sub n' r)
  show ?case using AddSubscription_returns [OF node_run_inv [OF add(1)] add(4,2), of cops sub] add(3) by auto
next
  case (remove n ch c n' r)
  show ?case
    using RemoveSubscription_returns [OF node_run_inv [OF remove(1)] remove(5,2) sub_record_own [OF remove(3)], of cops] remove(4) by auto
next
  case (restore n ch sub n' e)
  note inv = node_run_inv [OF restore(1)]
  have ok: "hub_ok I (n_hub n)" "broker_inv (n_broker n)" using inv by (simp_all add: node_inv_def)
  have ns: "IsWildcard ch \<longrightarrow> namespaced ch" using restore(2) by blast
  show ?case
  proof (cases "LookupSubscriber I (n_hub n) ch (sub_Session sub)")
    case (Some s)
    then show ?thesis using restore(3,4) by (simp add: restoreLocalSubscription_def)
  next
    case None
    obtain h f e1 where h: "AddSub I (n_hub n) ch sub = goret (h, f, e1)" "hub_tidy h" using AddSub_tidy [OF ok(1) restore(4,2)] by blast
    have rec: "sub_record I (n_hub n) ch (sub_Session sub) = None" using None by (simp add: sub_record_def)
    have ok2: "hub_ok I h" using AddSub_view(1) [OF ok(1) ns rec h(1)] .
    obtain h2 l2 r2 where h2: "RemoveSub I h ch (sub_Session sub) = goret (h2, l2, r2)" "hub_tidy h2" using RemoveSub_tidy [OF ok2 h(2) ns] by blast
    obtain m e2 where m: "brokerSubscribe memBrokerOps (n\<lparr>n_hub := h\<rparr>) ch = goret (m, e2)" "n_hub m = h"
      using brokerOps_return(1) [of "n\<lparr>n_hub := h\<rparr>" ch] ok(2) by auto
    show ?thesis using restore(3) None h h2 m
      by (auto simp: restoreLocalSubscription_def Let_def split: option.splits if_splits)
  qed
next
  case (fence n ch c n' rmd e)
  have ok: "hub_ok I (n_hub n)" "broker_inv (n_broker n)" using node_run_inv [OF fence(1)] by (simp_all add: node_inv_def)
  obtain h l r where h: "RemoveSub I (n_hub n) ch c = goret (h, l, r)" "hub_tidy h" using RemoveSub_tidy [OF ok(1) fence(5,2)] by blast
  obtain b e4 where b: "b_Unsubscribe memBrokerOps (n_broker n) ch = goret (b, e4)" using mem.Unsubscribe_returns [OF ok(2)] by blast
  show ?case using fence(4) h b
    by (auto simp: removeLocalSubscriptionOnly_def Let_def split: option.splits if_splits)
next
  case (broadcast n ch h matched)
  have ok: "hub_ok I (n_hub n)" using node_run_inv [OF broadcast(1)] by (simp add: node_inv_def)
  show ?case using mergeMatching_tidy [OF ok broadcast(4), of ch] broadcast(3,4) by auto
next
  case (delivered n ch off cl)
  then show ?case by (simp add: hub_tidy_def recordDeliveredOffsets_def set_subShard_def Let_def split: option.split)
qed simp_all


section \<open>Properties\<close>

lemma wants_live:
  assumes "mem_inv I n" "\<not> IsWildcard ch"
  shows "wants (n_broker n) ch \<longleftrightarrow> covered (live_subs I (n_hub n)) ch \<noteq> {}"
proof -
  have inv: "broker_inv (n_broker n)" and fin: "finite (live_subs I (n_hub n))"
    and cnt: "interest_count (n_broker n) = interests (live_subs I (n_hub n))" using assms(1) by (simp_all add: node_inv_def)
  show ?thesis
    unfolding wants_interest [OF inv assms(2)] cnt interests_pos [OF fin] covered_def using assms(2) by blast
qed

definition unitCluster :: "unit clusterOps" where
  "unitCluster = \<lparr>co_sync = (\<lambda>c _ _. (c, None)), co_adjust = (\<lambda>c _ _. (c, None))\<rparr>"

text \<open>A node with session 1 subscribed to the channel \<^verbatim>\<open>acme:lobby\<close>.\<close>

definition lobbyNode :: "(memoryBroker, unit) nodeState" where
  "lobbyNode = (case AddSubscription example_ident memBrokerOps unitCluster (newNode 0 0 2 ''e1'' ()) ''acme:lobby''
       (NewSubscriber 1 False) of
     Some (Inr (n, None)) \<Rightarrow> n | _ \<Rightarrow> newNode 0 0 2 ''e1'' ())"

lemma lobbyNode_run:
  "AddSubscription example_ident memBrokerOps unitCluster (newNode 0 0 2 ''e1'' ()) ''acme:lobby'' (NewSubscriber 1 False) =
     goret (lobbyNode, None)"
  "node_run example_ident unitCluster R lobbyNode"
proof -
  have "(case AddSubscription example_ident memBrokerOps unitCluster (newNode 0 0 2 ''e1'' ()) ''acme:lobby''
       (NewSubscriber 1 False) of Some (Inr (_, None)) \<Rightarrow> True | _ \<Rightarrow> False)" by code_simp
  then show run: "AddSubscription example_ident memBrokerOps unitCluster (newNode 0 0 2 ''e1'' ()) ''acme:lobby'' (NewSubscriber 1 False) =
     goret (lobbyNode, None)"
    by (auto simp: lobbyNode_def goret_def split: option.splits sum.splits prod.splits)
  have "\<not> IsWildcard ''acme:lobby''" by code_simp
  then show "node_run example_ident unitCluster R lobbyNode"
    by (intro node_run.add [OF node_run.start [of 2 _ _ _ 0 0 "''e1''" "()"] _ run]) simp_all
qed

text \<open>
  (C1) The parts of a node agree with each other. Along every run of subscriptions, cancellations, restorations,
  fencing removals, broadcasts and publications, failed ones included, the broker forwards the
  publications of a channel exactly when some local session has a subscription covering the channel; a
  session tracks exactly the channels it is subscribed to in the hub, so closing it cancels all of them;
  the broker's interest counters and the two gauges are those of the live subscriptions.
\<close>

theorem node_consistent:
  assumes "node_run I cops R n"
  shows "(\<not> IsWildcard ch \<longrightarrow> (wants (n_broker n) ch \<longleftrightarrow> covered (live_subs I (n_hub n)) ch \<noteq> {})) \<and>
    (\<not> IsWildcard ch \<or> namespaced ch \<longrightarrow>
       (mget (tracked n p) ch \<noteq> None \<longleftrightarrow> (\<exists>s. LookupSubscriber I (n_hub n) ch p = Some s \<and> sub_Session s = p))) \<and>
    interest_count (n_broker n) ch = int (card {k \<in> interest_key ` live_subs I (n_hub n). snd k = ch}) \<and>
    SubscriptionsTotal n = int (card (live_subs I (n_hub n))) \<and>
    ActiveChannels n = int (card (interest_key ` live_subs I (n_hub n)))"
  using node_run_inv [OF assms] wants_live [OF node_run_inv [OF assms], of ch]
  by (auto simp: node_inv_def sub_record_def interests_def)

theorem node_consistent_witness:
  "node_run example_ident unitCluster routable lobbyNode \<and> wants (n_broker lobbyNode) ''acme:lobby'' \<and>
   covered (live_subs example_ident (n_hub lobbyNode)) ''acme:lobby'' \<noteq> {} \<and>
   mget (tracked lobbyNode 1) ''acme:lobby'' \<noteq> None"
proof -
  note r = lobbyNode_run(2) [of routable]
  have w: "\<not> IsWildcard ''acme:lobby''" "mget (tracked lobbyNode 1) ''acme:lobby'' = Some ()" by code_simp+
  have "mget (subs_of_ch (n_broker lobbyNode)) ''acme:lobby'' = Some 1" by code_simp
  then have "wants (n_broker lobbyNode) ''acme:lobby''" by (simp add: wants_def)
  then show ?thesis using node_consistent [OF r, of "''acme:lobby''" 1] w r by simp
qed


text \<open>Session 1 is closed, its attempt to subscribe to a second channel fails after the hub has it.\<close>

definition closedNode :: "(memoryBroker, unit) nodeState" where
  "closedNode = lobbyNode\<lparr>sess_closed := (\<lambda>_. True)\<rparr>"



text \<open>
  (C15) A node whose sessions only present patterns the broker can route never hangs: subscribing and
  unsubscribing return on every branch, and so does the selection of the receivers of a publication,
  although the loops of the trie retry without a bound.
\<close>

theorem node_returns:
  assumes "node_run I cops routable n" and "IsWildcard ch \<longrightarrow> namespaced ch \<and> routable ch"
    and "\<forall>s. LookupSubscriber I (n_hub n) ch c = Some s \<longrightarrow> sub_Session s = c"
  shows "(\<exists>n' r. AddSubscription I memBrokerOps cops n ch sub = goret (n', r) \<and> node_run I cops routable n') \<and>
    (\<exists>n' r. RemoveSubscription I memBrokerOps cops n ch c = goret (n', r) \<and> node_run I cops routable n') \<and>
    (\<exists>matched. mergeMatchingSubscribers I (n_hub n) ch' = goret (n_hub n, matched))"
proof -
  note inv = node_run_inv [OF assms(1)] and tidy = node_run_tidy [OF assms(1)]
  have ns: "IsWildcard ch \<longrightarrow> namespaced ch" using assms(2) by blast
  have ok: "hub_ok I (n_hub n)" using inv by (simp add: node_inv_def)
  show ?thesis
    using AddSubscription_returns [OF inv tidy assms(2), of cops sub] node_run.add [OF assms(1,2)]
      RemoveSubscription_returns [OF inv tidy ns sub_record_own [OF assms(3)], of cops] node_run.remove [OF assms(1) ns assms(3)]
      mergeMatching_tidy [OF ok tidy, of ch'] by blast
qed

theorem node_returns_witness:
  "\<exists>n' r. RemoveSubscription example_ident memBrokerOps unitCluster lobbyNode ''acme:lobby'' 1 = goret (n', r) \<and>
     node_run example_ident unitCluster routable n'"
proof -
  have w: "\<not> IsWildcard ''acme:lobby''" "LookupSubscriber example_ident (n_hub lobbyNode) ''acme:lobby'' 1 = Some (NewSubscriber 1 False)"
    by code_simp+
  then show ?thesis
    using node_returns [OF lobbyNode_run(2) [of routable], of "''acme:lobby''" 1] by (simp add: NewSubscriber_def)
qed

text \<open>
  (C36) One refused subscription can block a node for ever. Session 2 is subscribed to \<^verbatim>\<open>acme:a.*\<close>. Session 1
  asks for \<^verbatim>\<open>acme:a.*.b\<close>: the hub takes the pattern into its trie, the broker refuses it as not routable, and
  the rollback removes it again, which leaves a tombed node under a branch that has a subscriber. From
  then on selecting the receivers of a publication to \<^verbatim>\<open>acme:a.x.y\<close> never returns.
\<close>

theorem refused_pattern_blocks:
  "\<exists>n1 n2 e. AddSubscription example_ident memBrokerOps unitCluster (newNode 0 0 2 ''e1'' ()) ''acme:a.*'' (NewSubscriber 2 False) =
       goret (n1, None) \<and>
     AddSubscription example_ident memBrokerOps unitCluster n1 ''acme:a.*.b'' (NewSubscriber 1 False) =
       goret (n2, Some (''broker.Subscribe'', BrokerError e)) \<and>
     mergeMatchingSubscribers example_ident (n_hub n2) ''acme:a.x.y'' = None"
proof -
  define t1 :: "hubSubscriber main_node" where "t1 = CNode [(''acme'', Branch (Some (CNode [(''a'', Branch (Some (CNode [(''*'',
      Branch None [NewSubscriber 2 False])])) [])])) [])]"
  define t2 :: "hubSubscriber main_node" where "t2 = CNode [(''acme'', Branch (Some (CNode [(''a'', Branch (Some (CNode [(''*'',
      Branch (Some (CNode [(''b'', Branch None [NewSubscriber 1 False])])) [NewSubscriber 2 False])])) [])])) [])]"
  define t3 :: "hubSubscriber main_node" where "t3 = CNode [(''acme'', Branch (Some (CNode [(''a'', Branch (Some (CNode [(''*'',
      Branch (Some TNode) [NewSubscriber 2 False])])) [])])) [])]"
  let ?s1 = "\<lparr>Topic = ''acme:a.*'', Subscriber = NewSubscriber 2 False\<rparr>" and ?s2 = "\<lparr>Topic = ''acme:a.*.b'', Subscriber = NewSubscriber 1 False\<rparr>"
  have s1: "Subscribe comparable_sub NewCSTrieMatcher ''acme:a.*'' (NewSubscriber 2 False) = Some (Inr (t1, Inr ?s1))"
    unfolding t1_def by code_simp
  have s2: "Subscribe comparable_sub t1 ''acme:a.*.b'' (NewSubscriber 1 False) = Some (Inr (t2, Inr ?s2))"
    unfolding t1_def t2_def by code_simp
  have s3: "Unsubscribe t2 (Some ?s2) = Some (Inr t3)" unfolding t2_def t3_def by code_simp
  have ch: "IsWildcard ''acme:a.*''" "IsWildcard ''acme:a.*.b''" "wcKey example_ident 2 ''acme:a.*'' = ''s2:acme:a.*''"
    "wcKey example_ident 1 ''acme:a.*.b'' = ''s1:acme:a.*.b''" "SplitSegments ''acme:a.x.y'' = [''acme'', ''a'', ''x'', ''y'']" by code_simp+
  have ci: "CompileInterest ''acme:a.*.b'' = Inl ErrPatternNotRoutable" "\<not> isl (CompileInterest ''acme:a.*'')" by code_simp+
  have stuck: "ilookup t3 [] None [''acme'', ''a'', ''x'', ''y''] = Inr (t3, None)" unfolding t3_def by code_simp
  let ?b0 = "NewMemoryBroker 2 ''e1''"
  have "routable ''acme:a.*''" using ci(2) routable_iff [of "''acme:a.*''"] by (cases "CompileInterest ''acme:a.*''") auto
  then obtain b1 where b1: "broker_Subscribe ?b0 ''acme:a.*'' = goret (b1, None)"
    using broker_Subscribe_spec [OF NewMemoryBroker_inv [of 2 "''e1''"], of "''acme:a.*''"] by auto
  let ?h1 = "(NewHub 0 0)\<lparr>hub_matcher := t1, wcSubs := [(''s2:acme:a.*'', ?s1)]\<rparr>"
  let ?n1 = "(newNode 0 0 2 ''e1'' ())\<lparr>n_hub := ?h1, tracked := (\<lambda>_. [])(2 := [(''acme:a.*'', ())]), n_broker := b1,
      ActiveChannels := 1, SubscriptionsTotal := 1\<rparr>"
  note defs = AddSubscription_def runSubSaga_def addSteps_def clusterSessionStep_def clusterChannelStep_def brokerSubscribe_def
    TrackChannel_def UntrackChannel_def syncSession_def adjustClusterChannelSubscriptions_def unitCluster_def memBrokerOps_def
    LookupSubscriber_def NewSubscriber_def
  have a1: "AddSub example_ident (NewHub 0 0) ''acme:a.*'' (NewSubscriber 2 False) = goret (?h1, True, None)"
    using s1 ch by (simp add: AddSub_def addWildcardSub_def gobind_def goret_def NewHub_def NewSubscriber_def mput_def)
  have r1: "AddSubscription example_ident memBrokerOps unitCluster (newNode 0 0 2 ''e1'' ()) ''acme:a.*'' (NewSubscriber 2 False) =
      goret (?n1, None)"
    using a1 b1 ch by (simp add: defs newNode_def NewHub_def mput_def)
  let ?h2 = "?h1\<lparr>hub_matcher := t2, wcSubs := mput ''s1:acme:a.*.b'' ?s2 [(''s2:acme:a.*'', ?s1)]\<rparr>"
  let ?h3 = "?h1\<lparr>hub_matcher := t3\<rparr>"
  have a2: "AddSub example_ident ?h1 ''acme:a.*.b'' (NewSubscriber 1 False) = goret (?h2, True, None)"
    using s2 ch by (simp add: AddSub_def addWildcardSub_def gobind_def goret_def NewSubscriber_def mget_Cons)
  have a3: "RemoveSub example_ident ?h2 ''acme:a.*.b'' 1 = goret (?h3, True, True)"
    using s3 ch by (simp add: RemoveSub_def removeWildcardSub_def gobind_def goret_def mput_def mdel_def Let_def mget_Cons)
  let ?n2 = "?n1\<lparr>n_hub := ?h3, tracked := (tracked ?n1)(1 := mdel ''acme:a.*.b'' (mput ''acme:a.*.b'' () []))\<rparr>"
  have r2: "AddSubscription example_ident memBrokerOps unitCluster ?n1 ''acme:a.*.b'' (NewSubscriber 1 False) =
      goret (?n2, Some (''broker.Subscribe'', BrokerError ErrPatternNotRoutable))"
    using a2 a3 ch ci(1) by (simp add: defs newNode_def broker_Subscribe_def mget_Cons)
  have "mergeMatchingSubscribers example_ident ?h3 ''acme:a.x.y'' = None"
    using ch(5) stuck by (simp add: mergeMatchingSubscribers_def Lookup_def Let_def lookup_loop_stuck gobind_def)
  then show ?thesis using r1 r2 by fastforce
qed


text \<open>Cluster stores that keep the last snapshot of each session and refuse to change a channel count.\<close>

definition failingCluster :: "(sptr \<Rightarrow> (string \<times> bool \<times> u64) list) clusterOps" where
  "failingCluster = \<lparr>co_sync = (\<lambda>cl p snap. (cl(p := snap), None)), co_adjust = (\<lambda>cl _ _. (cl, Some ''unavailable''))\<rparr>"

text \<open>
  The rollback of a subscription publishes the subscription it undoes. When the shared channel count
  cannot be changed, the saga rolls back in reverse order, so the session is synchronised again while
  the hub and the session still have the channel: the client gets an error and holds no subscription, yet
  its snapshot in the cluster lists the channel until the next synchronisation, and a node resuming the
  session would restore it.
\<close>

lemma rollback_publishes_snapshot:
  "\<exists>n' e. AddSubscription example_ident memBrokerOps failingCluster (newNode 0 0 2 ''e1'' (\<lambda>_. [])) ''acme:lobby''
       (NewSubscriber 1 False) = goret (n', Some (''cluster.channel'', e)) \<and>
     tracked n' 1 = [] \<and> LookupSubscriber example_ident (n_hub n') ''acme:lobby'' 1 = None \<and>
     n_cluster n' 1 = [(''acme:lobby'', False, 0)]"
proof -
  have "(case AddSubscription example_ident memBrokerOps failingCluster (newNode 0 0 2 ''e1'' (\<lambda>_. [])) ''acme:lobby''
       (NewSubscriber 1 False) of
      Some (Inr (n, Some (s, _))) \<Rightarrow> s = ''cluster.channel'' \<and> tracked n 1 = [] \<and>
        LookupSubscriber example_ident (n_hub n) ''acme:lobby'' 1 = None \<and> n_cluster n 1 = [(''acme:lobby'', False, 0)]
    | _ \<Rightarrow> False)" by code_simp
  then show ?thesis by (auto simp: goret_def split: option.splits sum.splits prod.splits)
qed


text \<open>
  (C24) The subscription state of a node stays well typed. Every entry of a shard is a channel of that shard,
  valid and without a wildcard, with a non-empty table of subscribers filed under their own session
  identifiers; every wildcard handle is filed under the key of its session and pattern, a valid namespaced
  wildcard pattern; and the trie holds exactly the subscribers of the handles.
\<close>

theorem node_state_typed:
  assumes "node_run I cops R n"
  shows "length (subShards (n_hub n)) = numHubShards \<and>
    (i < numHubShards \<and> mget (shard_subs (subShards (n_hub n) ! i)) ch = Some m \<longrightarrow>
       hub_index ch numHubShards = i \<and> m \<noteq> [] \<and> \<not> IsWildcard ch \<and> validTopic ch \<and>
       (mget m uid = Some s \<longrightarrow> uid = SessionID (I (sub_Session s)))) \<and>
    (mget (wcSubs (n_hub n)) key = Some t \<longrightarrow>
       key = wcKey I (sub_Session (Subscriber t)) (Topic t) \<and> IsWildcard (Topic t) \<and> validTopic (Topic t) \<and> namespaced (Topic t)) \<and>
    subs_at (hub_matcher (n_hub n)) segs =
      {x. \<exists>key t. mget (wcSubs (n_hub n)) key = Some t \<and> SplitSegments (Topic t) = segs \<and> Subscriber t = x}"
proof -
  have ok: "hub_ok I (n_hub n)" using node_run_inv [OF assms] by (simp add: node_inv_def)
  have e: "exact_inv I (n_hub n)" and w: "wc_inv I (n_hub n)" using hub_okD [OF ok] by simp_all
  have "subs_at (hub_matcher (n_hub n)) segs =
      {x. \<exists>key t. mget (wcSubs (n_hub n)) key = Some t \<and> SplitSegments (Topic t) = segs \<and> Subscriber t = x}"
    using w by (auto simp: wc_inv_def subs_of_def patterns_def)
  moreover have "mget (wcSubs (n_hub n)) key = Some t \<longrightarrow>
       key = wcKey I (sub_Session (Subscriber t)) (Topic t) \<and> IsWildcard (Topic t) \<and> validTopic (Topic t) \<and> namespaced (Topic t)"
    using w ok unfolding wc_inv_def hub_ok_def by blast
  ultimately show ?thesis using e unfolding exact_inv_def by blast
qed

theorem node_state_typed_witness:
  "node_run example_ident unitCluster routable lobbyNode \<and>
   (\<exists>m s. mget (shard_subs (subShards (n_hub lobbyNode) ! hub_index ''acme:lobby'' numHubShards)) ''acme:lobby'' = Some m \<and>
      mget m ''s1'' = Some s \<and> ''s1'' = SessionID (example_ident (sub_Session s)))"
proof -
  let ?i = "hub_index ''acme:lobby'' numHubShards"
  have "LookupSubscriber example_ident (n_hub lobbyNode) ''acme:lobby'' 1 \<noteq> None" "\<not> IsWildcard ''acme:lobby''" by code_simp+
  then obtain m s where m: "mget (shard_subs (subShards (n_hub lobbyNode) ! ?i)) ''acme:lobby'' = Some m" "mget m ''s1'' = Some s"
    by (auto simp: LookupSubscriber_def subShard_of_def example_ident_def split: option.splits)
  have "?i < numHubShards" by code_simp
  then show ?thesis
    using node_state_typed [OF lobbyNode_run(2) [of routable], of ?i "''acme:lobby''" m "''s1''" s] m lobbyNode_run(2) by auto
qed

end
