(* ===== verification/ClusterState.thy ===== *)
theory ClusterState
  imports ClusterDirectory NodeEpoch ClusterHmac Framing
begin

text \<open>
  What a node does with the session directory: the synchronisation and deletion of session state of
  \<^verbatim>\<open>internal/runtime/cluster_state.go\<close>, the resumption of a session of another node of
  \<^verbatim>\<open>internal/runtime/cluster_resume.go\<close>, and the expansion of a user to sessions of
  \<^verbatim>\<open>internal/runtime/cluster_user_index.go\<close>. Other nodes work on the directory at the same time: before the
  \<open>k\<close>-th write of an operation the directory is transformed by \<open>env k\<close>, which is arbitrary. Metrics and log
  lines are left out.
\<close>

section \<open>Leases and snapshots of a session\<close>

record clusterNode =
  ClusterNodeID :: string
  ClusterIncarnationID :: string
  sessionLeaseTTL_of :: int

definition defaultClusterSessionLeaseTTL :: "64 word" where
  "defaultClusterSessionLeaseTTL = 600000000000"

definition pingClusterRefreshInterval :: "64 word" where
  "pingClusterRefreshInterval = 10000000000"

definition sessionLeaseTTL :: "64 word \<Rightarrow> 64 word \<Rightarrow> 64 word" where
  "sessionLeaseTTL idle ping =
     (if idle = 0 \<and> ping = 0 then defaultClusterSessionLeaseTTL
      else let ttl = 30000000000;
               t = 2 * idle; ttl = (if sint t > sint ttl then t else ttl);
               t = 3 * ping; ttl = (if sint t > sint ttl then t else ttl);
               t = idle + pingClusterRefreshInterval + 10000000000
           in (if sint t > sint ttl then t else ttl))"

record IdentitySnapshot =
  id_SessionID :: string
  id_UserID :: string
  id_Namespace :: string
  id_ClientID :: string
  id_Protocol :: string
  id_Authenticated :: bool
  id_ConnectedAt :: int
  id_LastActivity :: int
  id_LeaseVersion :: u64

definition clusterSessionLease :: "clusterNode \<Rightarrow> IdentitySnapshot \<Rightarrow> int \<Rightarrow> ClusterSessionLease" where
  "clusterSessionLease n ident now =
     \<lparr>l_SessionID = id_SessionID ident, l_NodeID = ClusterNodeID n, l_IncarnationID = ClusterIncarnationID n,
      l_UserID = id_UserID ident, l_Namespace = id_Namespace ident, l_ClientID = id_ClientID ident,
      l_LeaseVersion = (if id_LeaseVersion ident = 0 then 1 else id_LeaseVersion ident),
      l_Authenticated = id_Authenticated ident, l_ConnectedAt = id_ConnectedAt ident,
      l_LastActivityAt = id_LastActivity ident, l_ExpiresAt = now + sessionLeaseTTL_of n\<rparr>"

text \<open>\<open>subs\<close> lists the channels of the session in order, with their flags and delivered offsets.\<close>

definition clusterSessionSnapshot ::
    "IdentitySnapshot \<Rightarrow> (string \<times> bool \<times> u64) list \<Rightarrow> string \<Rightarrow> int \<Rightarrow> ClusterSessionSnapshot" where
  "clusterSessionSnapshot ident subs epoch now =
     \<lparr>s_SessionID = id_SessionID ident, s_UserID = id_UserID ident, s_Namespace = id_Namespace ident,
      s_ClientID = id_ClientID ident, s_Authenticated = id_Authenticated ident, s_Protocol = id_Protocol ident,
      s_ConnectedAt = id_ConnectedAt ident,
      s_Subscriptions = map (\<lambda>(ch, eph, _). \<lparr>ss_Channel = ch, ss_Ephemeral = eph\<rparr>) subs,
      s_ChannelOffsets = fold (\<lambda>(ch, _, off) m. if off > 0 then mput ch off m else m) subs [],
      s_BrokerEpoch = epoch,
      s_AuthContext = (let m = [(''user_id'', id_UserID ident), (''client_id'', id_ClientID ident), (''protocol'', id_Protocol ident)]
                       in if id_Namespace ident \<noteq> [] then mput ''namespace'' (id_Namespace ident) m else m),
      s_UpdatedAt = now\<rparr>"

section \<open>Synchronisation\<close>

datatype clusterError = DirectoryError string | ErrSessionFenced | ErrDisconnect Disconnect | TakeoverFailed string

definition compareAndSwapSessionState ::
    "'d directoryOps \<Rightarrow> (nat \<Rightarrow> 'd \<Rightarrow> 'd) \<Rightarrow> 'd \<Rightarrow> ClusterSessionLease option \<Rightarrow> ClusterSessionLease \<Rightarrow> ClusterSessionSnapshot \<Rightarrow>
     'd \<times> (string + bool)" where
  "compareAndSwapSessionState ops env d expected desired snapshot =
     (case d_CASState ops of
        Some cas \<Rightarrow> cas (env 0 d) expected desired snapshot
      | None \<Rightarrow>
          let (d, r) = d_CASLease ops (env 0 d) expected desired
          in case r of
               Inl err \<Rightarrow> (d, Inl err)
             | Inr ok \<Rightarrow>
                 if \<not> ok then (d, Inr False)
                 else let (d, err) = d_PutSnapshot ops (env 1 d) snapshot
                      in (d, case err of None \<Rightarrow> Inr True | Some e \<Rightarrow> Inl e))"

definition fencedUnless :: "'d \<times> (string + bool) \<Rightarrow> 'd \<times> clusterError option" where
  "fencedUnless = (\<lambda>(d, r). case r of
     Inl err \<Rightarrow> (d, Some (DirectoryError err)) | Inr ok \<Rightarrow> (d, if ok then None else Some ErrSessionFenced))"

definition syncClusterSessionState ::
    "'d directoryOps \<Rightarrow> clusterNode \<Rightarrow> (nat \<Rightarrow> 'd \<Rightarrow> 'd) \<Rightarrow> IdentitySnapshot \<Rightarrow> (string \<times> bool \<times> u64) list \<Rightarrow> string \<Rightarrow> int \<Rightarrow>
     'd \<Rightarrow> 'd \<times> clusterError option" where
  "syncClusterSessionState ops n env ident subs epoch now d =
     (let desired = clusterSessionLease n ident now;
          snapshot = clusterSessionSnapshot ident subs epoch now
      in case d_GetSessionLease ops d (l_SessionID desired) of
           Inl err \<Rightarrow> (d, Some (DirectoryError err))
         | Inr None \<Rightarrow> fencedUnless (compareAndSwapSessionState ops env d None desired snapshot)
         | Inr (Some current) \<Rightarrow>
             if l_NodeID current \<noteq> ClusterNodeID n \<or> l_IncarnationID current \<noteq> ClusterIncarnationID n then (d, Some ErrSessionFenced)
             else if l_LeaseVersion current > l_LeaseVersion desired then (d, Some ErrSessionFenced)
             else fencedUnless (compareAndSwapSessionState ops env d (Some current) desired snapshot))"

section \<open>Deletion\<close>

definition deleteClusterSessionState ::
    "'d directoryOps \<Rightarrow> clusterNode \<Rightarrow> (nat \<Rightarrow> 'd \<Rightarrow> 'd) \<Rightarrow> int \<Rightarrow> string \<Rightarrow> 'd \<Rightarrow> 'd \<times> clusterError option" where
  "deleteClusterSessionState ops n env now sessionID d =
     (if sessionID = [] then (d, None)
      else case d_GetSessionLease ops d sessionID of
        Inl err \<Rightarrow> (d, Some (DirectoryError err))
      | Inr lease \<Rightarrow>
          if (case lease of None \<Rightarrow> False
              | Some l \<Rightarrow> l_ExpiresAt l > now \<and> (l_NodeID l \<noteq> [] \<or> l_IncarnationID l \<noteq> []) \<and>
                  (l_NodeID l \<noteq> ClusterNodeID n \<or> l_IncarnationID l \<noteq> ClusterIncarnationID n))
          then (d, None)
          else
            let (d, err) = (case d_DeleteLeaseIfOwner ops of
                  Some del \<Rightarrow> (let (d, r) = del (env 0 d) sessionID (ClusterNodeID n) (ClusterIncarnationID n)
                               in (d, case r of Inl e \<Rightarrow> Some e | Inr _ \<Rightarrow> None))
                | None \<Rightarrow> d_DeleteLease ops (env 0 d) sessionID)
            in case err of
                 Some e \<Rightarrow> (d, Some (DirectoryError e))
               | None \<Rightarrow> let (d, err) = d_DeleteSnapshot ops (env 1 d) sessionID in (d, map_option DirectoryError err))"

section \<open>Resumption of a session of another node\<close>

definition requestSessionTakeover ::
    "(ClusterCommand \<Rightarrow> string + ClusterCommandResult option) \<Rightarrow> clusterNode \<Rightarrow> ClusterSessionLease \<Rightarrow> clusterError option" where
  "requestSessionTakeover SendCommand n lease =
     (case SendCommand \<lparr>CommandID = [], Type = ''takeover'', TargetNodeID = l_NodeID lease,
          TargetIncarnationID = l_IncarnationID lease, cmd_SessionID = l_SessionID lease, cmd_Channel = [],
          LeaseVersion = l_LeaseVersion lease, IssuedAt = zero_time, IssuedBy = [], cmd_Payload = [],
          cmd_Metadata = [(''new_node_id'', ClusterNodeID n), (''new_incarnation_id'', ClusterIncarnationID n)], Signature = []\<rparr> of
        Inl err \<Rightarrow> Some (TakeoverFailed err)
      | Inr None \<Rightarrow> None
      | Inr (Some result) \<Rightarrow>
          if Status result = ''succeeded'' \<or> ErrorCode result = ''SESSION_NOT_FOUND'' then None
          else Some (TakeoverFailed (''takeover command failed: '' @ ErrorMessage result)))"

definition rollbackSessionTakeover :: "'d directoryOps \<Rightarrow> 'd \<Rightarrow> ClusterSessionLease \<Rightarrow> ClusterSessionLease \<Rightarrow> 'd" where
  "rollbackSessionTakeover ops d claimed original = fst (d_CASLease ops d (Some claimed) original)"

text \<open>\<open>AdoptIdentity\<close> of \<^verbatim>\<open>internal/session/runtime.go\<close>, on the identity and the tracked channels.\<close>

definition AdoptIdentity ::
    "IdentitySnapshot \<Rightarrow> string \<Rightarrow> string \<Rightarrow> string \<Rightarrow> string \<Rightarrow> string list \<Rightarrow> u64 \<Rightarrow> IdentitySnapshot \<times> (string, unit) gomap" where
  "AdoptIdentity ident sessionID namespace userID clientID subs leaseVersion =
     (ident\<lparr>id_SessionID := sessionID,
            id_UserID := (if userID \<noteq> [] then userID else id_UserID ident),
            id_Namespace := (if namespace \<noteq> [] then namespace else id_Namespace ident),
            id_ClientID := (if clientID \<noteq> [] then clientID else id_ClientID ident),
            id_LeaseVersion := (if leaseVersion > 0 then leaseVersion
                                else if id_LeaseVersion ident = 0 then 1 else id_LeaseVersion ident)\<rparr>,
      fold (\<lambda>ch m. mput ch () m) subs [])"

definition claimedLease :: "clusterNode \<Rightarrow> IdentitySnapshot \<Rightarrow> ClusterSessionLease \<Rightarrow> int \<Rightarrow> ClusterSessionLease" where
  "claimedLease n client lease now =
     \<lparr>l_SessionID = l_SessionID lease, l_NodeID = ClusterNodeID n, l_IncarnationID = ClusterIncarnationID n,
      l_UserID = l_UserID lease,
      l_Namespace = (if l_Namespace lease = [] then id_Namespace client else l_Namespace lease),
      l_ClientID = l_ClientID lease, l_LeaseVersion = l_LeaseVersion lease + 1, l_Authenticated = l_Authenticated lease,
      l_ConnectedAt = l_ConnectedAt lease, l_LastActivityAt = now, l_ExpiresAt = now + sessionLeaseTTL_of n\<rparr>"

text \<open>The takeover of the old node once the lease is claimed: the directory and the error, if any.\<close>

definition takeoverOldNode ::
    "'d directoryOps \<Rightarrow> (ClusterCommand \<Rightarrow> string + ClusterCommandResult option) \<Rightarrow> clusterNode \<Rightarrow> (nat \<Rightarrow> 'd \<Rightarrow> 'd) \<Rightarrow>
     ClusterSessionLease \<Rightarrow> ClusterSessionLease \<Rightarrow> 'd \<Rightarrow> 'd \<times> clusterError option" where
  "takeoverOldNode ops SendCommand n env lease desired d =
     (if l_NodeID lease \<noteq> [] \<and> l_IncarnationID lease \<noteq> [] \<and>
         (l_NodeID lease \<noteq> ClusterNodeID n \<or> l_IncarnationID lease \<noteq> ClusterIncarnationID n) \<and>
         \<not> (l_NodeID lease = ClusterNodeID n \<and> NodeEpochNewer (ClusterIncarnationID n) (l_IncarnationID lease))
      then case requestSessionTakeover SendCommand n lease of
             None \<Rightarrow> (d, None)
           | Some takeoverErr \<Rightarrow>
               (case d_GetNodeLease ops d (l_NodeID lease) (l_IncarnationID lease) of
                  Inl err \<Rightarrow> (rollbackSessionTakeover ops (env 1 d) desired lease, Some (DirectoryError err))
                | Inr (Some _) \<Rightarrow> (rollbackSessionTakeover ops (env 1 d) desired lease, Some takeoverErr)
                | Inr None \<Rightarrow> (d, None))
      else (d, None))"

definition resumeRemoteSession ::
    "'d directoryOps \<Rightarrow> (ClusterCommand \<Rightarrow> string + ClusterCommandResult option) \<Rightarrow> clusterNode \<Rightarrow> (nat \<Rightarrow> 'd \<Rightarrow> 'd) \<Rightarrow>
     IdentitySnapshot \<Rightarrow> string \<Rightarrow> string \<Rightarrow> int \<Rightarrow> 'd \<Rightarrow>
     'd \<times> (clusterError + (ClusterSessionSnapshot \<times> IdentitySnapshot \<times> (string, unit) gomap) option)" where
  "resumeRemoteSession ops SendCommand n env client sessionID authUser now d =
     (if sessionID = [] then (d, Inr None)
      else case d_GetSessionLease ops d sessionID of
        Inl err \<Rightarrow> (d, Inl (DirectoryError err))
      | Inr None \<Rightarrow> (d, Inr None)
      | Inr (Some lease) \<Rightarrow>
          if authUser \<noteq> [] \<and> l_UserID lease \<noteq> [] \<and> authUser \<noteq> l_UserID lease then (d, Inl (ErrDisconnect DisconnectInvalidToken))
          else if id_Namespace client \<noteq> [] \<and> l_Namespace lease \<noteq> [] \<and> id_Namespace client \<noteq> l_Namespace lease
          then (d, Inl (ErrDisconnect DisconnectInvalidToken))
          else case d_GetSessionSnapshot ops d sessionID of
            Inl err \<Rightarrow> (d, Inl (DirectoryError err))
          | Inr None \<Rightarrow> (d, Inr None)
          | Inr (Some snapshot) \<Rightarrow>
              let desired = claimedLease n client lease now;
                  (d, claimed) = d_CASLease ops (env 0 d) (Some lease) desired
              in case claimed of
                   Inl err \<Rightarrow> (d, Inl (DirectoryError err))
                 | Inr ok \<Rightarrow>
                     if \<not> ok then (d, Inl (ErrDisconnect DisconnectStale))
                     else let (d, err) = takeoverOldNode ops SendCommand n env lease desired d
                          in case err of
                               Some e \<Rightarrow> (d, Inl e)
                             | None \<Rightarrow>
                                 let subs = map ss_Channel (s_Subscriptions snapshot);
                                     nextLease = (if l_LeaseVersion lease > 0 then l_LeaseVersion lease + 1 else 0);
                                     ns = (if s_Namespace snapshot = [] then id_Namespace client else s_Namespace snapshot)
                                 in (d, Inr (Some (snapshot,
                                      AdoptIdentity client sessionID ns (s_UserID snapshot) (s_ClientID snapshot) subs nextLease))))"

section \<open>The sessions of a user\<close>

text \<open>\<open>localSessions\<close> are the identifiers the hub has for the user; the index of the directory is a hint.\<close>

definition ExpandUserSessions ::
    "string list \<Rightarrow> (string \<Rightarrow> string \<Rightarrow> string list) \<Rightarrow> (string \<Rightarrow> string + ClusterSessionLease option) \<Rightarrow> string \<Rightarrow> string \<Rightarrow> string list" where
  "ExpandUserSessions localSessions listUsers GetLease namespace userID =
     (if userID = [] then []
      else sort (remdups (localSessions @
             filter (\<lambda>sid. case GetLease sid of
                             Inr (Some lease) \<Rightarrow> l_UserID lease = userID \<and> l_Namespace lease = namespace
                           | _ \<Rightarrow> False) (listUsers namespace userID))))"


section \<open>Fencing\<close>

lemma leaseEqual_simps [simp]:
  "leaseEqual None None" "\<not> leaseEqual None (Some l)" "\<not> leaseEqual (Some l) None"
  "leaseEqual (Some l) (Some l') \<longleftrightarrow> l_SessionID l = l_SessionID l' \<and> l_NodeID l = l_NodeID l' \<and>
     l_IncarnationID l = l_IncarnationID l' \<and> l_LeaseVersion l = l_LeaseVersion l'"
  by (simp_all add: leaseEqual_def)

lemma leaseEqual_None [simp]: "leaseEqual c None \<longleftrightarrow> c = None" "leaseEqual None e \<longleftrightarrow> e = None"
  by (cases c; simp) (cases e; simp)

lemma clusterSessionLease_sel [simp]:
  "l_SessionID (clusterSessionLease n ident now) = id_SessionID ident" "l_NodeID (clusterSessionLease n ident now) = ClusterNodeID n"
  "l_IncarnationID (clusterSessionLease n ident now) = ClusterIncarnationID n"
  "s_SessionID (clusterSessionSnapshot ident subs epoch t) = id_SessionID ident"
  by (simp_all add: clusterSessionLease_def clusterSessionSnapshot_def)

context session_directory
begin

text \<open>On a directory with the atomic compare-and-swap a synchronisation either writes nothing, or replaces an absent
  lease or one of its own incarnation that is not newer.\<close>

lemma sync_spec:
  assumes atomic: "d_CASState ops = Some f" and run: "syncClusterSessionState ops n env ident subs epoch now d = (d', r)"
  shows "(lease_of d' = lease_of d \<and> snap_of d' = snap_of d \<or> lease_of d' = lease_of (env 0 d) \<and> snap_of d' = snap_of (env 0 d)) \<and> r \<noteq> None \<or>
    lease_of d' = (lease_of (env 0 d))(id_SessionID ident := Some (clusterSessionLease n ident now)) \<and>
    snap_of d' = (snap_of (env 0 d))(id_SessionID ident := Some (clusterSessionSnapshot ident subs epoch now)) \<and> r \<noteq> Some ErrSessionFenced \<and>
    (case lease_of (env 0 d) (id_SessionID ident) of None \<Rightarrow> True
     | Some l \<Rightarrow> owned_by (ClusterNodeID n) (ClusterIncarnationID n) l \<and> l_LeaseVersion l \<le> l_LeaseVersion (clusterSessionLease n ident now))"
proof -
  let ?sid = "id_SessionID ident" and ?l = "clusterSessionLease n ident now" and ?s = "clusterSessionSnapshot ident subs epoch now"
  have wr: ?thesis
    if w: "fencedUnless (f (env 0 d) e ?l ?s) = (d', r)"
      and e: "case e of None \<Rightarrow> True | Some l \<Rightarrow> owned_by (ClusterNodeID n) (ClusterIncarnationID n) l \<and> l_LeaseVersion l \<le> l_LeaseVersion ?l" for e
  proof -
    obtain d1 r1 where f: "f (env 0 d) e ?l ?s = (d1, r1)" by (cases "f (env 0 d) e ?l ?s")
    have d1: "d1 = d'" "r = (case r1 of Inl err \<Rightarrow> Some (DirectoryError err) | Inr ok \<Rightarrow> if ok then None else Some ErrSessionFenced)"
      using w f by (auto simp: fencedUnless_def split: sum.splits)
    have "case lease_of (env 0 d) ?sid of None \<Rightarrow> True
        | Some l \<Rightarrow> owned_by (ClusterNodeID n) (ClusterIncarnationID n) l \<and> l_LeaseVersion l \<le> l_LeaseVersion ?l"
      if "leaseEqual (lease_of (env 0 d) ?sid) e"
      using that e by (cases e; cases "lease_of (env 0 d) ?sid") (auto simp: owned_by_def)
    then show ?thesis using cas_state [OF atomic f] d1 by (cases r1) (auto split: if_splits)
  qed
  show ?thesis
  proof (cases "d_GetSessionLease ops d ?sid")
    case (Inl err)
    then show ?thesis using run by (auto simp: syncClusterSessionState_def)
  next
    case (Inr lo)
    show ?thesis
    proof (cases lo)
      case None
      then show ?thesis using wr [of None] run Inr atomic
        by (simp add: syncClusterSessionState_def compareAndSwapSessionState_def)
    next
      case (Some current)
      show ?thesis
      proof (cases "owned_by (ClusterNodeID n) (ClusterIncarnationID n) current \<and> \<not> l_LeaseVersion current > l_LeaseVersion ?l")
        case True
        then have own: "l_NodeID current = ClusterNodeID n" "l_IncarnationID current = ClusterIncarnationID n" "\<not> l_LeaseVersion current > l_LeaseVersion ?l"
          by (simp_all add: owned_by_def)
        have "fencedUnless (f (env 0 d) (Some current) ?l ?s) = (d', r)"
          using run Inr Some atomic own by (simp add: syncClusterSessionState_def compareAndSwapSessionState_def Let_def)
        then show ?thesis by (rule wr) (use True in \<open>simp add: not_less\<close>)
      next
        case False
        then have "d' = d" "r = Some ErrSessionFenced" using run Inr Some
          by (auto simp: syncClusterSessionState_def owned_by_def Let_def split: if_splits)
        then show ?thesis by simp
      qed
    qed
  qed
qed

lemma takeover_spec:
  assumes "takeoverOldNode ops SendCommand n env lease desired d = (d', err)"
  shows "snap_of d' \<in> {snap_of d, snap_of (env 1 d)} \<and>
    (err = None \<and> d' = d \<or> err \<noteq> None \<and> (lease_of d' = lease_of (env 1 d) \<or>
       leaseEqual (lease_of (env 1 d) (l_SessionID lease)) (Some desired) \<and>
       lease_of d' = (lease_of (env 1 d))(l_SessionID lease := Some lease)))"
proof -
  obtain d1 r1 where c: "d_CASLease ops (env (Suc 0) d) (Some desired) lease = (d1, r1)"
    by (cases "d_CASLease ops (env (Suc 0) d) (Some desired) lease")
  note law = cas [OF c]
  have "d' = d \<and> err = None \<or> d' = d1 \<and> err \<noteq> None"
  proof (cases "requestSessionTakeover SendCommand n lease")
    case None
    then show ?thesis using assms by (auto simp: takeoverOldNode_def split: if_splits)
  next
    case (Some e)
    then show ?thesis using assms
      by (cases "d_GetNodeLease ops d (l_NodeID lease) (l_IncarnationID lease)")
        (auto simp: takeoverOldNode_def rollbackSessionTakeover_def c split: if_splits option.splits)
  qed
  then consider "d' = d" "err = None" | "d' = d1" "err \<noteq> None" by blast
  then show ?thesis
  proof cases
    case 2
    then show ?thesis using law by auto
  qed simp
qed

end


section \<open>Properties\<close>

lemma sim_atomic: "\<exists>f. d_CASState simOps = Some f"
  by (simp add: simOps_def)

lemma claimedLease_sel [simp]:
  "l_SessionID (claimedLease n client lease now) = l_SessionID lease" "l_NodeID (claimedLease n client lease now) = ClusterNodeID n"
  "l_IncarnationID (claimedLease n client lease now) = ClusterIncarnationID n"
  "l_LeaseVersion (claimedLease n client lease now) = l_LeaseVersion lease + 1"
  by (simp_all add: claimedLease_def)

text \<open>
  (C9) A fenced node never writes a session back. Whatever other nodes do to the directory between the
  read and the write of a synchronisation: it succeeds only by replacing an absent lease or a lease of
  this very node incarnation that is not newer, and then lease and snapshot change together and nothing else does; if at
  the moment of the write the session belongs to another incarnation, the synchronisation writes
  nothing and reports the fencing.
\<close>

theorem sync_never_overwrites:
  assumes run: "syncClusterSessionState simOps n env ident subs epoch now d = (d', r)"
  shows "(r = None \<longrightarrow>
      mget (sessionLeases d') = (mget (sessionLeases (env 0 d)))(id_SessionID ident := Some (clusterSessionLease n ident now)) \<and>
      mget (snapshots d') = (mget (snapshots (env 0 d)))(id_SessionID ident := Some (clusterSessionSnapshot ident subs epoch now)) \<and>
      (case mget (sessionLeases (env 0 d)) (id_SessionID ident) of None \<Rightarrow> True
       | Some l \<Rightarrow> l_NodeID l = ClusterNodeID n \<and> l_IncarnationID l = ClusterIncarnationID n \<and>
           l_LeaseVersion l \<le> l_LeaseVersion (clusterSessionLease n ident now))) \<and>
    (r \<noteq> None \<longrightarrow> r = Some ErrSessionFenced \<and> d' \<in> {d, env 0 d}) \<and>
    (\<forall>l. mget (sessionLeases (env 0 d)) (id_SessionID ident) = Some l \<longrightarrow>
       l_NodeID l \<noteq> ClusterNodeID n \<or> l_IncarnationID l \<noteq> ClusterIncarnationID n \<longrightarrow> r = Some ErrSessionFenced)"
proof -
  obtain f where f: "d_CASState simOps = Some f" using sim_atomic by blast
  have dd: "r \<noteq> None \<longrightarrow> r = Some ErrSessionFenced \<and> d' \<in> {d, env 0 d}"
    using run by (auto simp: syncClusterSessionState_def compareAndSwapSessionState_def fencedUnless_def simOps_def
        CompareAndSwapSessionState_def Let_def split: if_splits option.splits)
  show ?thesis
  proof (cases r)
    case None
    then show ?thesis using sim.sync_spec [OF f run] by (auto simp: owned_by_def split: option.splits)
  next
    case (Some e)
    then show ?thesis using dd by simp
  qed
qed

lemma adopt_channels: "fst ` set (fold (\<lambda>ch m. mput ch () m) chs m) = set chs \<union> fst ` set m"
  by (induction chs arbitrary: m) (auto simp: keys_mput)

text \<open>
  (C5) A session is resumed on another node only by its owner and by one node at a time. A connection of another user or
  namespace is refused before anything is written. The claim succeeds only if the lease still has the
  fencing that was read; if another node claimed it in between, the resume is stale and writes nothing. A
  successful resume leaves the lease with this incarnation at the next version and adopts exactly the
  channels of the snapshot; a failed takeover of a live node gives the lease back unless someone else took it.
\<close>

theorem resume_fencing:
  assumes run: "resumeRemoteSession simOps SendCommand n env client sid authUser now d = (d', r)"
    and sid: "sid \<noteq> []" and lease: "GetSessionLease d sid = Some lease" "l_SessionID lease = sid"
  shows "(authUser \<noteq> [] \<and> l_UserID lease \<noteq> [] \<and> authUser \<noteq> l_UserID lease \<or>
       id_Namespace client \<noteq> [] \<and> l_Namespace lease \<noteq> [] \<and> id_Namespace client \<noteq> l_Namespace lease \<longrightarrow>
       d' = d \<and> r = Inl (ErrDisconnect DisconnectInvalidToken)) \<and>
    (\<forall>snapshot ident channels. r = Inr (Some (snapshot, ident, channels)) \<longrightarrow>
       leaseEqual (mget (sessionLeases (env 0 d)) sid) (Some lease) \<and>
       mget (sessionLeases d') = (mget (sessionLeases (env 0 d)))(sid := Some (claimedLease n client lease now)) \<and>
       snapshots d' = snapshots (env 0 d) \<and> GetSessionSnapshot d sid = Some snapshot \<and> id_SessionID ident = sid \<and>
       fst ` set channels = ss_Channel ` set (s_Subscriptions snapshot)) \<and>
    (\<forall>n2 client2 now2. mget (sessionLeases (env 0 d)) sid = Some (claimedLease n2 client2 lease now2) \<longrightarrow>
       (\<forall>x. r \<noteq> Inr (Some x)) \<and> d' \<in> {d, env 0 d}) \<and>
    (\<forall>e. r = Inl (TakeoverFailed e) \<longrightarrow>
       (\<exists>d1. CompareAndSwapSessionLease (env 0 d) (Some lease) (claimedLease n client lease now) = (d1, True) \<and>
          mget (sessionLeases d') =
            (if leaseEqual (mget (sessionLeases (env 1 d1)) sid) (Some (claimedLease n client lease now))
             then (mget (sessionLeases (env 1 d1)))(sid := Some lease) else mget (sessionLeases (env 1 d1)))))"
proof -
  let ?des = "claimedLease n client lease now" and ?u = "authUser \<noteq> [] \<and> l_UserID lease \<noteq> [] \<and> authUser \<noteq> l_UserID lease"
  let ?ns = "id_Namespace client \<noteq> [] \<and> l_Namespace lease \<noteq> [] \<and> id_Namespace client \<noteq> l_Namespace lease"
  obtain d1 ok where c: "CompareAndSwapSessionLease (env 0 d) (Some lease) ?des = (d1, ok)"
    by (cases "CompareAndSwapSessionLease (env 0 d) (Some lease) ?des")
  have ok: "ok \<longleftrightarrow> leaseEqual (mget (sessionLeases (env 0 d)) sid) (Some lease)" "\<not> ok \<Longrightarrow> d1 = env 0 d"
    "ok \<Longrightarrow> mget (sessionLeases d1) = (mget (sessionLeases (env 0 d)))(sid := Some ?des)" "snapshots d1 = snapshots (env 0 d)"
    using c lease(2) by (auto simp: CompareAndSwapSessionLease_def mget_upd split: if_splits)
  have other: "\<not> ok" if "mget (sessionLeases (env 0 d)) sid = Some (claimedLease n2 client2 lease now2)" for n2 client2 now2
    using that ok(1) by simp
  have get: "d_GetSessionLease simOps d sid = Inr (Some lease)" using lease(1) by (simp add: simOps_def)
  consider (refused) "?u \<or> ?ns" | (nosnap) "\<not> ?u" "\<not> ?ns" "GetSessionSnapshot d sid = None"
    | (claim) s where "\<not> ?u" "\<not> ?ns" "GetSessionSnapshot d sid = Some s" by blast
  then show ?thesis
  proof cases
    case refused
    then have "d' = d" "r = Inl (ErrDisconnect DisconnectInvalidToken)"
      using run sid get by (auto simp: resumeRemoteSession_def split: if_splits)
    then show ?thesis by auto
  next
    case nosnap
    then have "d' = d" "r = Inr None"
      using run sid get by (auto simp: resumeRemoteSession_def simOps_def split: if_splits)
    then show ?thesis using nosnap by auto
  next
    case (claim s)
    have snap: "d_GetSessionSnapshot simOps d sid = Inr (Some s)" using claim(3) by (simp add: simOps_def)
    have cas: "d_CASLease simOps (env 0 d) (Some lease) ?des = (d1, Inr ok)" using c by (simp add: simOps_def)
    show ?thesis
    proof (cases ok)
      case False
      then have "d' = env 0 d" "r = Inl (ErrDisconnect DisconnectStale)"
        using run sid get snap cas claim ok(2) by (auto simp: resumeRemoteSession_def Let_def split: if_splits)
      then show ?thesis using claim by auto
    next
      case True
      obtain d2 err where t: "takeoverOldNode simOps SendCommand n env lease ?des d1 = (d2, err)"
        by (cases "takeoverOldNode simOps SendCommand n env lease ?des d1")
      show ?thesis
      proof (cases err)
        case None
        then have "d2 = d1" using sim.takeover_spec [OF t] by simp
        let ?res = "AdoptIdentity client sid (if s_Namespace s = [] then id_Namespace client else s_Namespace s) (s_UserID s) (s_ClientID s)
            (map ss_Channel (s_Subscriptions s)) (if l_LeaseVersion lease > 0 then l_LeaseVersion lease + 1 else 0)"
        have "resumeRemoteSession simOps SendCommand n env client sid authUser now d = (d1, Inr (Some (s, ?res)))"
          unfolding resumeRemoteSession_def get sum.case option.case if_not_P [OF sid] if_not_P [OF claim(1)] if_not_P [OF claim(2)] snap Let_def cas prod.case
          using True t None \<open>d2 = d1\<close> by simp
        then have r: "d' = d1" "r = Inr (Some (s, ?res))" using run by simp_all
        have "id_SessionID (fst ?res) = sid" "fst ` set (snd ?res) = ss_Channel ` set (s_Subscriptions s)"
          using adopt_channels [of "map ss_Channel (s_Subscriptions s)" "[]"] by (simp_all add: AdoptIdentity_def)
        then have "\<forall>snapshot ident channels. r = Inr (Some (snapshot, ident, channels)) \<longrightarrow>
            snapshot = s \<and> id_SessionID ident = sid \<and> fst ` set channels = ss_Channel ` set (s_Subscriptions s)" using r(2) by (metis Inr_inject Pair_inject fst_conv option.inject snd_conv)
        moreover have "\<forall>e. r \<noteq> Inl e" "mget (sessionLeases (env 0 d)) sid \<noteq> Some (claimedLease n2 client2 lease now2)" for n2 client2 now2
          using r(2) other True by auto
        ultimately show ?thesis using claim ok(1,3,4) True r(1) by blast
      next
        case (Some e)
        then have r: "d' = d2" "r = Inl e"
          using run sid get snap cas claim True t by (auto simp: resumeRemoteSession_def Let_def split: if_splits)
        have "d2 = fst (CompareAndSwapSessionLease (env 1 d1) (Some ?des) lease)"
          using t Some by (auto simp: takeoverOldNode_def rollbackSessionTakeover_def simOps_def split_beta split: if_splits option.splits)
        then have "mget (sessionLeases d2) = (if leaseEqual (mget (sessionLeases (env 1 d1)) sid) (Some ?des)
             then (mget (sessionLeases (env 1 d1)))(sid := Some lease) else mget (sessionLeases (env 1 d1)))"
          using lease(2) by (auto simp: CompareAndSwapSessionLease_def Let_def mget_upd)
        then show ?thesis using r claim c True other by auto
      qed
    qed
  qed
qed


text \<open>Two nodes and a session of node \<^verbatim>\<open>b\<close>.\<close>

definition nodeA :: clusterNode where
  "nodeA = \<lparr>ClusterNodeID = ''a'', ClusterIncarnationID = ''1'', sessionLeaseTTL_of = 600\<rparr>"

definition nodeB :: clusterNode where
  "nodeB = \<lparr>ClusterNodeID = ''b'', ClusterIncarnationID = ''7'', sessionLeaseTTL_of = 600\<rparr>"

definition aliceIdent :: IdentitySnapshot where
  "aliceIdent = \<lparr>id_SessionID = ''s1'', id_UserID = ''alice'', id_Namespace = ''acme'', id_ClientID = ''c1'',
     id_Protocol = ''v2'', id_Authenticated = True, id_ConnectedAt = 0, id_LastActivity = 0, id_LeaseVersion = 1\<rparr>"

definition dirB :: directory where
  "dirB = fst (syncClusterSessionState simOps nodeB (\<lambda>_ d. d) aliceIdent [(''acme:lobby'', False, 5)] ''e1'' 0 NewDirectory)"

theorem sync_never_overwrites_witness:
  "snd (syncClusterSessionState simOps nodeA (\<lambda>_ _. dirB) aliceIdent [] ''e1'' 9 NewDirectory) = Some ErrSessionFenced \<and>
   fst (syncClusterSessionState simOps nodeA (\<lambda>_ _. dirB) aliceIdent [] ''e1'' 9 NewDirectory) \<in> {NewDirectory, dirB}"
proof -
  obtain d' r where run: "syncClusterSessionState simOps nodeA (\<lambda>_ _. dirB) aliceIdent [] ''e1'' 9 NewDirectory = (d', r)"
    by (cases "syncClusterSessionState simOps nodeA (\<lambda>_ _. dirB) aliceIdent [] ''e1'' 9 NewDirectory")
  have "map_option l_NodeID (mget (sessionLeases dirB) (id_SessionID aliceIdent)) = Some ''b''" by code_simp
  moreover have "ClusterNodeID nodeA = ''a''" by (simp add: nodeA_def)
  ultimately show ?thesis using sync_never_overwrites [OF run] run by auto
qed

theorem resume_fencing_witness:
  "\<exists>d' snapshot ident channels. resumeRemoteSession simOps (\<lambda>_. Inr None) nodeA (\<lambda>_ d. d) (aliceIdent\<lparr>id_SessionID := ''x''\<rparr>) ''s1'' ''alice'' 9 dirB =
      (d', Inr (Some (snapshot, ident, channels))) \<and>
     map_option l_NodeID (mget (sessionLeases d') ''s1'') = Some ''a'' \<and> fst ` set channels = {''acme:lobby''}"
proof -
  let ?run = "resumeRemoteSession simOps (\<lambda>_. Inr None) nodeA (\<lambda>_ d. d) (aliceIdent\<lparr>id_SessionID := ''x''\<rparr>) ''s1'' ''alice'' 9 dirB"
  have "(case ?run of (_, Inr (Some (s, _, _))) \<Rightarrow> map ss_Channel (s_Subscriptions s) = [''acme:lobby''] | _ \<Rightarrow> False)" by code_simp
  then obtain d' s ident chans where r: "?run = (d', Inr (Some (s, ident, chans)))" "map ss_Channel (s_Subscriptions s) = [''acme:lobby'']"
    by (auto split: prod.splits sum.splits option.splits)
  have "(case GetSessionLease dirB ''s1'' of None \<Rightarrow> False | Some l \<Rightarrow> l_SessionID l = ''s1'')" by code_simp
  then obtain lease where l: "GetSessionLease dirB ''s1'' = Some lease" "l_SessionID lease = ''s1''" by (auto split: option.splits)
  have "set (map ss_Channel (s_Subscriptions s)) = {''acme:lobby''}" using r(2) by simp
  then show ?thesis using resume_fencing [OF r(1) _ l] r(1) by (auto simp: nodeA_def)
qed

text \<open>Node \<^verbatim>\<open>a\<close> resumes the session and synchronises it.\<close>

definition takeoverByA :: "directory \<Rightarrow> directory" where
  "takeoverByA d =
     (case resumeRemoteSession simOps (\<lambda>_. Inr None) nodeA (\<lambda>_ d. d) (aliceIdent\<lparr>id_SessionID := ''x''\<rparr>) ''s1'' ''alice'' 9 d of
        (d, Inr (Some (_, ident, _))) \<Rightarrow> fst (syncClusterSessionState simOps nodeA (\<lambda>_ d. d) ident [(''acme:lobby'', False, 8)] ''e1'' 10 d)
      | (d, _) \<Rightarrow> d)"



text \<open>
  (C35) Deleting the state of a session is owner-exact on the lease. Whatever other nodes do in between: a lease that at the moment of
  the deletion names another incarnation survives it, a lease of this incarnation is removed, and no other
  session's lease is touched.
\<close>

theorem delete_owner_exact:
  assumes run: "deleteClusterSessionState simOps n env now sid d = (d', r)"
  shows "r = None \<and>
    (d' = d \<or>
     (\<exists>d1. mget (sessionLeases d') = mget (sessionLeases (env 1 d1)) \<and>
        mget (sessionLeases d1) =
          (case mget (sessionLeases (env 0 d)) sid of
             None \<Rightarrow> mget (sessionLeases (env 0 d))
           | Some l \<Rightarrow> if l_NodeID l = ClusterNodeID n \<and> l_IncarnationID l = ClusterIncarnationID n
                        then (mget (sessionLeases (env 0 d)))(sid := None) else mget (sessionLeases (env 0 d)))))"
proof -
  obtain d1 ok where o: "DeleteSessionLeaseIfOwner (env 0 d) sid (ClusterNodeID n) (ClusterIncarnationID n) = (d1, ok)"
    by (cases "DeleteSessionLeaseIfOwner (env 0 d) sid (ClusterNodeID n) (ClusterIncarnationID n)")
  have d1: "mget (sessionLeases d1) = (case mget (sessionLeases (env 0 d)) sid of
             None \<Rightarrow> mget (sessionLeases (env 0 d))
           | Some l \<Rightarrow> if l_NodeID l = ClusterNodeID n \<and> l_IncarnationID l = ClusterIncarnationID n
                        then (mget (sessionLeases (env 0 d)))(sid := None) else mget (sessionLeases (env 0 d)))"
    using o by (auto simp: DeleteSessionLeaseIfOwner_def Let_def mget_upd split: option.splits if_splits)
  have "r = None \<and> (d' = d \<or> d' = DeleteSessionSnapshot (env 1 d1) sid)"
    using run o by (auto simp: deleteClusterSessionState_def simOps_def split: if_splits option.splits)
  then show ?thesis using d1 by (auto simp: DeleteSessionSnapshot_def)
qed

theorem delete_owner_exact_witness:
  "\<exists>d'. deleteClusterSessionState simOps nodeB (\<lambda>_ d. d) 11 ''s1'' dirB = (d', None) \<and> mget (sessionLeases d') ''s1'' = None"
proof -
  obtain d' r where run: "deleteClusterSessionState simOps nodeB (\<lambda>_ d. d) 11 ''s1'' dirB = (d', r)"
    by (cases "deleteClusterSessionState simOps nodeB (\<lambda>_ d. d) 11 ''s1'' dirB")
  have "GetSessionLease (fst (deleteClusterSessionState simOps nodeB (\<lambda>_ d. d) 11 ''s1'' dirB)) ''s1'' = None" by code_simp
  then show ?thesis using delete_owner_exact [OF run] run by (auto simp: GetSessionLease_def)
qed

end
