(* ===== verification/ClusterRepair.thy ===== *)
theory ClusterRepair
  imports ClusterState HubSubs
begin

text \<open>
  The repairer of \<^verbatim>\<open>internal/runtime/cluster_repair.go\<close> and the renewal bookkeeping of the node lease manager of
  \<^verbatim>\<open>internal/runtime/cluster_state.go\<close>: membership beats with the invalidation of departed incarnations, the
  republication and reaping of channel projections, and the rebuild of the user index. The clock and the query store are
  given; the loop with its jittered timer is left out. A zero expiry is the zero time.
\<close>

section \<open>Renewals of the node lease\<close>

record renewState =
  renewFailureStreak :: int
  renewEscalated :: bool

definition renewEscalationThreshold :: "int \<Rightarrow> int \<Rightarrow> int" where
  "renewEscalationThreshold TTL RenewInterval =
     (let ttl = (if TTL \<le> 0 then 90000000000 else TTL);
          interval = (if RenewInterval \<le> 0 then 30000000000 else RenewInterval);
          threshold = ttl div interval
      in if threshold > 1 then threshold else 1)"

definition recordRenewal :: "int \<Rightarrow> int \<Rightarrow> renewState \<Rightarrow> bool \<Rightarrow> renewState" where
  "recordRenewal TTL RenewInterval s failed =
     (if \<not> failed then \<lparr>renewFailureStreak = 0, renewEscalated = False\<rparr>
      else let streak = renewFailureStreak s + 1
           in \<lparr>renewFailureStreak = streak, renewEscalated = (streak \<ge> renewEscalationThreshold TTL RenewInterval)\<rparr>)"

definition renewOnce :: "string \<Rightarrow> string \<Rightarrow> int \<Rightarrow> int \<Rightarrow> ClusterNodeLease" where
  "renewOnce nodeID incarnationID TTL now =
     \<lparr>nl_NodeID = nodeID, nl_IncarnationID = incarnationID, nl_StartedAt = now, nl_ExpiresAt = now + TTL\<rparr>"

section \<open>Membership\<close>

type_synonym nodeIncarnation = "string \<times> string"

record clusterRepairer =
  alive :: "nodeIncarnation list"
  primed :: bool

definition currentMembers :: "int \<Rightarrow> ClusterNodeLease list \<Rightarrow> nodeIncarnation list" where
  "currentMembers now leases =
     remdups (map (\<lambda>l. (nl_NodeID l, nl_IncarnationID l))
       (filter (\<lambda>l. nl_NodeID l \<noteq> [] \<and> nl_IncarnationID l \<noteq> [] \<and> \<not> (nl_ExpiresAt l \<noteq> 0 \<and> nl_ExpiresAt l \<le> now)) leases))"

text \<open>The deletions of \<^verbatim>\<open>onLeave\<close>, for the leases listed.\<close>

fun deleteLeasesOf :: "'d directoryOps \<Rightarrow> string \<Rightarrow> string \<Rightarrow> ClusterSessionLease list \<Rightarrow> 'd \<Rightarrow> 'd" where
  "deleteLeasesOf ops nodeID incarnationID [] d = d"
| "deleteLeasesOf ops nodeID incarnationID (lease # leases) d =
     (if l_SessionID lease = [] \<or> l_NodeID lease \<noteq> nodeID \<or> l_IncarnationID lease \<noteq> incarnationID
      then deleteLeasesOf ops nodeID incarnationID leases d
      else deleteLeasesOf ops nodeID incarnationID leases
        (case d_DeleteLeaseIfOwner ops of
           Some del \<Rightarrow> fst (del d (l_SessionID lease) (l_NodeID lease) (l_IncarnationID lease))
         | None \<Rightarrow> fst (d_DeleteLease ops d (l_SessionID lease))))"

definition onLeave ::
    "'d directoryOps \<Rightarrow> ('d \<Rightarrow> string + ClusterSessionLease list) \<Rightarrow> nodeIncarnation \<Rightarrow> 'd \<Rightarrow> 'd" where
  "onLeave ops ListLeases m d =
     (case ListLeases d of Inl _ \<Rightarrow> d | Inr leases \<Rightarrow> deleteLeasesOf ops (fst m) (snd m) leases d)"

definition departed :: "nodeIncarnation \<Rightarrow> nodeIncarnation list \<Rightarrow> nodeIncarnation list \<Rightarrow> nodeIncarnation list" where
  "departed self previous current = filter (\<lambda>m. m \<notin> set current \<and> m \<noteq> self) previous"

definition membershipOnce ::
    "'d directoryOps \<Rightarrow> ('d \<Rightarrow> string + ClusterSessionLease list) \<Rightarrow> ('d \<Rightarrow> string + ClusterNodeLease list) \<Rightarrow> nodeIncarnation \<Rightarrow> int \<Rightarrow>
     clusterRepairer \<Rightarrow> 'd \<Rightarrow> clusterRepairer \<times> 'd \<times> string option" where
  "membershipOnce ops ListLeases ListNodes self now r d =
     (case ListNodes d of
        Inl err \<Rightarrow> (r, d, Some err)
      | Inr leases \<Rightarrow>
          let current = currentMembers now leases
          in if \<not> primed r then (\<lparr>alive = current, primed = True\<rparr>, d, None)
             else (r\<lparr>alive := current\<rparr>, fold (onLeave ops ListLeases) (departed self (alive r) current) d, None))"

section \<open>Projections and the user index\<close>

definition projectionCounts :: "ChannelInfo list \<Rightarrow> (string, int) gomap" where
  "projectionCounts channels =
     fold (\<lambda>c m. if ci_Name c = [] \<or> ci_Subscribers c \<le> 0 then m else mput (ci_Name c) (ci_Subscribers c) m) channels []"

text \<open>The projections to reap: those of other incarnations without a node lease.\<close>

definition deadProjections ::
    "nodeIncarnation \<Rightarrow> (string \<Rightarrow> string \<Rightarrow> string + ClusterNodeLease option) \<Rightarrow> nodeIncarnation list \<Rightarrow> nodeIncarnation list" where
  "deadProjections self GetNode projections = filter (\<lambda>p. p \<noteq> self \<and> GetNode (fst p) (snd p) = Inr None) projections"

definition repairUserIndex :: "int \<Rightarrow> ClusterSessionLease list \<Rightarrow> directory \<Rightarrow> directory" where
  "repairUserIndex now leases d =
     fold (\<lambda>lease d. if l_SessionID lease = [] \<or> l_UserID lease = [] \<or> l_ExpiresAt lease \<le> now then d
                      else AddUserSession d (l_Namespace lease) (l_UserID lease) (l_SessionID lease)) leases d"


section \<open>Properties\<close>

text \<open>The leases of a directory are filed under their session identifiers, which are not empty.\<close>

definition leases_ok :: "directory \<Rightarrow> bool" where
  "leases_ok d \<longleftrightarrow> mwf (sessionLeases d) \<and> (\<forall>sid l. mget (sessionLeases d) sid = Some l \<longrightarrow> l_SessionID l = sid \<and> sid \<noteq> [])"

lemma leases_okD:
  "leases_ok d \<Longrightarrow> mget (sessionLeases d) sid = Some l \<Longrightarrow> l_SessionID l = sid"
  "leases_ok d \<Longrightarrow> mget (sessionLeases d) sid = Some l \<Longrightarrow> sid \<noteq> []"
  by (simp_all add: leases_ok_def)

lemma deleteIfOwner_leases:
  "mget (sessionLeases (fst (DeleteSessionLeaseIfOwner d sid n i))) s =
     (if s = sid \<and> (\<exists>l. mget (sessionLeases d) sid = Some l \<and> owned_by n i l) then None else mget (sessionLeases d) s)"
  by (auto simp: DeleteSessionLeaseIfOwner_def owned_by_def Let_def mget_upd split: option.split)

lemma deleteIfOwner_wf: "mwf (sessionLeases d) \<Longrightarrow> mwf (sessionLeases (fst (DeleteSessionLeaseIfOwner d sid n i)))"
  by (auto simp: DeleteSessionLeaseIfOwner_def Let_def split: option.split)

lemma deleteLeasesOf_leases:
  "mget (sessionLeases (deleteLeasesOf simOps n i ls d)) s =
     (case mget (sessionLeases d) s of None \<Rightarrow> None
      | Some l \<Rightarrow> if owned_by n i l \<and> s \<noteq> [] \<and> (\<exists>l' \<in> set ls. l_SessionID l' = s \<and> owned_by n i l') then None else Some l)"
proof (induction ls arbitrary: d)
  case Nil
  then show ?case by (simp split: option.split)
next
  case (Cons a ls)
  have ops: "d_DeleteLeaseIfOwner simOps = Some (\<lambda>d sid nodeID inc. let (d, ok) = DeleteSessionLeaseIfOwner d sid nodeID inc in (d, Inr ok))"
    by (simp add: simOps_def)
  show ?case
  proof (cases "l_SessionID a = [] \<or> \<not> owned_by n i a")
    case True
    then show ?thesis using Cons by (auto simp: owned_by_def split: option.split)
  next
    case False
    then show ?thesis using Cons
      by (cases "mget (sessionLeases d) s")
        (auto simp: ops owned_by_def deleteIfOwner_leases [unfolded owned_by_def] split_beta)
  qed
qed

lemma deleteLeasesOf_wf: "mwf (sessionLeases d) \<Longrightarrow> mwf (sessionLeases (deleteLeasesOf simOps n i ls d))"
  by (induction simOps n i ls d rule: deleteLeasesOf.induct)
    (auto simp: simOps_def split_beta deleteIfOwner_wf)

lemma onLeave_leases:
  assumes "leases_ok d"
  shows "mget (sessionLeases (onLeave simOps (\<lambda>d. Inr (ListSessionLeases d)) m d)) sid =
      (case mget (sessionLeases d) sid of None \<Rightarrow> None | Some l \<Rightarrow> if owned_by (fst m) (snd m) l then None else Some l)"
    "leases_ok (onLeave simOps (\<lambda>d. Inr (ListSessionLeases d)) m d)"
proof -
  have w: "mwf (sessionLeases d)" using assms by (simp add: leases_ok_def)
  have all: "l \<in> set (ListSessionLeases d)" if "mget (sessionLeases d) s = Some l" for s l
    using mget_in_set [OF that] by (force simp: ListSessionLeases_def)
  show eq: "mget (sessionLeases (onLeave simOps (\<lambda>d. Inr (ListSessionLeases d)) m d)) sid =
      (case mget (sessionLeases d) sid of None \<Rightarrow> None | Some l \<Rightarrow> if owned_by (fst m) (snd m) l then None else Some l)" for sid
  proof (cases "mget (sessionLeases d) sid")
    case (Some l)
    then show ?thesis using all [OF Some] leases_okD [OF assms Some] by (auto simp: onLeave_def deleteLeasesOf_leases)
  qed (simp add: onLeave_def deleteLeasesOf_leases)
  show "leases_ok (onLeave simOps (\<lambda>d. Inr (ListSessionLeases d)) m d)"
    unfolding leases_ok_def eq using assms deleteLeasesOf_wf [OF w]
    by (auto simp: onLeave_def leases_ok_def split: option.splits if_splits)
qed

lemma onLeaves_leases:
  assumes "leases_ok d"
  shows "mget (sessionLeases (fold (onLeave simOps (\<lambda>d. Inr (ListSessionLeases d))) ms d)) sid =
      (case mget (sessionLeases d) sid of None \<Rightarrow> None
       | Some l \<Rightarrow> if (l_NodeID l, l_IncarnationID l) \<in> set ms then None else Some l)"
  using assms
proof (induction ms arbitrary: d)
  case Nil
  then show ?case by (simp split: option.split)
next
  case (Cons m ms)
  show ?case
    using Cons(1) [OF onLeave_leases(2) [OF Cons(2)]] onLeave_leases(1) [OF Cons(2), of m sid]
    by (cases m) (auto simp: owned_by_def split: option.splits if_splits)
qed

text \<open>
  (C33) A membership beat invalidates the sessions of departed incarnations and of nobody else. The first beat only
  records who is alive. Afterwards a session lease disappears exactly when its incarnation was alive at the previous beat, has no unexpired node
  lease now, and is not the node's own; every other lease stays as it is.
\<close>

theorem membership_exact:
  assumes ok: "leases_ok d"
    and run: "membershipOnce simOps (\<lambda>d. Inr (ListSessionLeases d)) (\<lambda>d. Inr (ListNodeLeases d)) self now r d = (r', d', e)"
  shows "e = None \<and> primed r' \<and>
    set (alive r') = {(nl_NodeID l, nl_IncarnationID l) | l. l \<in> set (ListNodeLeases d) \<and> nl_NodeID l \<noteq> [] \<and> nl_IncarnationID l \<noteq> [] \<and>
       (nl_ExpiresAt l = 0 \<or> nl_ExpiresAt l > now)} \<and>
    (\<not> primed r \<longrightarrow> d' = d) \<and>
    (primed r \<longrightarrow> mget (sessionLeases d') sid =
       (case mget (sessionLeases d) sid of None \<Rightarrow> None
        | Some l \<Rightarrow>
            if (l_NodeID l, l_IncarnationID l) \<in> set (alive r) - set (alive r') \<and> (l_NodeID l, l_IncarnationID l) \<noteq> self
            then None else Some l))"
proof -
  have al: "set (currentMembers now ls) = {(nl_NodeID l, nl_IncarnationID l) | l. l \<in> set ls \<and> nl_NodeID l \<noteq> [] \<and> nl_IncarnationID l \<noteq> [] \<and>
       (nl_ExpiresAt l = 0 \<or> nl_ExpiresAt l > now)}" for ls
    by (auto simp: currentMembers_def)
  show ?thesis
  proof (cases "primed r")
    case False
    then show ?thesis using run al by (auto simp: membershipOnce_def Let_def)
  next
    case True
    then have r: "e = None" "alive r' = currentMembers now (ListNodeLeases d)" "primed r'"
      "d' = fold (onLeave simOps (\<lambda>d. Inr (ListSessionLeases d))) (departed self (alive r) (alive r')) d"
      using run by (auto simp: membershipOnce_def Let_def)
    show ?thesis unfolding r(4) onLeaves_leases [OF ok]
      using True r(1-3) al by (auto simp: departed_def split: option.split)
  qed
qed

definition twoNodes :: directory where
  "twoNodes = PutNodeLease (PutNodeLease dirB (renewOnce ''a'' ''1'' 90 0)) (renewOnce ''b'' ''7'' 20 0)"

theorem membership_exact_witness:
  "\<exists>r d'. membershipOnce simOps (\<lambda>d. Inr (ListSessionLeases d)) (\<lambda>d. Inr (ListNodeLeases d)) (''a'', ''1'') 30
       \<lparr>alive = [(''a'', ''1''), (''b'', ''7'')], primed = True\<rparr> twoNodes = (r, d', None) \<and>
     mget (sessionLeases twoNodes) ''s1'' \<noteq> None \<and> mget (sessionLeases d') ''s1'' = None"
proof -
  let ?r = "\<lparr>alive = [(''a'', ''1''), (''b'', ''7'')], primed = True\<rparr>"
  have s: "map_option (\<lambda>l. (l_NodeID l, l_IncarnationID l, l_SessionID l)) (mget (sessionLeases twoNodes) ''s1'') = Some (''b'', ''7'', ''s1'')"
    "map fst (sessionLeases twoNodes) = [''s1'']" by code_simp+
  then obtain l where l: "mget (sessionLeases twoNodes) ''s1'' = Some l" "l_NodeID l = ''b''" "l_IncarnationID l = ''7''" "l_SessionID l = ''s1''"
    by auto
  have only: "sid = ''s1''" if "mget (sessionLeases twoNodes) sid = Some l" for sid l
  proof -
    have "sid \<in> set (map fst (sessionLeases twoNodes))" using mget_in_set [OF that] by force
    then show ?thesis unfolding s(2) by simp
  qed
  have "mwf (sessionLeases twoNodes)" unfolding mwf_def s(2) by simp
  moreover have "l_SessionID k = sid \<and> sid \<noteq> []" if k: "mget (sessionLeases twoNodes) sid = Some k" for sid k
    using only [OF k] k l(1,4) by simp
  ultimately have ok: "leases_ok twoNodes" unfolding leases_ok_def by blast
  obtain r d' e where run: "membershipOnce simOps (\<lambda>d. Inr (ListSessionLeases d)) (\<lambda>d. Inr (ListNodeLeases d)) (''a'', ''1'') 30 ?r twoNodes = (r, d', e)"
    by (cases "membershipOnce simOps (\<lambda>d. Inr (ListSessionLeases d)) (\<lambda>d. Inr (ListNodeLeases d)) (''a'', ''1'') 30 ?r twoNodes") auto
  have "alive (fst (membershipOnce simOps (\<lambda>d. Inr (ListSessionLeases d)) (\<lambda>d. Inr (ListNodeLeases d)) (''a'', ''1'') 30 ?r twoNodes)) = [(''a'', ''1'')]"
    by code_simp
  then have "alive r = [(''a'', ''1'')]" using run by simp
  then have "mget (sessionLeases d') ''s1'' = None" "e = None" using membership_exact [OF ok run, of "''s1''"] l by simp_all
  then show ?thesis using run l(1) by blast
qed


lemma AddUserSession_leases [simp]: "sessionLeases (AddUserSession d ns u sid) = sessionLeases d"
  by (simp add: AddUserSession_def Let_def)

lemma AddUserSession_index:
  "set (ListUserSessions (AddUserSession d ns u sid) ns' u') \<supseteq> set (ListUserSessions d ns' u')"
  "u \<noteq> [] \<Longrightarrow> sid \<noteq> [] \<Longrightarrow> sid \<in> set (ListUserSessions (AddUserSession d ns u sid) ns u)"
  by (auto simp: ListUserSessions_def AddUserSession_def Let_def mzero_def keys_mput split: option.split)

lemma repairUserIndex_mono: "set (ListUserSessions d ns u) \<subseteq> set (ListUserSessions (repairUserIndex now ls d) ns u)"
proof (induction ls arbitrary: d)
  case (Cons a ls)
  then show ?case
    using AddUserSession_index(1) [where ns' = ns and u' = u and d = d and ns = "l_Namespace a" and u = "l_UserID a" and sid = "l_SessionID a"]
      Cons [of "AddUserSession d (l_Namespace a) (l_UserID a) (l_SessionID a)"] Cons [of d]
    by (auto simp: repairUserIndex_def)
qed (simp add: repairUserIndex_def)

lemma repairUserIndex_spec:
  "sessionLeases (repairUserIndex now ls d) = sessionLeases d"
  "l \<in> set ls \<Longrightarrow> l_SessionID l \<noteq> [] \<Longrightarrow> l_UserID l \<noteq> [] \<Longrightarrow> l_ExpiresAt l > now \<Longrightarrow>
     l_SessionID l \<in> set (ListUserSessions (repairUserIndex now ls d) (l_Namespace l) (l_UserID l))"
proof (induction ls arbitrary: d)
  case (Cons a ls)
  define f where "f d = (if l_SessionID a = [] \<or> l_UserID a = [] \<or> l_ExpiresAt a \<le> now then d
      else AddUserSession d (l_Namespace a) (l_UserID a) (l_SessionID a))" for d
  have step: "repairUserIndex now (a # ls) d = repairUserIndex now ls (f d)" for d by (simp add: repairUserIndex_def f_def)
  {
    case 1
    then show ?case unfolding step using Cons(1) [of "f d"] by (simp add: f_def)
  next
    case 2
    show ?case
    proof (cases "l \<in> set ls")
      case True
      then show ?thesis unfolding step using Cons(2) 2 by blast
    next
      case False
      then have "l = a" using 2 by simp
      then have "l_SessionID l \<in> set (ListUserSessions (f d) (l_Namespace l) (l_UserID l))"
        using 2 AddUserSession_index(2) by (simp add: f_def)
      then show ?thesis unfolding step using repairUserIndex_mono [of "f d" "l_Namespace l" "l_UserID l"] by blast
    qed
  }
qed (simp_all add: repairUserIndex_def)



end
