(* ===== verification/SendQueue.thy ===== *)
theory SendQueue
  imports Base "HOL-Library.Multiset" "HOL-Library.Sublist"
begin

text \<open>
  The outbound queue of a session and its writer, \<^verbatim>\<open>internal/session/session.go\<close>: the two lanes of \<^verbatim>\<open>sendQueue\<close>
  with \<^verbatim>\<open>tryEnqueue\<close>, \<^verbatim>\<open>dequeue\<close> and \<^verbatim>\<open>close\<close>, and the loop of \<^verbatim>\<open>writerLoop\<close>. Each operation holds the
  lock of the queue and is one step. A frame is identified by its \<^verbatim>\<open>done\<close> channel, on which its sender
  receives the outcome; the transport decides the outcome of a write.
\<close>

section \<open>The queue\<close>

definition sendQueueControlDepth :: nat where
  "sendQueueControlDepth = 32"

definition sendQueueDataDepth :: nat where
  "sendQueueDataDepth = 256"

text \<open>Errors as the sentinels their chain wraps, which is what \<^verbatim>\<open>errors.Is\<close> looks for.\<close>

datatype sentinel = ErrSendQueueFull | ErrSessionNotAttached | ErrOutboundTooLarge | ErrMarshalerChanged
  | ErrSessionFenced | ErrPeerGone | EOF | NetErrClosed | ContextDone

type_synonym go_error = "sentinel list"

definition errorsIs :: "go_error \<Rightarrow> sentinel \<Rightarrow> bool" where
  "errorsIs err target = (target \<in> set err)"

record queuedFrame =
  f_done :: nat
  f_bytes :: "bytes"
  f_control :: bool

record sendQueue =
  q_closed :: bool
  q_control :: "queuedFrame list"
  q_data :: "queuedFrame list"

definition newSendQueue :: sendQueue where
  "newSendQueue = \<lparr>q_closed = False, q_control = [], q_data = []\<rparr>"

definition tryEnqueue :: "sendQueue \<Rightarrow> queuedFrame \<Rightarrow> sendQueue \<times> go_error option" where
  "tryEnqueue q frame =
     (if q_closed q then (q, Some [ErrSessionNotAttached])
      else if f_control frame then
        (if length (q_control q) \<ge> sendQueueControlDepth then (q, Some [ErrSendQueueFull])
         else (q\<lparr>q_control := q_control q @ [frame]\<rparr>, None))
      else if length (q_data q) \<ge> sendQueueDataDepth then (q, Some [ErrSendQueueFull])
      else (q\<lparr>q_data := q_data q @ [frame]\<rparr>, None))"

text \<open>A call of \<^verbatim>\<open>dequeue\<close> waits, ends because the queue is closed, or takes a frame.\<close>

datatype dequeued = Waits | Ends | Takes queuedFrame

definition dequeue :: "sendQueue \<Rightarrow> sendQueue \<times> dequeued" where
  "dequeue q =
     (if q_closed q then (q, Ends)
      else case q_control q of
        frame # rest \<Rightarrow> (q\<lparr>q_control := rest\<rparr>, Takes frame)
      | [] \<Rightarrow> (case q_data q of
            frame # rest \<Rightarrow> (q\<lparr>q_data := rest\<rparr>, Takes frame)
          | [] \<Rightarrow> (q, Waits)))"

text \<open>Closing returns the frames whose senders are told \<^verbatim>\<open>ErrSessionNotAttached\<close>.\<close>

definition close_queue :: "sendQueue \<Rightarrow> sendQueue \<times> queuedFrame list" where
  "close_queue q =
     (if q_closed q then (q, [])
      else (\<lparr>q_closed = True, q_control = [], q_data = []\<rparr>, q_control q @ q_data q))"

section \<open>Senders and the writer\<close>

text \<open>The queue with its writer goroutine: the frame being written, whether the writer runs, the frames on the
  wire, the outcomes given to the senders and the frames accepted so far, in order.\<close>

record writer =
  w_queue :: sendQueue
  w_frame :: "queuedFrame option"
  w_running :: bool
  w_wire :: "queuedFrame list"
  w_outcomes :: "(queuedFrame \<times> go_error option) list"
  w_accepted :: "queuedFrame list"

definition newWriter :: writer where
  "newWriter = \<lparr>w_queue = newSendQueue, w_frame = None, w_running = True, w_wire = [], w_outcomes = [], w_accepted = []\<rparr>"

text \<open>The loop of \<^verbatim>\<open>writerLoop\<close> between two accesses to the queue: the result of the write goes to the sender,
  and a failed write ends the loop.\<close>

definition writeFrame :: "writer \<Rightarrow> go_error option \<Rightarrow> writer" where
  "writeFrame w err =
     (case w_frame w of
        None \<Rightarrow> w
      | Some frame \<Rightarrow> (case err of
          None \<Rightarrow> w\<lparr>w_frame := None, w_wire := w_wire w @ [frame], w_outcomes := w_outcomes w @ [(frame, None)]\<rparr>
        | Some e \<Rightarrow> w\<lparr>w_frame := None, w_running := False, w_outcomes := w_outcomes w @ [(frame, Some e)]\<rparr>))"

definition nextFrame :: "writer \<Rightarrow> writer" where
  "nextFrame w =
     (if \<not> w_running w \<or> w_frame w \<noteq> None then w
      else case dequeue (w_queue w) of
        (q, Waits) \<Rightarrow> w
      | (q, Ends) \<Rightarrow> w\<lparr>w_running := False\<rparr>
      | (q, Takes frame) \<Rightarrow> w\<lparr>w_queue := q, w_frame := Some frame\<rparr>)"

definition sendFrame :: "writer \<Rightarrow> queuedFrame \<Rightarrow> writer" where
  "sendFrame w frame =
     (case tryEnqueue (w_queue w) frame of
        (q, None) \<Rightarrow> w\<lparr>w_queue := q, w_accepted := w_accepted w @ [frame]\<rparr>
      | (q, Some e) \<Rightarrow> w)"

definition stopWriter :: "writer \<Rightarrow> writer" where
  "stopWriter w =
     (let (q, frames) = close_queue (w_queue w)
      in w\<lparr>w_queue := q, w_outcomes := w_outcomes w @ map (\<lambda>f. (f, Some [ErrSessionNotAttached])) frames\<rparr>)"

text \<open>Every interleaving of senders, writer and closers; each frame has its own \<^verbatim>\<open>done\<close> channel.\<close>

inductive writer_run :: "writer \<Rightarrow> bool" where
  start: "writer_run newWriter"
| send: "writer_run w \<Longrightarrow> f_done frame \<notin> f_done ` set (w_accepted w) \<Longrightarrow> writer_run (sendFrame w frame)"
| dequeues: "writer_run w \<Longrightarrow> writer_run (nextFrame w)"
| writes: "writer_run w \<Longrightarrow> writer_run (writeFrame w err)"
| closes: "writer_run w \<Longrightarrow> writer_run (stopWriter w)"

abbreviation lane :: "bool \<Rightarrow> queuedFrame list \<Rightarrow> queuedFrame list" where
  "lane c \<equiv> filter (\<lambda>f. f_control f = c)"

definition pending :: "writer \<Rightarrow> queuedFrame list" where
  "pending w = (case w_frame w of Some f \<Rightarrow> [f] | None \<Rightarrow> []) @ q_control (w_queue w) @ q_data (w_queue w)"

section \<open>Order, bounds and outcomes\<close>

definition in_writer :: "writer \<Rightarrow> queuedFrame list" where
  "in_writer w = (case w_frame w of Some f \<Rightarrow> [f] | None \<Rightarrow> [])"

lemma pending_eq: "pending w = in_writer w @ q_control (w_queue w) @ q_data (w_queue w)"
  by (simp add: pending_def in_writer_def)

text \<open>The accepted frames of a lane are those on the wire, the one being written and the rest; the rest is what
  is queued as long as the writer serves the queue.\<close>

definition lane_order :: "bool \<Rightarrow> writer \<Rightarrow> bool" where
  "lane_order c w \<longleftrightarrow> (\<exists>rest. lane c (w_accepted w) = lane c (w_wire w) @ lane c (in_writer w) @ rest \<and>
     (w_running w \<and> \<not> q_closed (w_queue w) \<longrightarrow> rest = lane c (q_control (w_queue w) @ q_data (w_queue w))))"

definition queue_wf :: "sendQueue \<Rightarrow> bool" where
  "queue_wf q \<longleftrightarrow> length (q_control q) \<le> sendQueueControlDepth \<and> length (q_data q) \<le> sendQueueDataDepth \<and>
     (\<forall>f \<in> set (q_control q). f_control f) \<and> (\<forall>f \<in> set (q_data q). \<not> f_control f) \<and>
     (q_closed q \<longrightarrow> q_control q = [] \<and> q_data q = [])"

definition writer_inv :: "writer \<Rightarrow> bool" where
  "writer_inv w \<longleftrightarrow> queue_wf (w_queue w) \<and> (\<forall>c. lane_order c w) \<and>
     mset (w_accepted w) = mset (map fst (w_outcomes w)) + mset (pending w) \<and>
     distinct (map f_done (w_accepted w)) \<and>
     map fst (filter (\<lambda>(f, r). r = None) (w_outcomes w)) = w_wire w"

lemma tryEnqueue_cases:
  assumes "queue_wf q" "tryEnqueue q f = (q', e)"
  obtains "e \<noteq> None" "q' = q" "q_closed q \<or> length (if f_control f then q_control q else q_data q) \<ge>
      (if f_control f then sendQueueControlDepth else sendQueueDataDepth)"
  | "e = None" "\<not> q_closed q" "\<not> q_closed q'" "queue_wf q'" "f_control f" "q_control q' = q_control q @ [f]" "q_data q' = q_data q"
  | "e = None" "\<not> q_closed q" "\<not> q_closed q'" "queue_wf q'" "\<not> f_control f" "q_control q' = q_control q" "q_data q' = q_data q @ [f]"
  using assms by (auto simp: tryEnqueue_def queue_wf_def split: if_splits)

lemma dequeue_cases:
  assumes "queue_wf q" "dequeue q = (q', r)"
  obtains "r = Waits" "q' = q" "\<not> q_closed q"
  | "r = Ends" "q' = q" "q_closed q"
  | f where "r = Takes f" "\<not> q_closed q" "\<not> q_closed q'" "queue_wf q'" "f_control f" "q_control q = f # q_control q'" "q_data q' = q_data q"
  | f where "r = Takes f" "\<not> q_closed q" "\<not> q_closed q'" "queue_wf q'" "\<not> f_control f" "q_control q = []" "q_control q' = []"
      "q_data q = f # q_data q'"
  using assms by (auto simp: dequeue_def queue_wf_def split: if_splits list.splits)

lemma lanes_of_wf:
  assumes "queue_wf q"
  shows "lane True (q_control q) = q_control q" "lane False (q_control q) = []"
    "lane True (q_data q) = []" "lane False (q_data q) = q_data q"
  using assms by (auto simp: queue_wf_def filter_empty_conv intro!: filter_True)

lemma send_inv:
  assumes inv: "writer_inv w" and fresh: "f_done f \<notin> f_done ` set (w_accepted w)"
  shows "writer_inv (sendFrame w f)"
proof -
  obtain q' e where t: "tryEnqueue (w_queue w) f = (q', e)" by fastforce
  have wf: "queue_wf (w_queue w)" using inv by (simp add: writer_inv_def)
  let ?w = "w\<lparr>w_queue := q', w_accepted := w_accepted w @ [f]\<rparr>"
  have step: "sendFrame w f = (if e = None then ?w else w)" using t by (simp add: sendFrame_def split: option.split)
  have grown: "writer_inv ?w"
    if q: "queue_wf q'" "q_closed q' = q_closed (w_queue w)"
      "mset (q_control q' @ q_data q') = mset (q_control (w_queue w) @ q_data (w_queue w)) + {#f#}"
      "\<And>c. lane c (q_control q' @ q_data q') = lane c (q_control (w_queue w) @ q_data (w_queue w)) @ lane c [f]"
  proof -
    have "lane_order c ?w" for c
    proof -
      obtain rest where "lane c (w_accepted w) = lane c (w_wire w) @ lane c (in_writer w) @ rest"
        "w_running w \<and> \<not> q_closed (w_queue w) \<longrightarrow> rest = lane c (q_control (w_queue w) @ q_data (w_queue w))"
        using inv by (auto simp: writer_inv_def lane_order_def)
      then show ?thesis using q(2) q(4) [of c] unfolding lane_order_def
        by (intro exI [of _ "rest @ lane c [f]"]) (simp add: in_writer_def)
    qed
    then show ?thesis using inv q fresh by (simp add: writer_inv_def pending_eq in_writer_def)
  qed
  show ?thesis using t wf
  proof (cases rule: tryEnqueue_cases [OF wf t])
    case 1
    then have "sendFrame w f = w" using step by auto
    then show ?thesis using inv by simp
  next
    case 2
    have "writer_inv ?w"
    proof (rule grown)
      show "lane c (q_control q' @ q_data q') = lane c (q_control (w_queue w) @ q_data (w_queue w)) @ lane c [f]" for c
        using 2 lanes_of_wf [OF wf] lanes_of_wf [OF 2(4)] by (cases c) simp_all
    qed (use 2 in simp_all)
    then show ?thesis using step 2 by simp
  next
    case 3
    have "writer_inv ?w"
    proof (rule grown)
      show "lane c (q_control q' @ q_data q') = lane c (q_control (w_queue w) @ q_data (w_queue w)) @ lane c [f]" for c
        using 3 by simp
    qed (use 3 in simp_all)
    then show ?thesis using step 3 by simp
  qed
qed

lemma next_inv:
  assumes inv: "writer_inv w"
  shows "writer_inv (nextFrame w)"
proof (cases "\<not> w_running w \<or> w_frame w \<noteq> None")
  case True
  then show ?thesis using inv by (simp add: nextFrame_def)
next
  case False
  obtain q' r where d: "dequeue (w_queue w) = (q', r)" by fastforce
  have wf: "queue_wf (w_queue w)" using inv by (simp add: writer_inv_def)
  have taken: "writer_inv (w\<lparr>w_queue := q', w_frame := Some f\<rparr>)"
    if q: "queue_wf q'" "\<not> q_closed (w_queue w)" "\<not> q_closed q'"
      "mset (q_control (w_queue w) @ q_data (w_queue w)) = mset (q_control q' @ q_data q') + {#f#}"
      "\<And>c. lane c (q_control (w_queue w) @ q_data (w_queue w)) = lane c [f] @ lane c (q_control q' @ q_data q')" for f
  proof -
    have "lane_order c (w\<lparr>w_queue := q', w_frame := Some f\<rparr>)" for c
    proof -
      have "lane c (w_accepted w) = lane c (w_wire w) @ lane c (q_control (w_queue w) @ q_data (w_queue w))"
        using inv False q(2) by (auto simp: writer_inv_def lane_order_def in_writer_def)
      then show ?thesis using q(5) [of c] by (simp add: lane_order_def in_writer_def)
    qed
    then show ?thesis using inv q False by (simp add: writer_inv_def pending_eq in_writer_def)
  qed
  show ?thesis
  proof (cases rule: dequeue_cases [OF wf d])
    case 1
    then show ?thesis using inv d False by (simp add: nextFrame_def)
  next
    case 2
    then have "nextFrame w = w\<lparr>w_running := False\<rparr>" using d False by (simp add: nextFrame_def)
    then show ?thesis using inv 2 by (simp add: writer_inv_def lane_order_def in_writer_def pending_def)
  next
    case (3 f)
    then have "nextFrame w = w\<lparr>w_queue := q', w_frame := Some f\<rparr>" using d False by (simp add: nextFrame_def)
    moreover have "writer_inv (w\<lparr>w_queue := q', w_frame := Some f\<rparr>)" by (rule taken) (use 3 in auto)
    ultimately show ?thesis by simp
  next
    case (4 f)
    then have "nextFrame w = w\<lparr>w_queue := q', w_frame := Some f\<rparr>" using d False by (simp add: nextFrame_def)
    moreover have "writer_inv (w\<lparr>w_queue := q', w_frame := Some f\<rparr>)" by (rule taken) (use 4 in auto)
    ultimately show ?thesis by simp
  qed
qed

lemma write_inv:
  assumes inv: "writer_inv w"
  shows "writer_inv (writeFrame w err)"
proof (cases "w_frame w")
  case None
  then show ?thesis using inv by (simp add: writeFrame_def)
next
  case (Some f)
  have "lane_order c (writeFrame w err)" for c
  proof -
    obtain rest where "lane c (w_accepted w) = lane c (w_wire w) @ lane c (in_writer w) @ rest"
      "w_running w \<and> \<not> q_closed (w_queue w) \<longrightarrow> rest = lane c (q_control (w_queue w) @ q_data (w_queue w))"
      using inv by (auto simp: writer_inv_def lane_order_def)
    then show ?thesis using Some unfolding lane_order_def
      by (cases err) (simp_all add: writeFrame_def in_writer_def)
  qed
  then show ?thesis using inv Some by (cases err) (simp_all add: writer_inv_def writeFrame_def pending_eq in_writer_def)
qed

lemma stop_inv:
  assumes inv: "writer_inv w"
  shows "writer_inv (stopWriter w)"
proof (cases "q_closed (w_queue w)")
  case True
  then show ?thesis using inv by (simp add: stopWriter_def close_queue_def)
next
  case False
  have "lane_order c (stopWriter w)" for c
    using inv False by (auto simp: writer_inv_def lane_order_def stopWriter_def close_queue_def in_writer_def)
  moreover have "filter (\<lambda>(f, r). r = None) (map (\<lambda>f. (f, Some [ErrSessionNotAttached])) fs) = []" for fs :: "queuedFrame list"
    by (simp add: filter_empty_conv)
  ultimately show ?thesis using inv False
    by (simp add: writer_inv_def stopWriter_def close_queue_def pending_eq in_writer_def queue_wf_def comp_def)
qed

lemma writer_run_inv: "writer_run w \<Longrightarrow> writer_inv w"
proof (induction rule: writer_run.induct)
  case start
  show ?case by (simp add: writer_inv_def newWriter_def newSendQueue_def queue_wf_def lane_order_def pending_def in_writer_def)
qed (simp_all add: send_inv next_inv write_inv stop_inv)

lemma accepted_iff:
  assumes "queue_wf (w_queue w)"
  shows "w_accepted (sendFrame w f) = w_accepted w @ (if q_closed (w_queue w) \<or>
      (if f_control f then length (q_control (w_queue w)) = sendQueueControlDepth
       else length (q_data (w_queue w)) = sendQueueDataDepth) then [] else [f])"
  using assms by (auto simp: sendFrame_def tryEnqueue_def queue_wf_def)

text \<open>
  (C22) In every interleaving of senders, the writer and closers of a session's outbound queue, the lanes stay
  within 32 control and 256 data frames, and a frame is refused exactly when the queue is closed or its lane
  is full. Every accepted frame is either still pending or has received exactly one outcome; a sender is told
  success exactly when its frame is on the wire; the frames of a lane reach the wire in the order they
  were accepted, without holes. After closing, at most the frame being written is pending. A data frame is
  only taken when no control frame waits.
\<close>

theorem send_queue:
  assumes "writer_run w"
  shows "length (q_control (w_queue w)) \<le> 32 \<and> length (q_data (w_queue w)) \<le> 256 \<and>
    (w_accepted (sendFrame w f) = w_accepted w \<longleftrightarrow> q_closed (w_queue w) \<or>
      (if f_control f then length (q_control (w_queue w)) = 32 else length (q_data (w_queue w)) = 256)) \<and>
    distinct (map (f_done \<circ> fst) (w_outcomes w) @ map f_done (pending w)) \<and>
    set (w_accepted w) = fst ` set (w_outcomes w) \<union> set (pending w) \<and>
    map fst (filter (\<lambda>(f, r). r = None) (w_outcomes w)) = w_wire w \<and>
    prefix (lane c (w_wire w)) (lane c (w_accepted w)) \<and>
    (q_closed (w_queue w) \<longrightarrow> pending w = (case w_frame w of Some f \<Rightarrow> [f] | None \<Rightarrow> [])) \<and>
    (w_frame w = None \<and> w_frame (nextFrame w) = Some g \<and> \<not> f_control g \<longrightarrow> q_control (w_queue w) = [])"
proof -
  have inv: "writer_inv w" using assms by (rule writer_run_inv)
  then have wf: "queue_wf (w_queue w)" and m: "mset (w_accepted w) = mset (map fst (w_outcomes w) @ pending w)"
    and d: "distinct (map f_done (w_accepted w))" and l: "lane_order c w"
    by (simp_all add: writer_inv_def)
  have dist: "distinct (map (f_done \<circ> fst) (w_outcomes w) @ map f_done (pending w))"
  proof -
    have "mset (map f_done (w_accepted w)) = mset (map (f_done \<circ> fst) (w_outcomes w) @ map f_done (pending w))"
      using arg_cong [OF m, of "image_mset f_done"] by (simp add: comp_def multiset.map_comp)
    then show ?thesis using d by (metis mset_eq_imp_distinct_iff)
  qed
  have elems: "set (w_accepted w) = fst ` set (w_outcomes w) \<union> set (pending w)"
    using mset_eq_setD [OF m] by simp
  have data: "q_control (w_queue w) = []" if g: "w_frame w = None" "w_frame (nextFrame w) = Some g" "\<not> f_control g"
  proof -
    obtain q' r where dq: "dequeue (w_queue w) = (q', r)" by fastforce
    show ?thesis using g dq
      by (cases rule: dequeue_cases [OF wf dq]) (auto simp: nextFrame_def split: if_splits)
  qed
  show ?thesis
    using wf dist elems data l inv accepted_iff [OF wf, of f]
    by (auto simp: writer_inv_def queue_wf_def sendQueueControlDepth_def sendQueueDataDepth_def pending_def
        lane_order_def prefix_def)
qed

definition queued_example :: "writer \<Rightarrow> writer" where
  "queued_example w = stopWriter (writeFrame (nextFrame (sendFrame (sendFrame w
     \<lparr>f_done = 0, f_bytes = ''pub'', f_control = False\<rparr>) \<lparr>f_done = 1, f_bytes = ''ack'', f_control = True\<rparr>)) None)"

theorem send_queue_witness:
  "w_wire (queued_example newWriter) = [\<lparr>f_done = 1, f_bytes = ''ack'', f_control = True\<rparr>] \<and>
   set (w_accepted (queued_example newWriter)) =
     fst ` set (w_outcomes (queued_example newWriter)) \<union> set (pending (queued_example newWriter)) \<and>
   prefix (lane True (w_wire (queued_example newWriter))) (lane True (w_accepted (queued_example newWriter)))"
proof -
  have "writer_run (queued_example newWriter)"
    unfolding queued_example_def
    by (intro writer_run.closes writer_run.writes writer_run.dequeues writer_run.send writer_run.start)
      (simp_all add: newWriter_def sendFrame_def tryEnqueue_def newSendQueue_def sendQueueDataDepth_def)
  note q = send_queue [OF this, where c = True]
  have "w_wire (queued_example newWriter) = [\<lparr>f_done = 1, f_bytes = ''ack'', f_control = True\<rparr>]" by code_simp
  then show ?thesis using q by blast
qed

end
