(* ===== verification/SessionLife.thy ===== *)
theory SessionLife
  imports SendQueue NodeRun
begin

text \<open>
  The life of a session, \<^verbatim>\<open>internal/session/session.go\<close> and \<^verbatim>\<open>internal/session/takeover.go\<close>: binding a transport
  (\<^verbatim>\<open>Attach\<close>), tearing it off (\<^verbatim>\<open>Detach\<close>), termination (\<^verbatim>\<open>Close\<close>), eviction by another owner (\<^verbatim>\<open>Fence\<close>), the local
  takeover of a session by a new connection, the rules that decide which connection may close what, and the
  sending of frames.

  The store holds the session objects, attachments and queues; a pointer is an index. The identity of a session
  and the subscriptions live in the node of \<^verbatim>\<open>NodeSubs\<close>. Where the code gives up the lock between two sections,
  the operation takes what other goroutines do there as a parameter. Contexts, log lines, metrics and the
  notification of the proxy are left out; the goroutines that leave channels on closing work in an order that is a
  parameter, too.
\<close>

section \<open>Objects\<close>

datatype SessionState = SessionAuthenticating | SessionAttached | SessionDetached | SessionClosed

type_synonym aptr = nat
type_synonym qptr = nat

record Attachment =
  at_Transport :: "nat option"
  at_Marshaler :: "Marshaler option"
  at_Protocol :: string

record Session =
  o_state :: SessionState
  o_attachment :: "aptr option"
  o_out :: qptr
  o_delegate :: "sptr option"
  o_loopAtt :: aptr
  o_protocol :: string
  o_heartbeat :: bool
  o_pingDeadline :: bool

text \<open>\<open>w_writers\<close> are the writer goroutines started so far, \<open>w_failed\<close> the frames whose senders were told
  \<^verbatim>\<open>ErrSessionNotAttached\<close>, \<open>w_closed\<close> the calls of \<^verbatim>\<open>Transport.Close\<close>, \<open>w_left\<close> the calls of \<^verbatim>\<open>PresenceLeave\<close> with
  the ephemeral flag, and \<open>w_deleted\<close> the calls of \<^verbatim>\<open>DeleteClusterSessionState\<close>.\<close>

record ('b, 'c) world =
  w_objs :: "Session list"
  w_atts :: "Attachment list"
  w_queues :: "sendQueue list"
  w_node :: "('b, 'c) nodeState"
  w_writers :: "(sptr \<times> aptr \<times> qptr) list"
  w_failed :: "queuedFrame list"
  w_closed :: "(nat \<times> Disconnect) list"
  w_left :: "(string \<times> string \<times> bool) list"
  w_deleted :: "string list"

record ('b, 'e, 'c) sessionRuntime =
  rt_ident :: "sptr \<Rightarrow> sessIdent"
  rt_broker :: "('b, 'e) brokerOps"
  rt_cluster :: "'c clusterOps"
  rt_heartbeat :: bool
  rt_maxMessageSize :: nat

definition noDisconnect :: Disconnect where
  "noDisconnect = \<lparr>Code = 0, Reason = []\<rparr>"

definition upd_obj :: "sptr \<Rightarrow> (Session \<Rightarrow> Session) \<Rightarrow> ('b, 'c) world \<Rightarrow> ('b, 'c) world" where
  "upd_obj s f w = w\<lparr>w_objs := (w_objs w)[s := f (w_objs w ! s)]\<rparr>"

text \<open>The lifecycle state; the node reads whether a session is closed.\<close>

definition set_state :: "sptr \<Rightarrow> SessionState \<Rightarrow> ('b, 'c) world \<Rightarrow> ('b, 'c) world" where
  "set_state s st w = upd_obj s (\<lambda>x. x\<lparr>o_state := st\<rparr>)
     (w\<lparr>w_node := (w_node w)\<lparr>sess_closed := (sess_closed (w_node w))(s := st = SessionClosed)\<rparr>\<rparr>)"

definition stopHeartbeatLocked :: "sptr \<Rightarrow> ('b, 'c) world \<Rightarrow> ('b, 'c) world" where
  "stopHeartbeatLocked s w = upd_obj s (\<lambda>x. x\<lparr>o_heartbeat := False\<rparr>) w"

definition startHeartbeat :: "('b, 'e, 'c) sessionRuntime \<Rightarrow> sptr \<Rightarrow> ('b, 'c) world \<Rightarrow> ('b, 'c) world" where
  "startHeartbeat rt s w = (if rt_heartbeat rt then upd_obj s (\<lambda>x. x\<lparr>o_heartbeat := True\<rparr>) w else w)"

definition stopWriterLocked :: "sptr \<Rightarrow> ('b, 'c) world \<Rightarrow> ('b, 'c) world" where
  "stopWriterLocked s w =
     (let p = o_out (w_objs w ! s); (q, frames) = close_queue (w_queues w ! p)
      in w\<lparr>w_queues := (w_queues w)[p := q], w_failed := w_failed w @ frames\<rparr>)"

definition closeTransport :: "aptr option \<Rightarrow> Disconnect \<Rightarrow> ('b, 'c) world \<Rightarrow> ('b, 'c) world" where
  "closeTransport att reason w =
     (case att of
        None \<Rightarrow> w
      | Some a \<Rightarrow> (case at_Transport (w_atts w ! a) of None \<Rightarrow> w | Some t \<Rightarrow> w\<lparr>w_closed := w_closed w @ [(t, reason)]\<rparr>))"

definition goWriter :: "sptr \<Rightarrow> aptr \<Rightarrow> qptr \<Rightarrow> ('b, 'c) world \<Rightarrow> ('b, 'c) world" where
  "goWriter s a q w = w\<lparr>w_writers := w_writers w @ [(s, a, q)]\<rparr>"

section \<open>Operations\<close>

definition NewClient ::
    "('b, 'e, 'c) sessionRuntime \<Rightarrow> ('b, 'c) world \<Rightarrow> nat option \<Rightarrow> Marshaler option \<Rightarrow> string \<Rightarrow> ('b, 'c) world \<times> sptr" where
  "NewClient rt w t marshaler protocol =
     (let a = length (w_atts w); s = length (w_objs w);
          client = \<lparr>o_state = SessionAuthenticating, o_attachment = Some a, o_out = length (w_queues w), o_delegate = None,
            o_loopAtt = a, o_protocol = protocol, o_heartbeat = False, o_pingDeadline = False\<rparr>
      in (startHeartbeat rt s (w\<lparr>w_objs := w_objs w @ [client],
            w_atts := w_atts w @ [\<lparr>at_Transport = t, at_Marshaler = marshaler, at_Protocol = protocol\<rparr>],
            w_queues := w_queues w @ [newSendQueue],
            w_node := (w_node w)\<lparr>sess_closed := (sess_closed (w_node w))(s := False)\<rparr>\<rparr>), s))"

datatype attachError = NilAttachment | ProbeFailed go_error | AttachClosed | AlreadyAttached | ClosedDuringConnect

text \<open>\<open>probe\<close> is what the transport answers to the empty write.\<close>

definition Attach ::
    "('b, 'e, 'c) sessionRuntime \<Rightarrow> ('b, 'c) world \<Rightarrow> sptr \<Rightarrow> aptr option \<Rightarrow> go_error option \<Rightarrow> ('b, 'c) world \<times> attachError option" where
  "Attach rt w s att probe =
     (case att of
        None \<Rightarrow> (w, Some NilAttachment)
      | Some a \<Rightarrow>
          if at_Transport (w_atts w ! a) = None then (w, Some NilAttachment)
          else case probe of
            Some e \<Rightarrow> (w, Some (ProbeFailed e))
          | None \<Rightarrow>
              if o_state (w_objs w ! s) = SessionClosed then (w, Some AttachClosed)
              else if o_state (w_objs w ! s) = SessionAttached then (w, Some AlreadyAttached)
              else
                let wasDetached = o_state (w_objs w ! s) = SessionDetached;
                    w = upd_obj s (\<lambda>x. x\<lparr>o_attachment := Some a, o_protocol := at_Protocol (w_atts w ! a)\<rparr>)
                          (set_state s SessionAttached w);
                    w = (if wasDetached
                         then upd_obj s (\<lambda>x. x\<lparr>o_out := length (w_queues w)\<rparr>) (w\<lparr>w_queues := w_queues w @ [newSendQueue]\<rparr>)
                         else w);
                    w = startHeartbeat rt s (stopHeartbeatLocked s w)
                in (goWriter s a (o_out (w_objs w ! s)) w, None))"

definition Detach :: "('b, 'c) world \<Rightarrow> sptr \<Rightarrow> Disconnect \<Rightarrow> ('b, 'c) world" where
  "Detach w s reason =
     (if o_state (w_objs w ! s) \<noteq> SessionAttached then w
      else
        let att = o_attachment (w_objs w ! s);
            w = stopWriterLocked s (stopHeartbeatLocked s (set_state s SessionDetached w));
            w = upd_obj s (\<lambda>x. x\<lparr>o_attachment := None\<rparr>) w
        in closeTransport att reason w)"

definition canonical :: "('b, 'c) world \<Rightarrow> sptr \<Rightarrow> sptr" where
  "canonical w s = (case o_delegate (w_objs w ! s) of Some d \<Rightarrow> d | None \<Rightarrow> s)"

text \<open>\<^verbatim>\<open>Fence\<close> and \<^verbatim>\<open>Close\<close> call themselves on the canonical session until it is its own. A chain longer than the
  number of objects is a cycle, on which the code would not return.\<close>

fun closeRoute :: "nat \<Rightarrow> ('b, 'c) world \<Rightarrow> sptr \<Rightarrow> sptr option" where
  "closeRoute 0 w s = None"
| "closeRoute (Suc n) w s = (if canonical w s = s then Some s else closeRoute n w (canonical w s))"

text \<open>The locked section both begin with: the attachment and the channels the session tracks.\<close>

definition shutLocked :: "('b, 'c) world \<Rightarrow> sptr \<Rightarrow> ('b, 'c) world" where
  "shutLocked w s = upd_obj s (\<lambda>x. x\<lparr>o_attachment := None\<rparr>)
     (stopWriterLocked s (stopHeartbeatLocked s (set_state s SessionClosed w)))"

fun leaveAll :: "('b, 'e, 'c) sessionRuntime \<Rightarrow> sptr \<Rightarrow> string list \<Rightarrow> ('b, 'c) world \<Rightarrow> ('b, 'c) world" where
  "leaveAll rt s [] w = w"
| "leaveAll rt s (ch # chs) w =
     (let ephemeral = (case LookupSubscriber (rt_ident rt) (n_hub (w_node w)) ch s of Some stored \<Rightarrow> Ephemeral stored | None \<Rightarrow> False)
      in leaveAll rt s chs (w\<lparr>w_left := w_left w @ [(ch, SessionID (rt_ident rt s), ephemeral)]\<rparr>))"

fun removeAll :: "('b, 'e, 'c) sessionRuntime \<Rightarrow> sptr \<Rightarrow> string list \<Rightarrow> ('b, 'c) nodeState \<Rightarrow> ('b, 'c) nodeState go" where
  "removeAll rt s [] n = goret n"
| "removeAll rt s (ch # chs) n =
     gobind (RemoveSubscription (rt_ident rt) (rt_broker rt) (rt_cluster rt) n ch s) (\<lambda>(n, _). removeAll rt s chs n)"

definition closeOwn ::
    "('b, 'e, 'c) sessionRuntime \<Rightarrow> (string list \<Rightarrow> string list) \<Rightarrow> ('b, 'c) world \<Rightarrow> sptr \<Rightarrow> Disconnect \<Rightarrow> ('b, 'c) world go" where
  "closeOwn rt order w s reason =
     (if o_state (w_objs w ! s) = SessionClosed then goret w
      else
        let att = o_attachment (w_objs w ! s);
            channels = order (map fst (tracked (w_node w) s));
            sessionID = SessionID (rt_ident rt s);
            w = leaveAll rt s channels (shutLocked w s)
        in gobind (removeAll rt s channels (w_node w)) (\<lambda>n.
          let w = w\<lparr>w_node := n\<rparr>;
              w = (if sessionID = [] then w
                   else case RemoveSessionIfMatches (rt_ident rt) (n_hub n) sessionID (Some s) of
                     (h, matched) \<Rightarrow> w\<lparr>w_node := n\<lparr>n_hub := h\<rparr>,
                       w_deleted := (if matched then w_deleted w @ [sessionID] else w_deleted w)\<rparr>)
          in goret (closeTransport att reason w)))"

definition session_Close ::
    "('b, 'e, 'c) sessionRuntime \<Rightarrow> (string list \<Rightarrow> string list) \<Rightarrow> ('b, 'c) world \<Rightarrow> sptr \<Rightarrow> Disconnect \<Rightarrow> ('b, 'c) world go" where
  "session_Close rt order w s reason =
     (case closeRoute (Suc (length (w_objs w))) w s of None \<Rightarrow> None | Some c \<Rightarrow> closeOwn rt order w c reason)"

text \<open>\<^verbatim>\<open>Fence\<close> collects the errors of single channels and reports them joined.\<close>

datatype 'e fenceError = RemoveFailed string "'e subError" | RollbackFailed string "'e subError"

definition adjustOf :: "('b, 'e, 'c) sessionRuntime \<Rightarrow> ('b, 'c) nodeState \<Rightarrow> string \<Rightarrow> int \<Rightarrow> ('b, 'c) nodeState" where
  "adjustOf rt n ch delta = fst (adjustClusterChannelSubscriptions (rt_cluster rt) n ch delta)"

fun fenceRemovals ::
    "('b, 'e, 'c) sessionRuntime \<Rightarrow> sptr \<Rightarrow> string list \<Rightarrow> ('b, 'c) nodeState \<Rightarrow>
     (('b, 'c) nodeState \<times> 'e fenceError list \<times> (string \<times> bool) list) go" where
  "fenceRemovals rt s [] n = goret (n, [], [])"
| "fenceRemovals rt s (ch # chs) n =
     (let ephemeral = (case LookupSubscriber (rt_ident rt) (n_hub n) ch s of Some stored \<Rightarrow> Ephemeral stored | None \<Rightarrow> False)
      in gobind (removeLocalSubscriptionOnly (rt_ident rt) (rt_broker rt) n ch s True) (\<lambda>(n, wasRemoved, err).
        let errs = (case err of Some e \<Rightarrow> [RemoveFailed ch e] | None \<Rightarrow> [])
        in gobind (fenceRemovals rt s chs (if wasRemoved then adjustOf rt n ch (- 1) else n)) (\<lambda>(n, es, rmd).
          goret (n, errs @ es, if wasRemoved then (ch, ephemeral) # rmd else rmd))))"

fun fenceRollback ::
    "('b, 'e, 'c) sessionRuntime \<Rightarrow> sptr \<Rightarrow> (string \<times> bool) list \<Rightarrow> ('b, 'c) nodeState \<Rightarrow>
     (('b, 'c) nodeState \<times> 'e fenceError list) go" where
  "fenceRollback rt s [] n = goret (n, [])"
| "fenceRollback rt s ((ch, ephemeral) # rmd) n =
     gobind (restoreLocalSubscription (rt_ident rt) (rt_broker rt) n ch (NewSubscriber s ephemeral)) (\<lambda>(n, err).
       gobind (fenceRollback rt s rmd (adjustOf rt n ch 1)) (\<lambda>(n, es).
         goret (n, (case err of Some e \<Rightarrow> [RollbackFailed ch e] | None \<Rightarrow> []) @ es)))"

text \<open>A failed fence gives the session its attachment back and restarts the writer.\<close>

definition fenceRestore :: "('b, 'e, 'c) sessionRuntime \<Rightarrow> sptr \<Rightarrow> aptr \<Rightarrow> ('b, 'c) world \<Rightarrow> ('b, 'c) world" where
  "fenceRestore rt s a w =
     (if o_state (w_objs w ! s) = SessionClosed
      then let q = length (w_queues w);
               w = upd_obj s (\<lambda>x. x\<lparr>o_attachment := Some a, o_out := q\<rparr>)
                     (set_state s SessionAttached (w\<lparr>w_queues := w_queues w @ [newSendQueue]\<rparr>))
           in goWriter s a q (startHeartbeat rt s (stopHeartbeatLocked s w))
      else w)"

definition fenceOwn ::
    "('b, 'e, 'c) sessionRuntime \<Rightarrow> (string list \<Rightarrow> string list) \<Rightarrow> ('b, 'c) world \<Rightarrow> sptr \<Rightarrow> Disconnect \<Rightarrow>
     (('b, 'c) world \<times> 'e fenceError list) go" where
  "fenceOwn rt order w s reason =
     (if o_state (w_objs w ! s) = SessionClosed then goret (w, [])
      else
        let att = o_attachment (w_objs w ! s);
            channels = order (map fst (tracked (w_node w) s));
            sessionID = SessionID (rt_ident rt s);
            w = shutLocked w s
        in gobind (fenceRemovals rt s channels (w_node w)) (\<lambda>(n, errs, rmd).
          if errs \<noteq> [] then
            gobind (fenceRollback rt s rmd n) (\<lambda>(n, es).
              let w = w\<lparr>w_node := n\<rparr>
              in goret (case att of
                   Some a \<Rightarrow> fenceRestore rt s a w
                 | None \<Rightarrow> w, errs @ es))
          else
            let w = w\<lparr>w_node := (if sessionID = [] then n
                    else n\<lparr>n_hub := fst (RemoveSessionIfMatches (rt_ident rt) (n_hub n) sessionID (Some s))\<rparr>)\<rparr>
            in goret (closeTransport att reason w, [])))"

definition Fence ::
    "('b, 'e, 'c) sessionRuntime \<Rightarrow> (string list \<Rightarrow> string list) \<Rightarrow> ('b, 'c) world \<Rightarrow> sptr \<Rightarrow> Disconnect \<Rightarrow>
     (('b, 'c) world \<times> 'e fenceError list) go" where
  "Fence rt order w s reason =
     (case closeRoute (Suc (length (w_objs w))) w s of None \<Rightarrow> None | Some c \<Rightarrow> fenceOwn rt order w c reason)"

section \<open>Takeover\<close>

definition handoffAttachment :: "Attachment \<Rightarrow> Attachment" where
  "handoffAttachment att = \<lparr>at_Transport = at_Transport att, at_Marshaler = at_Marshaler att, at_Protocol = at_Protocol att\<rparr>"

text \<open>\<open>env 0\<close> happens before the new connection's attachment is read, \<open>env 1\<close> before the new connection becomes a shell.\<close>

definition takeoverBy ::
    "('b, 'e, 'c) sessionRuntime \<Rightarrow> (string list \<Rightarrow> string list) \<Rightarrow> (nat \<Rightarrow> ('b, 'c) world \<Rightarrow> ('b, 'c) world) \<Rightarrow>
     ('b, 'c) world \<Rightarrow> sptr \<Rightarrow> sptr \<Rightarrow> go_error option \<Rightarrow> (('b, 'c) world \<times> attachError option) go" where
  "takeoverBy rt order env w c existing probe =
     (let w = env 0 (Detach w existing noDisconnect)
      in case o_attachment (w_objs w ! c) of
           None \<Rightarrow> goret (w, Some ClosedDuringConnect)
         | Some tempAtt \<Rightarrow>
             let h = length (w_atts w);
                 w = w\<lparr>w_atts := w_atts w @ [handoffAttachment (w_atts w ! tempAtt)]\<rparr>
             in case Attach rt w existing (Some h) probe of
                  (w, Some e) \<Rightarrow> gobind (session_Close rt order w existing DisconnectInternal) (\<lambda>w. goret (w, Some e))
                | (w, None) \<Rightarrow>
                    goret (upd_obj c (\<lambda>x. x\<lparr>o_delegate := Some existing, o_attachment := None, o_heartbeat := False,
                      o_pingDeadline := False\<rparr>) (env 1 w), None))"

text \<open>The checks and the close they guard are separate sections; \<open>gap\<close> is what happens between them.\<close>

definition closeIfServingHandoff ::
    "('b, 'e, 'c) sessionRuntime \<Rightarrow> (string list \<Rightarrow> string list) \<Rightarrow> (('b, 'c) world \<Rightarrow> ('b, 'c) world) \<Rightarrow>
     ('b, 'c) world \<Rightarrow> sptr \<Rightarrow> aptr option \<Rightarrow> Disconnect \<Rightarrow> ('b, 'c) world go" where
  "closeIfServingHandoff rt order gap w s handoff reason =
     (case (handoff, o_attachment (w_objs w ! s)) of
        (Some h, Some current) \<Rightarrow>
          if at_Transport (w_atts w ! current) \<noteq> at_Transport (w_atts w ! h) then goret w
          else session_Close rt order (gap w) s reason
      | _ \<Rightarrow> goret w)"

definition closeFromAttachment ::
    "('b, 'e, 'c) sessionRuntime \<Rightarrow> (string list \<Rightarrow> string list) \<Rightarrow> (('b, 'c) world \<Rightarrow> ('b, 'c) world) \<Rightarrow>
     ('b, 'c) world \<Rightarrow> sptr \<Rightarrow> aptr \<Rightarrow> ('b, 'c) world go" where
  "closeFromAttachment rt order gap w s att =
     (case o_delegate (w_objs w ! s) of
        Some delegate \<Rightarrow> closeIfServingHandoff rt order gap w delegate (Some att) noDisconnect
      | None \<Rightarrow> if o_attachment (w_objs w ! s) \<noteq> Some att then goret w else session_Close rt order (gap w) s noDisconnect)"

definition closeFromLoop ::
    "('b, 'e, 'c) sessionRuntime \<Rightarrow> (string list \<Rightarrow> string list) \<Rightarrow> (('b, 'c) world \<Rightarrow> ('b, 'c) world) \<Rightarrow>
     ('b, 'c) world \<Rightarrow> sptr \<Rightarrow> Disconnect \<Rightarrow> ('b, 'c) world go" where
  "closeFromLoop rt order gap w s dis =
     (case o_delegate (w_objs w ! s) of
        Some delegate \<Rightarrow> closeIfServingHandoff rt order gap w delegate (Some (o_loopAtt (w_objs w ! s))) dis
      | None \<Rightarrow> if o_attachment (w_objs w ! s) \<noteq> Some (o_loopAtt (w_objs w ! s)) then goret w
                else session_Close rt order (gap w) s dis)"

section \<open>Sending\<close>

definition isPeerClosedError :: "go_error \<Rightarrow> bool" where
  "isPeerClosedError err = (errorsIs err EOF \<or> errorsIs err NetErrClosed \<or> errorsIs err ErrPeerGone)"

definition handleWriteError ::
    "('b, 'e, 'c) sessionRuntime \<Rightarrow> (string list \<Rightarrow> string list) \<Rightarrow> (('b, 'c) world \<Rightarrow> ('b, 'c) world) \<Rightarrow>
     ('b, 'c) world \<Rightarrow> sptr \<Rightarrow> aptr \<Rightarrow> go_error \<Rightarrow> ('b, 'c) world go" where
  "handleWriteError rt order gap w s att err =
     (if o_attachment (w_objs w ! s) \<noteq> Some att then goret w
      else if errorsIs err ErrSessionFenced then gobind (Fence rt order (gap w) s DisconnectStale) (\<lambda>(w, _). goret w)
      else if isPeerClosedError err then session_Close rt order (gap w) s DisconnectConnectionClosed
      else session_Close rt order (gap w) s DisconnectSlowConsumer)"

definition attachmentMarshalerLocked :: "('b, 'c) world \<Rightarrow> sptr \<Rightarrow> Marshaler" where
  "attachmentMarshalerLocked w s =
     (case o_attachment (w_objs w ! s) of
        Some a \<Rightarrow> (case at_Marshaler (w_atts w ! a) of Some m \<Rightarrow> m | None \<Rightarrow> JSONMarshaler)
      | None \<Rightarrow> JSONMarshaler)"

text \<open>A frame is refused, waits in a queue for the writer, or is written to a transport at once with the result the
  transport gives.\<close>

datatype sendOutcome = Refused go_error | InQueue qptr | Direct nat bytes

definition enqueueBytes ::
    "('b, 'e, 'c) sessionRuntime \<Rightarrow> (string list \<Rightarrow> string list) \<Rightarrow> ('b, 'c) world \<Rightarrow> sptr \<Rightarrow> nat \<Rightarrow> bytes \<Rightarrow> bool \<Rightarrow>
     Marshaler \<Rightarrow> (('b, 'c) world \<times> sendOutcome) go" where
  "enqueueBytes rt order w s chan frameBytes control marshaler =
     (if rt_maxMessageSize rt > 0 \<and> length frameBytes > rt_maxMessageSize rt then goret (w, Refused [ErrOutboundTooLarge])
      else if attachmentMarshalerLocked w s \<noteq> marshaler then goret (w, Refused [ErrMarshalerChanged])
      else if o_state (w_objs w ! s) = SessionAttached then
        let p = o_out (w_objs w ! s)
        in (case tryEnqueue (w_queues w ! p) \<lparr>f_done = chan, f_bytes = frameBytes, f_control = control\<rparr> of
              (q, Some e) \<Rightarrow>
                if errorsIs e ErrSendQueueFull
                then gobind (session_Close rt order w s DisconnectSlowConsumer) (\<lambda>w. goret (w, Refused e))
                else goret (w, Refused e)
            | (q, None) \<Rightarrow> goret (w\<lparr>w_queues := (w_queues w)[p := q]\<rparr>, InQueue p))
      else case o_attachment (w_objs w ! s) of
          None \<Rightarrow> goret (w, Refused [ErrSessionNotAttached])
        | Some a \<Rightarrow> (case at_Transport (w_atts w ! a) of
              None \<Rightarrow> goret (w, Refused [ErrSessionNotAttached])
            | Some t \<Rightarrow> goret (w, Direct t frameBytes)))"

text \<open>The retry loop of \<^verbatim>\<open>enqueue\<close>: \<open>gaps\<close> are what happens between marshaling and enqueueing in the rounds that are
  disturbed.\<close>

fun session_enqueue ::
    "('b, 'e, 'c) sessionRuntime \<Rightarrow> (string list \<Rightarrow> string list) \<Rightarrow> (Marshaler \<Rightarrow> 'msg \<Rightarrow> bytes option) \<Rightarrow> ('msg \<Rightarrow> bool) \<Rightarrow>
     (('b, 'c) world \<Rightarrow> ('b, 'c) world) list \<Rightarrow> ('b, 'c) world \<Rightarrow> sptr \<Rightarrow> nat \<Rightarrow> 'msg \<Rightarrow>
     (('b, 'c) world \<times> sendOutcome option) go" where
  "session_enqueue rt order marshal class [] w s chan msg =
     (let m = attachmentMarshalerLocked w s
      in case marshal m msg of
           None \<Rightarrow> goret (w, None)
         | Some frameBytes \<Rightarrow>
             gobind (enqueueBytes rt order w s chan frameBytes (class msg) m) (\<lambda>(w, out). goret (w, Some out)))"
| "session_enqueue rt order marshal class (gap # gaps) w s chan msg =
     (let m = attachmentMarshalerLocked w s
      in case marshal m msg of
           None \<Rightarrow> goret (w, None)
         | Some frameBytes \<Rightarrow>
             gobind (enqueueBytes rt order (gap w) s chan frameBytes (class msg) m) (\<lambda>(w, out).
               if out = Refused [ErrMarshalerChanged] then session_enqueue rt order marshal class gaps w s chan msg
               else goret (w, Some out)))"

text \<open>Control frames by envelope.\<close>

datatype outEnvelope = OutPing | OutPong | OutPublishAck | OutSubscribeAck | OutUnsubscribeAck | OutConnected
  | OutRecoverComplete | OutGapNotice | OutError | OutSubRefreshAck | OutOther

fun outboundFrameClass :: "outEnvelope \<Rightarrow> bool" where
  "outboundFrameClass OutOther = False"
| "outboundFrameClass _ = True"


section \<open>What the operations change\<close>

lemma upd_obj_sel [simp]:
  "w_objs (upd_obj s f w) = (w_objs w)[s := f (w_objs w ! s)]" "w_atts (upd_obj s f w) = w_atts w"
  "w_queues (upd_obj s f w) = w_queues w" "w_node (upd_obj s f w) = w_node w" "w_writers (upd_obj s f w) = w_writers w"
  by (simp_all add: upd_obj_def)

lemma set_state_sel [simp]:
  "w_objs (set_state s st w) = (w_objs w)[s := (w_objs w ! s)\<lparr>o_state := st\<rparr>]" "w_atts (set_state s st w) = w_atts w"
  "w_queues (set_state s st w) = w_queues w" "w_writers (set_state s st w) = w_writers w"
  "w_node (set_state s st w) = (w_node w)\<lparr>sess_closed := (sess_closed (w_node w))(s := st = SessionClosed)\<rparr>"
  by (simp_all add: set_state_def)

lemma heartbeat_sel [simp]:
  "w_objs (stopHeartbeatLocked s w) = (w_objs w)[s := (w_objs w ! s)\<lparr>o_heartbeat := False\<rparr>]"
  "w_objs (startHeartbeat rt s w) = (w_objs w)[s := (w_objs w ! s)\<lparr>o_heartbeat := rt_heartbeat rt \<or> o_heartbeat (w_objs w ! s)\<rparr>]"
  "w_atts (stopHeartbeatLocked s w) = w_atts w" "w_atts (startHeartbeat rt s w) = w_atts w"
  "w_queues (stopHeartbeatLocked s w) = w_queues w" "w_queues (startHeartbeat rt s w) = w_queues w"
  "w_node (stopHeartbeatLocked s w) = w_node w" "w_node (startHeartbeat rt s w) = w_node w"
  "w_writers (stopHeartbeatLocked s w) = w_writers w" "w_writers (startHeartbeat rt s w) = w_writers w"
  by (simp_all add: stopHeartbeatLocked_def startHeartbeat_def)

abbreviation shut_queue :: "sendQueue \<Rightarrow> sendQueue" where
  "shut_queue q \<equiv> fst (close_queue q)"

lemma stopWriter_sel [simp]:
  "w_objs (stopWriterLocked s w) = w_objs w" "w_atts (stopWriterLocked s w) = w_atts w" "w_node (stopWriterLocked s w) = w_node w"
  "w_queues (stopWriterLocked s w) = (w_queues w)[o_out (w_objs w ! s) := shut_queue (w_queues w ! o_out (w_objs w ! s))]"
  "w_writers (stopWriterLocked s w) = w_writers w"
  by (simp_all add: stopWriterLocked_def Let_def split_beta)

lemma closeTransport_sel [simp]:
  "w_objs (closeTransport att r w) = w_objs w" "w_atts (closeTransport att r w) = w_atts w" "w_queues (closeTransport att r w) = w_queues w"
  "w_node (closeTransport att r w) = w_node w" "w_writers (closeTransport att r w) = w_writers w"
  by (simp_all add: closeTransport_def split: option.split)

lemma goWriter_sel [simp]:
  "w_objs (goWriter s a q w) = w_objs w" "w_atts (goWriter s a q w) = w_atts w" "w_queues (goWriter s a q w) = w_queues w"
  "w_node (goWriter s a q w) = w_node w" "w_writers (goWriter s a q w) = w_writers w @ [(s, a, q)]"
  by (simp_all add: goWriter_def)

lemma leaveAll_sel [simp]:
  "w_objs (leaveAll rt s chs w) = w_objs w" "w_atts (leaveAll rt s chs w) = w_atts w" "w_queues (leaveAll rt s chs w) = w_queues w"
  "w_node (leaveAll rt s chs w) = w_node w" "w_writers (leaveAll rt s chs w) = w_writers w"
  by (induction chs arbitrary: w) (simp_all add: Let_def)

abbreviation closed_obj :: "Session \<Rightarrow> Session" where
  "closed_obj x \<equiv> x\<lparr>o_state := SessionClosed, o_heartbeat := False, o_attachment := None\<rparr>"

lemma shutLocked_sel:
  assumes "s < length (w_objs w)"
  shows "w_objs (shutLocked w s) = (w_objs w)[s := closed_obj (w_objs w ! s)]" "w_atts (shutLocked w s) = w_atts w"
    "w_queues (shutLocked w s) = (w_queues w)[o_out (w_objs w ! s) := shut_queue (w_queues w ! o_out (w_objs w ! s))]"
    "w_writers (shutLocked w s) = w_writers w"
  using assms by (simp_all add: shutLocked_def)

text \<open>The shape of the objects after a close: nothing changed, or one object is closed and its queue is shut.\<close>

definition same_objects :: "('b, 'c) world \<Rightarrow> ('b, 'c) world \<Rightarrow> bool" where
  "same_objects w w' \<longleftrightarrow> w_objs w' = w_objs w \<and> w_atts w' = w_atts w \<and> w_queues w' = w_queues w \<and> w_writers w' = w_writers w"

definition closes_object :: "('b, 'c) world \<Rightarrow> sptr \<Rightarrow> ('b, 'c) world \<Rightarrow> bool" where
  "closes_object w s w' \<longleftrightarrow> w_objs w' = (w_objs w)[s := closed_obj (w_objs w ! s)] \<and> w_atts w' = w_atts w \<and>
     w_queues w' = (w_queues w)[o_out (w_objs w ! s) := shut_queue (w_queues w ! o_out (w_objs w ! s))] \<and> w_writers w' = w_writers w"

definition reopens_object :: "('b, 'c) world \<Rightarrow> sptr \<Rightarrow> aptr \<Rightarrow> bool \<Rightarrow> ('b, 'c) world \<Rightarrow> bool" where
  "reopens_object w s a hb w' \<longleftrightarrow>
     w_objs w' = (w_objs w)[s := (w_objs w ! s)\<lparr>o_state := SessionAttached, o_attachment := Some a, o_out := length (w_queues w), o_heartbeat := hb\<rparr>] \<and>
     w_atts w' = w_atts w \<and> w_writers w' = w_writers w @ [(s, a, length (w_queues w))] \<and>
     w_queues w' = (w_queues w)[o_out (w_objs w ! s) := shut_queue (w_queues w ! o_out (w_objs w ! s))] @ [newSendQueue]"

lemma closeOwn_shape:
  assumes "s < length (w_objs w)" "closeOwn rt order w s reason = goret w'"
  shows "if o_state (w_objs w ! s) = SessionClosed then w' = w else closes_object w s w'"
proof (cases "o_state (w_objs w ! s) = SessionClosed")
  case False
  obtain n where "w' = closeTransport (o_attachment (w_objs w ! s)) reason
      (let w1 = (leaveAll rt s (order (map fst (tracked (w_node w) s))) (shutLocked w s))\<lparr>w_node := n\<rparr>
       in if SessionID (rt_ident rt s) = [] then w1
          else case RemoveSessionIfMatches (rt_ident rt) (n_hub n) (SessionID (rt_ident rt s)) (Some s) of
            (h, matched) \<Rightarrow> w1\<lparr>w_node := n\<lparr>n_hub := h\<rparr>,
              w_deleted := (if matched then w_deleted w1 @ [SessionID (rt_ident rt s)] else w_deleted w1)\<rparr>)"
    using assms(2) False by (auto simp: closeOwn_def Let_def gobind_eq_goret)
  then show ?thesis using False shutLocked_sel [OF assms(1)] by (simp add: closes_object_def Let_def split_beta)
qed (use assms in \<open>simp add: closeOwn_def\<close>)

lemma fenceOwn_shape:
  assumes "s < length (w_objs w)" "fenceOwn rt order w s reason = goret (w', errs)"
  shows "if o_state (w_objs w ! s) = SessionClosed then w' = w
    else closes_object w s w' \<or> (\<exists>a. o_attachment (w_objs w ! s) = Some a \<and> reopens_object w s a (rt_heartbeat rt) w')"
proof (cases "o_state (w_objs w ! s) = SessionClosed")
  case False
  let ?w1 = "shutLocked w s"
  obtain n es rmd where r: "fenceRemovals rt s (order (map fst (tracked (w_node w) s))) (w_node ?w1) = goret (n, es, rmd)"
    using assms(2) False by (auto simp: fenceOwn_def Let_def gobind_eq_goret)
  show ?thesis
  proof (cases "es = []")
    case True
    then have "\<exists>m. w' = closeTransport (o_attachment (w_objs w ! s)) reason (?w1\<lparr>w_node := m\<rparr>)"
      using assms(2) False r by (auto simp: fenceOwn_def Let_def)
    then show ?thesis using False shutLocked_sel [OF assms(1)] by (auto simp: closes_object_def)
  next
    case errs: False
    then obtain m where m: "w' = (case o_attachment (w_objs w ! s) of
        Some a \<Rightarrow> fenceRestore rt s a (?w1\<lparr>w_node := m\<rparr>) | None \<Rightarrow> ?w1\<lparr>w_node := m\<rparr>)"
      using assms(2) False r by (auto simp: fenceOwn_def Let_def gobind_eq_goret)
    show ?thesis
    proof (cases "o_attachment (w_objs w ! s)")
      case None
      then show ?thesis using m False shutLocked_sel [OF assms(1)] by (simp add: closes_object_def)
    next
      case (Some a)
      then have "reopens_object w s a (rt_heartbeat rt) w'"
        using m assms(1) shutLocked_sel [OF assms(1)] by (simp add: reopens_object_def fenceRestore_def Let_def)
      then show ?thesis using Some False by auto
    qed
  qed
qed (use assms in \<open>simp add: fenceOwn_def\<close>)


section \<open>The invariant of the objects\<close>

definition obj_ok :: "Attachment list \<Rightarrow> sendQueue list \<Rightarrow> (sptr \<times> aptr \<times> qptr) list \<Rightarrow> sptr \<Rightarrow> Session \<Rightarrow> bool" where
  "obj_ok atts qs ws s x \<longleftrightarrow> o_out x < length qs \<and> o_loopAtt x < length atts \<and> at_Transport (atts ! o_loopAtt x) \<noteq> None \<and>
     (\<forall>a. o_attachment x = Some a \<longrightarrow> a < length atts \<and> at_Transport (atts ! a) \<noteq> None) \<and>
     (if o_delegate x \<noteq> None then o_state x = SessionAuthenticating \<and> o_attachment x = None
      else case o_state x of
        SessionAuthenticating \<Rightarrow> o_attachment x = Some (o_loopAtt x) \<and> \<not> q_closed (qs ! o_out x)
      | SessionAttached \<Rightarrow> (\<exists>a. o_attachment x = Some a \<and> (s, a, o_out x) \<in> set ws) \<and> \<not> q_closed (qs ! o_out x)
      | _ \<Rightarrow> o_attachment x = None \<and> q_closed (qs ! o_out x))"

abbreviation obj :: "('b, 'c) world \<Rightarrow> sptr \<Rightarrow> Session" where
  "obj w s \<equiv> w_objs w ! s"

abbreviation transport_at :: "('b, 'c) world \<Rightarrow> aptr \<Rightarrow> nat option" where
  "transport_at w a \<equiv> at_Transport (w_atts w ! a)"

text \<open>The transport a connection was created with.\<close>

abbreviation own_transport :: "('b, 'c) world \<Rightarrow> sptr \<Rightarrow> nat option" where
  "own_transport w c \<equiv> transport_at w (o_loopAtt (obj w c))"

definition world_inv :: "('b, 'c) world \<Rightarrow> bool" where
  "world_inv w \<longleftrightarrow> (\<forall>s < length (w_objs w). obj_ok (w_atts w) (w_queues w) (w_writers w) s (obj w s)) \<and>
     (\<forall>s < length (w_objs w). \<forall>s' < length (w_objs w). o_out (obj w s) = o_out (obj w s') \<longrightarrow> s = s') \<and>
     (\<forall>s < length (w_objs w). \<forall>s' < length (w_objs w). own_transport w s = own_transport w s' \<longrightarrow> s = s') \<and>
     (\<forall>s < length (w_objs w). \<forall>d. o_delegate (obj w s) = Some d \<longrightarrow>
        d < length (w_objs w) \<and> o_delegate (obj w d) = None \<and> o_state (obj w d) \<noteq> SessionAuthenticating) \<and>
     (\<forall>s < length (w_objs w). \<forall>a. o_attachment (obj w s) = Some a \<longrightarrow> a = o_loopAtt (obj w s) \<or>
        (\<exists>c < length (w_objs w). o_delegate (obj w c) = Some s \<and> transport_at w a = own_transport w c))"

lemma world_invD:
  assumes "world_inv w" "s < length (w_objs w)"
  shows "obj_ok (w_atts w) (w_queues w) (w_writers w) s (obj w s)"
    "s' < length (w_objs w) \<Longrightarrow> o_out (obj w s) = o_out (obj w s') \<Longrightarrow> s = s'"
    "s' < length (w_objs w) \<Longrightarrow> own_transport w s = own_transport w s' \<Longrightarrow> s = s'"
    "o_delegate (obj w s) = Some d \<Longrightarrow> d < length (w_objs w) \<and> o_delegate (obj w d) = None \<and> o_state (obj w d) \<noteq> SessionAuthenticating"
    "o_attachment (obj w s) = Some a \<Longrightarrow> a = o_loopAtt (obj w s) \<or>
        (\<exists>c < length (w_objs w). o_delegate (obj w c) = Some s \<and> transport_at w a = own_transport w c)"
  using assms unfolding world_inv_def by blast+

text \<open>Changing one object, while attachments, queues and writers only grow and the queues of other objects stay
  open or closed.\<close>

lemma obj_ok_grow:
  assumes "obj_ok atts qs ws s x" "length qs \<le> length qs'" "q_closed (qs' ! o_out x) = q_closed (qs ! o_out x)" "set ws \<subseteq> set ws'"
  shows "obj_ok (atts @ xs) qs' ws' s x"
  using assms subsetD [OF assms(4)] unfolding obj_ok_def by (auto simp: nth_append split: SessionState.splits)

lemma inv_update:
  assumes inv: "world_inv w" and s: "s < length (w_objs w)"
    and objs: "w_objs w' = (w_objs w)[s := y]" and atts: "w_atts w' = w_atts w @ xs"
    and qs: "length (w_queues w) \<le> length (w_queues w')"
      "\<And>t. t < length (w_objs w) \<Longrightarrow> t \<noteq> s \<Longrightarrow> q_closed (w_queues w' ! o_out (obj w t)) = q_closed (w_queues w ! o_out (obj w t))"
    and ws: "set (w_writers w) \<subseteq> set (w_writers w')"
    and ok: "obj_ok (w_atts w') (w_queues w') (w_writers w') s y"
    and kept: "o_loopAtt y = o_loopAtt (obj w s)" "o_delegate y = o_delegate (obj w s)"
      "o_out y = o_out (obj w s) \<or> o_out y \<ge> length (w_queues w)"
      "o_state (obj w s) \<noteq> SessionAuthenticating \<Longrightarrow> o_state y \<noteq> SessionAuthenticating"
    and serving: "\<And>a. o_attachment y = Some a \<Longrightarrow> a = o_loopAtt y \<or>
        (\<exists>c < length (w_objs w). o_delegate (obj w c) = Some s \<and> transport_at w' a = own_transport w c)"
  shows "world_inv w'"
proof -
  have o: "obj w' t = (if t = s then y else obj w t)" if "t < length (w_objs w)" for t
    using objs s that by (simp add: nth_list_update)
  have len: "length (w_objs w') = length (w_objs w)" using objs by simp
  have loop: "o_loopAtt (obj w' t) = o_loopAtt (obj w t)" if "t < length (w_objs w)" for t using o [OF that] kept by simp
  have deleg: "o_delegate (obj w' t) = o_delegate (obj w t)" if "t < length (w_objs w)" for t using o [OF that] kept by simp
  have old_att: "transport_at w' a = transport_at w a" if "a < length (w_atts w)" for a using atts that by (simp add: nth_append)
  have own: "own_transport w' t = own_transport w t" if "t < length (w_objs w)" for t
    using loop [OF that] world_invD(1) [OF inv that] old_att by (simp add: obj_ok_def)
  have oks: "obj_ok (w_atts w') (w_queues w') (w_writers w') t (obj w' t)" if t: "t < length (w_objs w)" for t
  proof (cases "t = s")
    case False
    then show ?thesis using o [OF t] atts obj_ok_grow [OF world_invD(1) [OF inv t] qs(1) qs(2) [OF t False] ws] by simp
  qed (use o [OF t] ok in simp)
  have outs: "t = t'" if t: "t < length (w_objs w)" "t' < length (w_objs w)" and eq: "o_out (obj w' t) = o_out (obj w' t')" for t t'
  proof -
    have "o_out (obj w t) < length (w_queues w)" "o_out (obj w t') < length (w_queues w)"
      using world_invD(1) [OF inv t(1)] world_invD(1) [OF inv t(2)] by (simp_all add: obj_ok_def)
    then show ?thesis using eq o t kept(3) world_invD(2) [OF inv t(1) t(2)] by (auto split: if_splits)
  qed
  show ?thesis unfolding world_inv_def len
  proof (intro conjI allI impI)
    fix t d assume t: "t < length (w_objs w)" and d: "o_delegate (obj w' t) = Some d"
    then have dd: "d < length (w_objs w)" "o_delegate (obj w d) = None" "o_state (obj w d) \<noteq> SessionAuthenticating"
      using world_invD(4) [OF inv t, of d] deleg [OF t] by auto
    then show "d < length (w_objs w)" "o_delegate (obj w' d) = None" "o_state (obj w' d) \<noteq> SessionAuthenticating"
      using deleg [OF dd(1)] o [OF dd(1)] kept(4) by auto
  next
    fix t a assume t: "t < length (w_objs w)" and a: "o_attachment (obj w' t) = Some a"
    show "a = o_loopAtt (obj w' t) \<or> (\<exists>c<length (w_objs w). o_delegate (obj w' c) = Some t \<and> transport_at w' a = own_transport w' c)"
    proof (cases "t = s")
      case True
      then show ?thesis using serving [of a] a o [OF t] deleg own by auto
    next
      case False
      then have "a < length (w_atts w)" using a o [OF t] world_invD(1) [OF inv t] by (simp add: obj_ok_def)
      then show ?thesis using False a o [OF t] world_invD(5) [OF inv t, of a] deleg own old_att by fastforce
    qed
  qed (use oks outs own world_invD(3) [OF inv] in auto)
qed


lemma shut_queue_closed [simp]: "q_closed (shut_queue q)"
  by (simp add: close_queue_def)

lemma dequeue_closed [simp]: "q_closed (fst (dequeue q)) = q_closed q"
  by (simp add: dequeue_def split: list.split)

lemma tryEnqueue_closed: "tryEnqueue q f = (q', e) \<Longrightarrow> q_closed q' = q_closed q"
  by (auto simp: tryEnqueue_def split: if_splits)

lemma out_other:
  assumes "world_inv w" "t < length (w_objs w)" "s < length (w_objs w)" "t \<noteq> s"
  shows "(qs[o_out (obj w s) := q]) ! o_out (obj w t) = qs ! o_out (obj w t)" "o_out (obj w t) < length (w_queues w)"
proof -
  have "o_out (obj w s) \<noteq> o_out (obj w t)" using world_invD(2) [OF assms(1,2,3)] assms(4) by auto
  then show "(qs[o_out (obj w s) := q]) ! o_out (obj w t) = qs ! o_out (obj w t)" by simp
  show "o_out (obj w t) < length (w_queues w)" using world_invD(1) [OF assms(1,2)] by (simp add: obj_ok_def)
qed

lemma inv_closes:
  assumes inv: "world_inv w" and s: "s < length (w_objs w)" and own: "o_delegate (obj w s) = None" and c: "closes_object w s w'"
  shows "world_inv w'"
proof (rule inv_update [OF inv s, where xs = "[]" and y = "closed_obj (obj w s)"])
  note ok = world_invD(1) [OF inv s]
  show "q_closed (w_queues w' ! o_out (obj w t)) = q_closed (w_queues w ! o_out (obj w t))" if "t < length (w_objs w)" "t \<noteq> s" for t
    using c by (simp add: closes_object_def out_other [OF inv that(1) s that(2)])
  show "obj_ok (w_atts w') (w_queues w') (w_writers w') s (closed_obj (obj w s))"
    using ok own c by (simp add: obj_ok_def closes_object_def)
qed (use c in \<open>simp_all add: closes_object_def\<close>)

lemma inv_reopens:
  assumes inv: "world_inv w" and s: "s < length (w_objs w)" and own: "o_delegate (obj w s) = None"
    and a: "o_attachment (obj w s) = Some a" and c: "reopens_object w s a hb w'"
  shows "world_inv w'"
proof (rule inv_update [OF inv s, where xs = "[]" and y = "(obj w s)\<lparr>o_state := SessionAttached, o_attachment := Some a,
    o_out := length (w_queues w), o_heartbeat := hb\<rparr>"])
  note ok = world_invD(1) [OF inv s]
  show "q_closed (w_queues w' ! o_out (obj w t)) = q_closed (w_queues w ! o_out (obj w t))" if "t < length (w_objs w)" "t \<noteq> s" for t
    using c by (simp add: reopens_object_def nth_append out_other [OF inv that(1) s that(2)])
  show "obj_ok (w_atts w') (w_queues w') (w_writers w') s ((obj w s)\<lparr>o_state := SessionAttached, o_attachment := Some a,
      o_out := length (w_queues w), o_heartbeat := hb\<rparr>)"
    using ok own c a by (simp add: obj_ok_def reopens_object_def newSendQueue_def nth_append)
  show "a' = o_loopAtt ((obj w s)\<lparr>o_state := SessionAttached, o_attachment := Some a, o_out := length (w_queues w), o_heartbeat := hb\<rparr>) \<or>
      (\<exists>c<length (w_objs w). o_delegate (obj w c) = Some s \<and> transport_at w' a' = own_transport w c)"
    if "o_attachment ((obj w s)\<lparr>o_state := SessionAttached, o_attachment := Some a, o_out := length (w_queues w), o_heartbeat := hb\<rparr>) = Some a'" for a'
    using that world_invD(5) [OF inv s a] c by (simp add: reopens_object_def)
qed (use c in \<open>auto simp: reopens_object_def\<close>)

lemma inv_queues:
  assumes "world_inv w" "w_objs w' = w_objs w" "w_atts w' = w_atts w" "w_writers w' = w_writers w"
    "length (w_queues w') = length (w_queues w)" "\<And>p. p < length (w_queues w) \<Longrightarrow> q_closed (w_queues w' ! p) = q_closed (w_queues w ! p)"
  shows "world_inv w'"
proof -
  have "obj_ok (w_atts w) (w_queues w') (w_writers w) s (obj w s)" if "s < length (w_objs w)" for s
  proof -
    note ok = world_invD(1) [OF assms(1) that]
    have out: "o_out (obj w s) < length (w_queues w)" using ok by (simp add: obj_ok_def)
    show ?thesis using obj_ok_grow [OF ok _ assms(6) [OF out], of "w_writers w" "[]"] assms(5) by simp
  qed
  then show ?thesis using assms(1) unfolding world_inv_def assms(2-4) by blast
qed

lemma closeRoute_canonical:
  assumes "world_inv w" "s < length (w_objs w)"
  shows "closeRoute (Suc (length (w_objs w))) w s = Some (canonical w s)" "canonical w s < length (w_objs w)"
    "o_delegate (obj w (canonical w s)) = None"
proof -
  show "canonical w s < length (w_objs w)" "o_delegate (obj w (canonical w s)) = None"
    using assms world_invD(4) [OF assms] by (auto simp: canonical_def split: option.split)
  then have "canonical w (canonical w s) = canonical w s" by (simp add: canonical_def)
  moreover obtain m where "length (w_objs w) = Suc m" using assms(2) by (cases "length (w_objs w)") auto
  ultimately show "closeRoute (Suc (length (w_objs w))) w s = Some (canonical w s)" by simp
qed

lemma session_Close_shape:
  assumes "world_inv w" "s < length (w_objs w)" "session_Close rt order w s reason = goret w'"
  shows "if o_state (obj w (canonical w s)) = SessionClosed then w' = w else closes_object w (canonical w s) w'"
proof -
  have "closeOwn rt order w (canonical w s) reason = goret w'"
    using assms(3) unfolding session_Close_def closeRoute_canonical(1) [OF assms(1,2)] by simp
  then show ?thesis by (rule closeOwn_shape [OF closeRoute_canonical(2) [OF assms(1,2)]])
qed

lemma session_Close_inv:
  assumes "world_inv w" "s < length (w_objs w)" "session_Close rt order w s reason = goret w'"
  shows "world_inv w'"
  using session_Close_shape [OF assms] inv_closes [OF assms(1) closeRoute_canonical(2,3) [OF assms(1,2)]] assms(1) by (auto split: if_splits)

lemma Fence_inv:
  assumes "world_inv w" "s < length (w_objs w)" "Fence rt order w s reason = goret (w', errs)"
  shows "world_inv w'"
proof -
  note r = closeRoute_canonical [OF assms(1,2)]
  have f: "fenceOwn rt order w (canonical w s) reason = goret (w', errs)" using assms(3) unfolding Fence_def r(1) by simp
  from fenceOwn_shape [OF r(2) f] show ?thesis
    using inv_closes [OF assms(1) r(2,3)] inv_reopens [OF assms(1) r(2,3)] assms(1) by (auto split: if_splits)
qed

lemma inv_attach_own:
  assumes inv: "world_inv w" and s: "s < length (w_objs w)" and fresh: "o_state (obj w s) = SessionAuthenticating" "o_delegate (obj w s) = None"
    and a: "Attach rt w s (o_attachment (obj w s)) probe = (w', e)"
  shows "world_inv w'"
proof -
  note ok = world_invD(1) [OF inv s]
  have att: "o_attachment (obj w s) = Some (o_loopAtt (obj w s))" using ok fresh by (simp add: obj_ok_def)
  show ?thesis
  proof (cases probe)
    case None
    let ?y = "(obj w s)\<lparr>o_state := SessionAttached, o_attachment := Some (o_loopAtt (obj w s)),
      o_protocol := at_Protocol (w_atts w ! o_loopAtt (obj w s)), o_heartbeat := rt_heartbeat rt\<rparr>"
    have shape: "w_objs w' = (w_objs w)[s := ?y]" "w_atts w' = w_atts w" "w_queues w' = w_queues w"
      "w_writers w' = w_writers w @ [(s, o_loopAtt (obj w s), o_out (obj w s))]"
      using a att None fresh ok s by (auto simp: Attach_def Let_def obj_ok_def)
    show ?thesis
    proof (rule inv_update [OF inv s shape(1), where xs = "[]"])
      show "obj_ok (w_atts w') (w_queues w') (w_writers w') s ?y"
        using ok fresh shape by (simp add: obj_ok_def)
    qed (use shape fresh in auto)
  next
    case (Some e')
    then have "w' = w" using a att by (auto simp: Attach_def split: if_splits)
    then show ?thesis using inv by simp
  qed
qed

lemma inv_demote:
  assumes inv: "world_inv w" and c: "c < length (w_objs w)" "o_state (obj w c) = SessionAuthenticating" "o_delegate (obj w c) = None"
    and k: "k < length (w_objs w)" "o_delegate (obj w k) = None" "o_state (obj w k) \<noteq> SessionAuthenticating"
    and w': "w_objs w' = (w_objs w)[c := (obj w c)\<lparr>o_delegate := Some k, o_attachment := None, o_heartbeat := False, o_pingDeadline := False\<rparr>]"
      "w_atts w' = w_atts w" "w_queues w' = w_queues w" "w_writers w' = w_writers w"
  shows "world_inv w'"
proof -
  have len: "length (w_objs w') = length (w_objs w)" using w'(1) by simp
  have o: "obj w' t = obj w t" if "t < length (w_objs w)" "t \<noteq> c" for t using w'(1) that by simp
  have oc: "o_state (obj w' c) = SessionAuthenticating" "o_delegate (obj w' c) = Some k" "o_attachment (obj w' c) = None"
    "o_out (obj w' c) = o_out (obj w c)" "o_loopAtt (obj w' c) = o_loopAtt (obj w c)"
    using w'(1) c by simp_all
  have same: "o_out (obj w' t) = o_out (obj w t)" "o_loopAtt (obj w' t) = o_loopAtt (obj w t)" if "t < length (w_objs w)" for t
    using oc o [OF that] by (cases "t = c"; simp)+
  have unused: "o_delegate (obj w t) \<noteq> Some c" if "t < length (w_objs w)" for t
    using world_invD(4) [OF inv that, of c] c(2) by auto
  have kc: "k \<noteq> c" using c k by auto
  show ?thesis unfolding world_inv_def len w'(2-4)
  proof (intro conjI allI impI)
    fix t assume t: "t < length (w_objs w)"
    show "obj_ok (w_atts w) (w_queues w) (w_writers w) t (obj w' t)"
    proof (cases "t = c")
      case True
      then show ?thesis using world_invD(1) [OF inv t] oc by (simp add: obj_ok_def)
    next
      case False
      then show ?thesis using world_invD(1) [OF inv t] o [OF t False] by simp
    qed
  next
    fix t d assume t: "t < length (w_objs w)" and d: "o_delegate (obj w' t) = Some d"
    have d': "d < length (w_objs w)" "o_delegate (obj w d) = None" "o_state (obj w d) \<noteq> SessionAuthenticating" "d \<noteq> c"
      using d oc k kc o [OF t] unused [OF t] world_invD(4) [OF inv t, of d] by (cases "t = c"; auto)+
    then show "d < length (w_objs w)" "o_delegate (obj w' d) = None" "o_state (obj w' d) \<noteq> SessionAuthenticating"
      using o [of d] by auto
  next
    fix t a assume t: "t < length (w_objs w)" and a: "o_attachment (obj w' t) = Some a"
    then have tc: "t \<noteq> c" using oc by auto
    then have "a = o_loopAtt (obj w t) \<or> (\<exists>d < length (w_objs w). o_delegate (obj w d) = Some t \<and> transport_at w a = own_transport w d)"
      using world_invD(5) [OF inv t, of a] a o [OF t] by simp
    then show "a = o_loopAtt (obj w' t) \<or>
        (\<exists>d<length (w_objs w). o_delegate (obj w' d) = Some t \<and> transport_at w a = at_Transport (w_atts w ! o_loopAtt (obj w' d)))"
    proof (elim disjE exE conjE)
      fix d assume d: "d < length (w_objs w)" "o_delegate (obj w d) = Some t" "transport_at w a = own_transport w d"
      then have "d \<noteq> c" using c by auto
      then show ?thesis using d o [of d] by (intro disjI2 exI [of _ d]) simp
    qed (use o [OF t tc] in simp)
  next
    fix t t' assume "t < length (w_objs w)" "t' < length (w_objs w)" "o_out (obj w' t) = o_out (obj w' t')"
    then show "t = t'" using world_invD(2) [OF inv] same by simp
  next
    fix t t' assume "t < length (w_objs w)" "t' < length (w_objs w)"
      "at_Transport (w_atts w ! o_loopAtt (obj w' t)) = at_Transport (w_atts w ! o_loopAtt (obj w' t'))"
    then show "t = t'" using world_invD(3) [OF inv] same by simp
  qed
qed


lemma inv_grow_atts:
  assumes "world_inv w"
  shows "world_inv (w\<lparr>w_atts := w_atts w @ xs\<rparr>)"
proof (cases "w_objs w = []")
  case True
  then show ?thesis by (simp add: world_inv_def)
next
  case False
  then have s: "0 < length (w_objs w)" by simp
  note ok = world_invD(1) [OF assms s]
  show ?thesis
  proof (rule inv_update [OF assms s, where xs = xs and y = "obj w 0"])
    show "obj_ok (w_atts (w\<lparr>w_atts := w_atts w @ xs\<rparr>)) (w_queues (w\<lparr>w_atts := w_atts w @ xs\<rparr>)) (w_writers (w\<lparr>w_atts := w_atts w @ xs\<rparr>)) 0 (obj w 0)"
      using obj_ok_grow [OF ok] by simp
    show "a = o_loopAtt (obj w 0) \<or> (\<exists>c<length (w_objs w). o_delegate (obj w c) = Some 0 \<and>
        transport_at (w\<lparr>w_atts := w_atts w @ xs\<rparr>) a = own_transport w c)" if "o_attachment (obj w 0) = Some a" for a
      using world_invD(5) [OF assms s that] ok that by (auto simp: obj_ok_def nth_append)
  qed simp_all
qed

lemma Detach_shape:
  assumes "k < length (w_objs w)" "o_state (obj w k) = SessionAttached"
  shows "w_objs (Detach w k r) = (w_objs w)[k := (obj w k)\<lparr>o_state := SessionDetached, o_heartbeat := False, o_attachment := None\<rparr>]"
    "w_atts (Detach w k r) = w_atts w" "w_writers (Detach w k r) = w_writers w"
    "w_queues (Detach w k r) = (w_queues w)[o_out (obj w k) := shut_queue (w_queues w ! o_out (obj w k))]"
  using assms by (simp_all add: Detach_def Let_def)

lemma Detach_inv:
  assumes inv: "world_inv w" and k: "k < length (w_objs w)" "o_delegate (obj w k) = None"
  shows "world_inv (Detach w k r)"
proof (cases "o_state (obj w k) = SessionAttached")
  case True
  note d = Detach_shape [OF k(1) True]
  show ?thesis
  proof (rule inv_update [OF inv k(1) d(1), where xs = "[]"])
    show "q_closed (w_queues (Detach w k r) ! o_out (obj w t)) = q_closed (w_queues w ! o_out (obj w t))" if "t < length (w_objs w)" "t \<noteq> k" for t
      using d(4) by (simp add: out_other [OF inv that(1) k(1) that(2)])
    show "obj_ok (w_atts (Detach w k r)) (w_queues (Detach w k r)) (w_writers (Detach w k r)) k
        ((obj w k)\<lparr>o_state := SessionDetached, o_heartbeat := False, o_attachment := None\<rparr>)"
      using world_invD(1) [OF inv k(1)] k(2) d by (simp add: obj_ok_def)
  qed (use d in simp_all)
qed (use inv in \<open>simp add: Detach_def\<close>)

text \<open>A takeover that nothing disturbs: it fails and leaves the resumed session closed, or the resumed session is
  attached to the transport of the new connection, which becomes its shell.\<close>

definition undisturbed :: "nat \<Rightarrow> ('b, 'c) world \<Rightarrow> ('b, 'c) world" where
  "undisturbed k w = w"

lemma takeover_inv:
  assumes inv: "world_inv w"
    and c: "c < length (w_objs w)" "o_state (obj w c) = SessionAuthenticating" "o_delegate (obj w c) = None"
    and k: "k < length (w_objs w)" "o_delegate (obj w k) = None" "o_state (obj w k) \<noteq> SessionAuthenticating"
    and run: "takeoverBy rt order undisturbed w c k probe = goret (w', e)"
  shows "world_inv w' \<and> length (w_objs w') = length (w_objs w) \<and>
    (if e = None then o_state (obj w' k) = SessionAttached \<and> o_delegate (obj w' c) = Some k \<and>
       (\<exists>a. o_attachment (obj w' k) = Some a \<and> transport_at w' a = own_transport w' c)
     else o_state (obj w' k) = SessionClosed)"
proof -
  have kc: "k \<noteq> c" using c k by auto
  let ?w1 = "Detach w k noDisconnect"
  have inv1: "world_inv ?w1" by (rule Detach_inv [OF inv k(1,2)])
  have objs1: "length (w_objs ?w1) = length (w_objs w)" "obj ?w1 c = obj w c" "o_delegate (obj ?w1 k) = None"
    "o_state (obj ?w1 k) \<in> {SessionDetached, SessionClosed}" "o_loopAtt (obj ?w1 k) = o_loopAtt (obj w k)"
    using k c kc by (cases "o_state (obj w k)"; simp add: Detach_def Let_def)+
  have att1: "o_attachment (obj ?w1 c) = Some (o_loopAtt (obj w c))"
    using world_invD(1) [OF inv c(1)] c objs1(2) by (simp add: obj_ok_def)
  have t1: "transport_at ?w1 (o_loopAtt (obj w c)) \<noteq> None" "o_loopAtt (obj w c) < length (w_atts ?w1)"
    using world_invD(1) [OF inv1, of c] objs1 c by (simp_all add: obj_ok_def)
  define w2 where "w2 = ?w1\<lparr>w_atts := w_atts ?w1 @ [handoffAttachment (w_atts ?w1 ! o_loopAtt (obj w c))]\<rparr>"
  have inv2: "world_inv w2" unfolding w2_def by (rule inv_grow_atts [OF inv1])
  have objs2: "w_objs w2 = w_objs ?w1" "w_queues w2 = w_queues ?w1" "w_writers w2 = w_writers ?w1"
    "w_atts w2 = w_atts ?w1 @ [handoffAttachment (w_atts ?w1 ! o_loopAtt (obj w c))]" by (simp_all add: w2_def)
  let ?h = "length (w_atts ?w1)"
  have th: "transport_at w2 ?h = transport_at ?w1 (o_loopAtt (obj w c))" by (simp add: objs2 handoffAttachment_def)
  obtain w3 e3 where a3: "Attach rt w2 k (Some ?h) probe = (w3, e3)" by fastforce
  show ?thesis
  proof (cases e3)
    case (Some x)
    then have "w3 = w2" using a3 th t1 by (auto simp: Attach_def Let_def split: if_splits option.splits)
    then have cl: "session_Close rt order w2 k DisconnectInternal = goret w'" "e = Some x"
      using run a3 Some att1 by (auto simp: takeoverBy_def undisturbed_def w2_def Let_def gobind_eq_goret)
    have k2: "k < length (w_objs w2)" "canonical w2 k = k" using objs1 objs2 k by (simp_all add: canonical_def)
    show ?thesis using session_Close_inv [OF inv2 k2(1) cl(1)] session_Close_shape [OF inv2 k2(1) cl(1)] k2 objs1(1) objs2(1) cl(2)
      by (auto simp: closes_object_def split: if_splits)
  next
    case None
    have det: "o_state (obj w2 k) = SessionDetached"
      using None a3 th t1 objs1(4) objs2(1) by (auto simp: Attach_def Let_def split: if_splits option.splits)
    have probe: "probe = None" using None a3 th t1 by (auto simp: Attach_def split: option.splits)
    let ?y = "(obj w2 k)\<lparr>o_state := SessionAttached, o_attachment := Some ?h, o_protocol := at_Protocol (w_atts w2 ! ?h),
      o_out := length (w_queues w2), o_heartbeat := rt_heartbeat rt\<rparr>"
    let ?z = "(obj w2 c)\<lparr>o_delegate := Some k, o_attachment := None, o_heartbeat := False, o_pingDeadline := False\<rparr>"
    have len2: "length (w_objs w2) = length (w_objs w)" using objs1(1) objs2(1) by simp
    have s3: "w_objs w3 = (w_objs w2)[k := ?y]" "w_atts w3 = w_atts w2" "w_queues w3 = w_queues w2 @ [newSendQueue]"
      "w_writers w3 = w_writers w2 @ [(k, ?h, length (w_queues w2))]"
      using a3 None det probe th t1 k(1) len2 by (auto simp: Attach_def Let_def)
    have w': "w' = upd_obj c (\<lambda>x. x\<lparr>o_delegate := Some k, o_attachment := None, o_heartbeat := False, o_pingDeadline := False\<rparr>) w3"
      and e: "e = None"
      using run a3 None att1 by (auto simp: takeoverBy_def undisturbed_def w2_def Let_def)
    define wd where "wd = w2\<lparr>w_objs := (w_objs w2)[c := ?z]\<rparr>"
    have invd: "world_inv wd"
      by (rule inv_demote [OF inv2, of c k]) (use c k objs1 objs2 len2 det in \<open>simp_all add: wd_def\<close>)
    have ks: "k < length (w_objs wd)" "obj wd k = obj w2 k" "obj wd c = ?z" using k c len2 kc by (simp_all add: wd_def)
    have shape: "w_objs w' = (w_objs wd)[k := ?y]" "w_atts w' = w_atts wd" "w_queues w' = w_queues wd @ [newSendQueue]"
      "w_writers w' = w_writers wd @ [(k, ?h, length (w_queues wd))]"
      using w' s3 kc by (simp_all add: wd_def list_update_swap)
    have "world_inv w'"
    proof (rule inv_update [OF invd ks(1) shape(1), where xs = "[]"])
      show "q_closed (w_queues w' ! o_out (obj wd t)) = q_closed (w_queues wd ! o_out (obj wd t))" if "t < length (w_objs wd)" "t \<noteq> k" for t
        using shape(3) out_other(2) [OF invd that(1) ks(1) that(2)] by (simp add: nth_append)
      show "obj_ok (w_atts w') (w_queues w') (w_writers w') k ?y"
      proof -
        have "o_loopAtt (obj w2 k) < length (w_atts wd)" "transport_at wd (o_loopAtt (obj w2 k)) \<noteq> None"
          using world_invD(1) [OF invd ks(1)] unfolding ks(2) by (simp_all add: obj_ok_def)
        moreover have "?h < length (w_atts wd)" "transport_at wd ?h \<noteq> None" "o_delegate (obj w2 k) = None" "w_queues wd = w_queues w2"
          using th t1 objs1(3) objs2 by (simp_all add: wd_def)
        ultimately show ?thesis unfolding shape by (simp add: obj_ok_def newSendQueue_def)
      qed
      show "a = o_loopAtt ?y \<or> (\<exists>d<length (w_objs wd). o_delegate (obj wd d) = Some k \<and> transport_at w' a = own_transport wd d)"
        if "o_attachment ?y = Some a" for a
        using that ks c(1) len2 shape(2) th objs1(2) objs2 t1(2)
        by (intro disjI2 exI [of _ c]) (simp add: wd_def nth_append)
    qed (use shape ks in \<open>auto simp: wd_def\<close>)
    moreover have "o_state (obj w' k) = SessionAttached" "o_attachment (obj w' k) = Some ?h" "o_delegate (obj w' c) = Some k"
      "o_loopAtt (obj w' c) = o_loopAtt (obj w c)" "length (w_objs w') = length (w_objs w)"
      using shape(1) ks kc k c len2 objs1(2) objs2(1) by (simp_all add: wd_def)
    ultimately show ?thesis using e th t1(2) shape(2) objs2(4) by (simp add: wd_def nth_append)
  qed
qed


lemma inv_new:
  assumes inv: "world_inv w" and fresh: "\<And>a. a < length (w_atts w) \<Longrightarrow> transport_at w a \<noteq> Some t"
    and w': "w_objs w' = w_objs w @ [y]" "w_atts w' = w_atts w @ [\<lparr>at_Transport = Some t, at_Marshaler = m, at_Protocol = p\<rparr>]"
    "w_queues w' = w_queues w @ [newSendQueue]" "w_writers w' = w_writers w"
    and y: "o_state y = SessionAuthenticating" "o_attachment y = Some (length (w_atts w))" "o_out y = length (w_queues w)"
      "o_delegate y = None" "o_loopAtt y = length (w_atts w)"
  shows "world_inv w'"
proof -
  let ?s = "length (w_objs w)"
  have len: "length (w_objs w') = Suc ?s" by (simp add: w')
  have old: "obj w' u = obj w u" if "u < ?s" for u using that by (simp add: w' nth_append)
  have new: "obj w' ?s = y" by (simp add: w')
  have cases_u: "u < ?s \<or> u = ?s" if "u < Suc ?s" for u using that by linarith
  have ats: "transport_at w' a = transport_at w a" if "a < length (w_atts w)" for a using that by (simp add: w' nth_append)
  have out: "o_out (obj w u) < length (w_queues w)" "o_loopAtt (obj w u) < length (w_atts w)" if "u < ?s" for u
    using world_invD(1) [OF inv that] by (simp_all add: obj_ok_def)
  have own: "own_transport w' u = own_transport w u" if "u < ?s" for u using old [OF that] ats [OF out(2) [OF that]] by simp
  have own_new: "own_transport w' ?s = Some t" unfolding new y(5) by (simp add: w')
  have ne: "own_transport w' x \<noteq> Some t" if "x < ?s" for x using own [OF that] fresh [OF out(2) [OF that]] by simp
  have oout: "o_out (obj w' u) = (if u < ?s then o_out (obj w u) else length (w_queues w))" if "u < Suc ?s" for u
    using cases_u [OF that] old [of u] new y(3) by auto
  show ?thesis unfolding world_inv_def len
  proof (intro conjI allI impI)
    fix u assume "u < Suc ?s"
    then consider "u < ?s" | "u = ?s" using cases_u by blast
    then show "obj_ok (w_atts w') (w_queues w') (w_writers w') u (obj w' u)"
    proof cases
      case 1
      then have "obj_ok (w_atts w @ [\<lparr>at_Transport = Some t, at_Marshaler = m, at_Protocol = p\<rparr>]) (w_queues w @ [newSendQueue]) (w_writers w) u (obj w u)"
        using out(1) by (intro obj_ok_grow [OF world_invD(1) [OF inv]]) (simp_all add: nth_append)
      then show ?thesis using old [OF 1] w' by simp
    next
      case 2
      show ?thesis unfolding 2 new w'(2-4) using y by (simp add: obj_ok_def newSendQueue_def nth_append)
    qed
  next
    fix u v assume uv: "u < Suc ?s" "v < Suc ?s" "o_out (obj w' u) = o_out (obj w' v)"
    show "u = v"
      using uv oout [OF uv(1)] oout [OF uv(2)] out(1) [of u] out(1) [of v] world_invD(2) [OF inv, of u v] cases_u [OF uv(1)] cases_u [OF uv(2)]
      by (auto split: if_splits)
  next
    fix u v assume uv: "u < Suc ?s" "v < Suc ?s" "own_transport w' u = own_transport w' v"
    from cases_u [OF uv(1)] cases_u [OF uv(2)] show "u = v"
    proof (elim disjE)
      assume "u < ?s" "v < ?s"
      then show ?thesis using uv(3) own world_invD(3) [OF inv, of u v] by simp
    qed (use uv(3) own_new ne [of u] ne [of v] in auto)
  next
    fix u d assume u: "u < Suc ?s" and d: "o_delegate (obj w' u) = Some d"
    then have "u < ?s" using new y(4) cases_u [OF u] by auto
    then have "d < ?s \<and> o_delegate (obj w d) = None \<and> o_state (obj w d) \<noteq> SessionAuthenticating"
      using world_invD(4) [OF inv, of u d] d old by simp
    then show "d < Suc ?s" "o_delegate (obj w' d) = None" "o_state (obj w' d) \<noteq> SessionAuthenticating" using old by auto
  next
    fix u a assume u: "u < Suc ?s" and a: "o_attachment (obj w' u) = Some a"
    show "a = o_loopAtt (obj w' u) \<or> (\<exists>c<Suc ?s. o_delegate (obj w' c) = Some u \<and> transport_at w' a = own_transport w' c)"
    proof (cases "u = ?s")
      case True
      then show ?thesis using a new y by simp
    next
      case False
      then have us: "u < ?s" "o_attachment (obj w u) = Some a" using u a old by auto
      then have "a < length (w_atts w)" using world_invD(1) [OF inv us(1)] by (simp add: obj_ok_def)
      then show ?thesis using world_invD(5) [OF inv us] old [OF us(1)] old own ats [of a]
        by (metis less_SucI)
    qed
  qed
qed

lemma NewClient_inv:
  assumes "world_inv w" "\<And>a. a < length (w_atts w) \<Longrightarrow> transport_at w a \<noteq> Some t"
  shows "world_inv (fst (NewClient rt w (Some t) m p))"
  by (rule inv_new [OF assms]) (auto simp: NewClient_def Let_def)

lemma closed_update: "q_closed q = q_closed (qs ! p) \<Longrightarrow> q_closed (qs[p := q] ! r) = q_closed (qs ! r)"
  by (cases "p < length qs"; cases "p = r") (simp_all add: list_update_beyond)

lemma enqueueBytes_inv:
  assumes "world_inv w" "s < length (w_objs w)" "enqueueBytes rt order w s chan bs control m = goret (w', out)"
  shows "world_inv w'"
proof -
  let ?p = "o_out (obj w s)"
  let ?f = "\<lparr>f_done = chan, f_bytes = bs, f_control = control\<rparr>"
  obtain q e where q: "tryEnqueue (w_queues w ! ?p) ?f = (q, e)" by fastforce
  have "w' = w \<or> session_Close rt order w s DisconnectSlowConsumer = goret w' \<or> w' = w\<lparr>w_queues := (w_queues w)[?p := q]\<rparr>"
    using assms(3) q by (auto simp: enqueueBytes_def Let_def gobind_eq_goret split: if_splits option.splits)
  moreover have "world_inv (w\<lparr>w_queues := (w_queues w)[?p := q]\<rparr>)"
    by (rule inv_queues [OF assms(1)]) (use tryEnqueue_closed [OF q] closed_update in \<open>auto\<close>)
  ultimately show ?thesis using assms(1) session_Close_inv [OF assms(1,2)] by auto
qed


section \<open>Who may close what\<close>

text \<open>The histories of the session objects of a node, each operation undisturbed. Connections come with a transport of
  their own, authenticate once, and either bind their own attachment or take over a session of the hub; sessions
  send, write, close and are fenced; the node changes at any time.\<close>

inductive session_run :: "('b, 'e, 'c) sessionRuntime \<Rightarrow> ('b, 'c) world \<Rightarrow> bool" for rt where
  start: "w_objs w = [] \<Longrightarrow> w_atts w = [] \<Longrightarrow> session_run rt w"
| accept: "session_run rt w \<Longrightarrow> (\<And>a. a < length (w_atts w) \<Longrightarrow> transport_at w a \<noteq> Some t) \<Longrightarrow>
    session_run rt (fst (NewClient rt w (Some t) m p))"
| attach: "session_run rt w \<Longrightarrow> c < length (w_objs w) \<Longrightarrow> o_state (obj w c) = SessionAuthenticating \<Longrightarrow> o_delegate (obj w c) = None \<Longrightarrow>
    Attach rt w c (o_attachment (obj w c)) probe = (w', e) \<Longrightarrow> session_run rt w'"
| resume: "session_run rt w \<Longrightarrow> c < length (w_objs w) \<Longrightarrow> o_state (obj w c) = SessionAuthenticating \<Longrightarrow> o_delegate (obj w c) = None \<Longrightarrow>
    k < length (w_objs w) \<Longrightarrow> o_delegate (obj w k) = None \<Longrightarrow> o_state (obj w k) \<noteq> SessionAuthenticating \<Longrightarrow>
    takeoverBy rt order undisturbed w c k probe = goret (w', e') \<Longrightarrow> session_run rt w'"
| close: "session_run rt w \<Longrightarrow> c < length (w_objs w) \<Longrightarrow> session_Close rt order w c reason = goret w' \<Longrightarrow> session_run rt w'"
| fence: "session_run rt w \<Longrightarrow> c < length (w_objs w) \<Longrightarrow> Fence rt order w c reason = goret (w', errs) \<Longrightarrow> session_run rt w'"
| loop: "session_run rt w \<Longrightarrow> c < length (w_objs w) \<Longrightarrow> closeFromLoop rt order id w c reason = goret w' \<Longrightarrow> session_run rt w'"
| exits: "session_run rt w \<Longrightarrow> c < length (w_objs w) \<Longrightarrow>
    closeFromAttachment rt order id w c (o_loopAtt (obj w c)) = goret w' \<Longrightarrow> session_run rt w'"
| writes: "session_run rt w \<Longrightarrow> c < length (w_objs w) \<Longrightarrow> handleWriteError rt order id w c a err = goret w' \<Longrightarrow> session_run rt w'"
| send: "session_run rt w \<Longrightarrow> c < length (w_objs w) \<Longrightarrow>
    enqueueBytes rt order w c chan bs control m = goret (w', out) \<Longrightarrow> session_run rt w'"
| takes: "session_run rt w \<Longrightarrow> session_run rt (w\<lparr>w_queues := (w_queues w)[p := fst (dequeue (w_queues w ! p))]\<rparr>)"
| node: "session_run rt w \<Longrightarrow> session_run rt (w\<lparr>w_node := n\<rparr>)"

text \<open>Connection \<open>c\<close> serves session \<open>k\<close>: the current attachment of \<open>k\<close> rides the transport of \<open>c\<close>.\<close>

definition serves :: "('b, 'c) world \<Rightarrow> sptr \<Rightarrow> sptr \<Rightarrow> bool" where
  "serves w c k = (case o_attachment (obj w k) of Some a \<Rightarrow> transport_at w a = own_transport w c | None \<Rightarrow> False)"

lemma serves_ex: "serves w c k \<longleftrightarrow> (\<exists>a. o_attachment (obj w k) = Some a \<and> transport_at w a = own_transport w c)"
  by (simp add: serves_def split: option.split)

lemma serves_iff:
  assumes inv: "world_inv w" and c: "c < length (w_objs w)" and k: "k < length (w_objs w)"
  shows "serves w c k \<longleftrightarrow> (case o_delegate (obj w c) of
      None \<Rightarrow> k = c \<and> o_attachment (obj w c) = Some (o_loopAtt (obj w c))
    | Some d \<Rightarrow> k = d \<and> (\<exists>a. o_attachment (obj w d) = Some a \<and> transport_at w a = own_transport w c))"
proof
  assume "serves w c k"
  then obtain a where a: "o_attachment (obj w k) = Some a" "transport_at w a = own_transport w c" by (auto simp: serves_ex)
  from world_invD(5) [OF inv k a(1)]
  show "case o_delegate (obj w c) of None \<Rightarrow> k = c \<and> o_attachment (obj w c) = Some (o_loopAtt (obj w c))
    | Some d \<Rightarrow> k = d \<and> (\<exists>a. o_attachment (obj w d) = Some a \<and> transport_at w a = own_transport w c)"
  proof (elim disjE exE conjE)
    assume "a = o_loopAtt (obj w k)"
    then have "k = c" using world_invD(3) [OF inv k c] a(2) by blast
    then show ?thesis using a \<open>a = o_loopAtt (obj w k)\<close> world_invD(1) [OF inv c] by (auto simp: obj_ok_def split: option.split)
  next
    fix d assume d: "d < length (w_objs w)" "o_delegate (obj w d) = Some k" "transport_at w a = own_transport w d"
    have "d = c" by (rule world_invD(3) [OF inv d(1) c trans [OF d(3) [symmetric] a(2)]])
    then show ?thesis using d(2) a by auto
  qed
qed (auto simp: serves_ex split: option.splits)

lemma serves_unique:
  assumes inv: "world_inv w" and k: "k < length (w_objs w)" and a: "o_attachment (obj w k) = Some a"
  shows "\<exists>!c. c < length (w_objs w) \<and> serves w c k"
proof -
  have "\<exists>c < length (w_objs w). transport_at w a = own_transport w c"
    using world_invD(5) [OF inv k a] k by auto
  then obtain c where c: "c < length (w_objs w)" "transport_at w a = own_transport w c" by blast
  show ?thesis
  proof (rule ex1I [of _ c])
    show "c < length (w_objs w) \<and> serves w c k" using c a by (auto simp: serves_ex)
    show "c' = c" if "c' < length (w_objs w) \<and> serves w c' k" for c'
      using that c a world_invD(3) [OF inv, of c' c] by (auto simp: serves_ex)
  qed
qed

text \<open>The session a connection would close.\<close>

definition closes_as :: "('b, 'e, 'c) sessionRuntime \<Rightarrow> (string list \<Rightarrow> string list) \<Rightarrow> ('b, 'c) world \<Rightarrow> sptr \<Rightarrow> Disconnect \<Rightarrow> ('b, 'c) world \<Rightarrow> bool" where
  "closes_as rt order w c reason w' \<longleftrightarrow>
     (if \<exists>k < length (w_objs w). serves w c k
      then \<exists>k < length (w_objs w). serves w c k \<and> closes_object w k w' else w' = w)"

lemma close_by:
  assumes inv: "world_inv w" and c: "c < length (w_objs w)"
    and run: "closeFromLoop rt order id w c reason = goret w' \<or> closeFromAttachment rt order id w c (o_loopAtt (obj w c)) = goret w'"
  shows "closes_as rt order w c reason w'"
proof (cases "o_delegate (obj w c)")
  case None
  show ?thesis
  proof (cases "o_attachment (obj w c) = Some (o_loopAtt (obj w c))")
    case True
    have "o_state (obj w c) \<noteq> SessionClosed" "canonical w c = c"
      using world_invD(1) [OF inv c] None True by (auto simp: obj_ok_def canonical_def)
    then have "closes_object w c w'"
      using run None True session_Close_shape [OF inv c] by (auto simp: closeFromLoop_def closeFromAttachment_def)
    then show ?thesis using serves_iff [OF inv c] c None True by (auto simp: closes_as_def)
  next
    case False
    then have "w' = w" using run None by (auto simp: closeFromLoop_def closeFromAttachment_def)
    then show ?thesis using serves_iff [OF inv c] None False by (auto simp: closes_as_def)
  qed
next
  case (Some d)
  note dd = world_invD(4) [OF inv c Some]
  show ?thesis
  proof (cases "serves w c d")
    case True
    then obtain a where a: "o_attachment (obj w d) = Some a" "transport_at w a = own_transport w c" by (auto simp: serves_ex)
    have "o_state (obj w d) \<noteq> SessionClosed" "canonical w d = d"
      using world_invD(1) [OF inv, of d] dd a by (auto simp: obj_ok_def canonical_def)
    then have "closes_object w d w'"
      using run Some a session_Close_shape [OF inv, of d] dd by (auto simp: closeFromLoop_def closeFromAttachment_def closeIfServingHandoff_def)
    then show ?thesis using True dd by (auto simp: closes_as_def)
  next
    case False
    then have "w' = w" using run Some
      by (auto simp: closeFromLoop_def closeFromAttachment_def closeIfServingHandoff_def serves_ex split: option.splits if_splits)
    moreover have "\<not> serves w c k" if "k < length (w_objs w)" for k using serves_iff [OF inv c that] Some False by (auto simp: serves_ex)
    ultimately show ?thesis by (auto simp: closes_as_def)
  qed
qed


lemma closes_as_inv:
  assumes inv: "world_inv w" and "closes_as rt order w c reason w'"
  shows "world_inv w'"
proof (cases "\<exists>k < length (w_objs w). serves w c k")
  case True
  then obtain k where k: "k < length (w_objs w)" "serves w c k" "closes_object w k w'" using assms(2) by (auto simp: closes_as_def)
  then have "o_delegate (obj w k) = None" using world_invD(1) [OF inv k(1)] by (auto simp: serves_ex obj_ok_def split: if_splits)
  then show ?thesis using inv_closes [OF inv k(1) _ k(3)] by simp
qed (use assms in \<open>simp add: closes_as_def\<close>)

lemma handleWriteError_inv:
  assumes inv: "world_inv w" and c: "c < length (w_objs w)" and run: "handleWriteError rt order id w c a err = goret w'"
  shows "world_inv w'"
proof -
  let ?d = "if isPeerClosedError err then DisconnectConnectionClosed else DisconnectSlowConsumer"
  have "handleWriteError rt order id w c a err = (if o_attachment (obj w c) \<noteq> Some a then goret w
      else if errorsIs err ErrSessionFenced then gobind (Fence rt order w c DisconnectStale) (\<lambda>(w, _). goret w)
      else session_Close rt order w c ?d)"
    by (simp add: handleWriteError_def)
  then consider "w' = w" | "gobind (Fence rt order w c DisconnectStale) (\<lambda>(w, _). goret w) = goret w'" | "session_Close rt order w c ?d = goret w'"
    using run by (metis goret_eq_iff)
  then show ?thesis
  proof cases
    case 2
    then obtain errs where "Fence rt order w c DisconnectStale = goret (w', errs)" unfolding gobind_eq_goret by auto
    then show ?thesis by (rule Fence_inv [OF inv c])
  next
    case 3
    then show ?thesis by (rule session_Close_inv [OF inv c])
  qed (use inv in simp)
qed

lemma session_run_inv: "session_run rt w \<Longrightarrow> world_inv w"
proof (induction rule: session_run.induct)
  case (start w)
  then show ?case by (simp add: world_inv_def)
next
  case (accept w t m p)
  then show ?case by (intro NewClient_inv) auto
next
  case (attach w c probe w' e)
  then show ?case by (intro inv_attach_own [of w c rt probe w' e]) auto
next
  case (resume w c k order probe w' e)
  then show ?case using takeover_inv [of w c k rt order probe w' e] by blast
next
  case (close w c order reason w')
  then show ?case using session_Close_inv by blast
next
  case (fence w c order reason w' errs)
  then show ?case using Fence_inv by blast
next
  case (loop w c order reason w')
  then show ?case using closes_as_inv close_by by blast
next
  case (exits w c order w')
  then show ?case using closes_as_inv close_by by blast
next
  case (writes w c order a err w')
  show ?case by (rule handleWriteError_inv [OF writes.IH writes(2,3)])
next
  case (send w c order chan bs control m w' out)
  then show ?case using enqueueBytes_inv by blast
next
  case (takes w p)
  then show ?case by (intro inv_queues [OF takes.IH]) (simp_all add: closed_update)
next
  case (node w n)
  then show ?case by (intro inv_queues [OF node.IH]) simp_all
qed



section \<open>Examples\<close>

lemma go_case: "(case m of Some (Inr x) \<Rightarrow> P x | _ \<Rightarrow> False) \<longleftrightarrow> (\<exists>x. m = goret x \<and> P x)"
  by (auto simp: goret_def split: option.splits sum.splits)

definition numbered_ident :: "sptr \<Rightarrow> sessIdent" where
  "numbered_ident p = \<lparr>SessionID = CHR ''s'' # replicate p CHR ''0'', NamespaceOfSession = ''acme'', UserID = ''alice''\<rparr>"

definition exampleRuntime :: "(memoryBroker, interest_error, unit) sessionRuntime" where
  "exampleRuntime = \<lparr>rt_ident = numbered_ident, rt_broker = memBrokerOps, rt_cluster = unitCluster, rt_heartbeat = True,
     rt_maxMessageSize = 0\<rparr>"

text \<open>Session 0 is attached and registered; connections 1 and 2 are still authenticating.\<close>

definition connected :: "(memoryBroker, unit) world" where
  "connected =
     (let w = \<lparr>w_objs = [], w_atts = [], w_queues = [], w_node = newNode 0 0 2 ''e1'' (), w_writers = [], w_failed = [],
            w_closed = [], w_left = [], w_deleted = []\<rparr>;
          w = fst (NewClient exampleRuntime w (Some 100) None ''ws'');
          w = fst (NewClient exampleRuntime w (Some 101) None ''ws'');
          w = fst (NewClient exampleRuntime w (Some 102) (Some ProtobufMarshaler) ''quic'');
          w = fst (Attach exampleRuntime w 0 (Some 0) None)
      in w\<lparr>w_node := (w_node w)\<lparr>n_hub := fst (hub_Add numbered_ident (n_hub (w_node w)) 0)\<rparr>\<rparr>)"

definition takenOver :: "sptr \<Rightarrow> (memoryBroker, unit) world \<Rightarrow> (memoryBroker, unit) world" where
  "takenOver c w = (case takeoverBy exampleRuntime id undisturbed w c 0 None of Some (Inr (w, _)) \<Rightarrow> w | _ \<Rightarrow> w)"


lemma connected_run: "session_run exampleRuntime connected"
proof -
  let ?w0 = "\<lparr>w_objs = [], w_atts = [], w_queues = [], w_node = newNode 0 0 2 ''e1'' (), w_writers = [], w_failed = [],
            w_closed = [], w_left = [], w_deleted = []\<rparr> :: (memoryBroker, unit) world"
  let ?w1 = "fst (NewClient exampleRuntime ?w0 (Some 100) None ''ws'')"
  let ?w2 = "fst (NewClient exampleRuntime ?w1 (Some 101) None ''ws'')"
  let ?w3 = "fst (NewClient exampleRuntime ?w2 (Some 102) (Some ProtobufMarshaler) ''quic'')"
  have "session_run exampleRuntime ?w0" by (rule session_run.start) simp_all
  then have "session_run exampleRuntime ?w1" by (rule session_run.accept) simp
  then have "session_run exampleRuntime ?w2" by (rule session_run.accept) (simp add: NewClient_def Let_def less_Suc_eq)
  then have r: "session_run exampleRuntime ?w3"
    by (rule session_run.accept) (auto simp: NewClient_def Let_def less_Suc_eq nth_append)
  have st: "0 < length (w_objs ?w3)" "o_state (obj ?w3 0) = SessionAuthenticating" "o_delegate (obj ?w3 0) = None"
    "o_attachment (obj ?w3 0) = Some 0" by (simp_all add: NewClient_def Let_def nth_append)
  have "session_run exampleRuntime (fst (Attach exampleRuntime ?w3 0 (o_attachment (obj ?w3 0)) None))"
    by (rule session_run.attach [OF r st(1-3) prod.collapse [symmetric]])
  then show ?thesis unfolding connected_def Let_def st(4) by (rule session_run.node)
qed

text \<open>What the examples read off the state before and after the first takeover.\<close>

definition before_takeover :: "('b, 'c) world \<Rightarrow> bool" where
  "before_takeover w \<longleftrightarrow> 1 < length (w_objs w) \<and> o_state (obj w 1) = SessionAuthenticating \<and> o_delegate (obj w 1) = None \<and>
     0 < length (w_objs w) \<and> o_delegate (obj w 0) = None \<and> o_state (obj w 0) \<noteq> SessionAuthenticating"

definition after_takeover :: "('b, 'c) world \<Rightarrow> bool" where
  "after_takeover w \<longleftrightarrow> length (w_objs w) = 3 \<and> o_attachment (obj w 0) \<noteq> None \<and> o_state (obj w 0) = SessionAttached \<and>
     \<not> serves w 0 0 \<and> \<not> serves w 0 1 \<and> \<not> serves w 0 2 \<and> serves w 1 0"

lemma takenOver_returns:
  "takeoverBy exampleRuntime id undisturbed connected 1 0 None = goret (takenOver 1 connected, None)"
proof -
  have "(case takeoverBy exampleRuntime id undisturbed connected 1 0 None of Some (Inr (w, None)) \<Rightarrow> True | _ \<Rightarrow> False)" by code_simp
  then show ?thesis by (auto simp: takenOver_def goret_def split: option.splits sum.splits prod.splits)
qed

lemma takenOver_run: "session_run exampleRuntime (takenOver 1 connected)"
proof -
  have "before_takeover connected" by code_simp
  then have c: "1 < length (w_objs connected)" "o_state (obj connected 1) = SessionAuthenticating" "o_delegate (obj connected 1) = None"
    "0 < length (w_objs connected)" "o_delegate (obj connected 0) = None" "o_state (obj connected 0) \<noteq> SessionAuthenticating"
    unfolding before_takeover_def by blast+
  show ?thesis by (rule session_run.resume [OF connected_run c takenOver_returns])
qed

lemma takenOver_state: "after_takeover (takenOver 1 connected)"
  by code_simp


definition taken_by_second :: "('b, 'c) world \<Rightarrow> bool" where
  "taken_by_second w \<longleftrightarrow> serves w 2 0 \<and> \<not> serves w 1 0 \<and> o_state (obj w 0) = SessionAttached"



end
