(* ===== verification/SessionClose.thy ===== *)
theory SessionClose
  imports SessionLife
begin

text \<open>
  Closing a session on a node over the in-memory broker: the composition of \<^verbatim>\<open>SessionLife\<close>, which closes, with \<^verbatim>\<open>NodeRun\<close>,
  whose invariant ties the subscriptions of the sessions to the interests of the broker.
\<close>

definition unique_sessions :: "(sptr \<Rightarrow> sessIdent) \<Rightarrow> bool" where
  "unique_sessions I \<longleftrightarrow> inj (\<lambda>p. SessionID (I p))"

definition cluster_up :: "'c clusterOps \<Rightarrow> bool" where
  "cluster_up cops \<longleftrightarrow> (\<forall>c s l. snd (co_sync cops c s l) = None) \<and> (\<forall>c ch d. snd (co_adjust cops c ch d) = None)"

text \<open>A subscription is filed under the identifier of its session.\<close>

lemma record_own:
  assumes u: "unique_sessions I" and ok: "hub_ok I h" and r: "sub_record I h ch p = Some s"
  shows "sub_Session s = p"
proof (cases "IsWildcard ch")
  case True
  have ns: "namespaced ch" and l: "LookupSubscriber I h ch p = Some s" using r True by (auto simp: sub_record_def split: if_splits)
  obtain t where t: "mget (wcSubs h) (wcKey I p ch) = Some t" "s = Subscriber t"
    using l True by (auto simp: LookupSubscriber_def split: option.splits)
  have "wcKey I p ch = wcKey I (sub_Session s) (Topic t)" and nt: "namespaced (Topic t)"
    using t ok hub_okD [OF ok] unfolding wc_inv_def hub_ok_def by blast+
  then have "SessionID (I p) = SessionID (I (sub_Session s))"
    using wcKey_inject [OF namespaced_single_colon [OF ns] namespaced_single_colon [OF nt]] by blast
  then show ?thesis using u by (auto simp: unique_sessions_def dest: injD)
next
  case False
  then have "mget (exact h ch) (SessionID (I p)) = Some s" using r by (simp add: sub_record_def Lookup_exact)
  then obtain m where "mget (shard_subs (subShard_of h ch)) ch = Some m" "mget m (SessionID (I p)) = Some s"
    by (auto simp: exact_def mzero_def split: option.splits)
  then have "SessionID (I p) = SessionID (I (sub_Session s))" using exact_invD(5) hub_okD(3) [OF ok] by blast
  then show ?thesis using u by (auto simp: unique_sessions_def dest: injD)
qed

text \<open>With the cluster stores up, the cancellation of a subscription cannot fail.\<close>

lemma saga_succeeds:
  assumes "\<And>st s s' e. st \<in> set sts \<Longrightarrow> commit st s = goret (s', e) \<Longrightarrow> e = None" "sagaLoop executed sts s = goret (s', r)"
  shows "r = None"
  using assms
proof (induction sts arbitrary: executed s)
  case (Cons st sts)
  from Cons(3) obtain t e where t: "commit st s = goret (t, e)" by (auto simp: gobind_eq_goret)
  then have "e = None" using Cons(2) [of st] by auto
  then have "sagaLoop (st # executed) sts t = goret (s', r)" using Cons(3) t by simp
  then show ?case by (rule Cons(1) [rotated]) (rule Cons(2), auto)
qed simp

lemma brokerUnsubscribe_ok:
  "brokerUnsubscribe memBrokerOps n ch = goret (n', e) \<Longrightarrow> e = None"
  by (auto simp: brokerUnsubscribe_def memBrokerOps_def gobind_eq_goret)

lemma RemoveSubscription_succeeds:
  assumes up: "cluster_up cops" and ok: "hub_ok I (n_hub n)" and ns: "IsWildcard ch \<longrightarrow> namespaced ch"
    and run: "RemoveSubscription I memBrokerOps cops n ch p = goret (n', r)"
  shows "r = None"
proof (cases "LookupSubscriber I (n_hub n) ch p")
  case None
  then show ?thesis using run by (simp add: RemoveSubscription_def)
next
  case (Some sub)
  then have rec: "sub_record I (n_hub n) ch p = Some sub" using ns by (simp add: sub_record_def)
  have rm: "rmd" if "RemoveSub I (n_hub n) ch p = goret (h, lst, rmd)" for h lst rmd
    using RemoveSub_view [OF ok ns that] rec by simp
  obtain m f where "runSubSaga (removeSteps I memBrokerOps cops ch p sub) (n, False) = goret ((m, f), r)"
    by (rule mem.saga_result [of _ "\<lambda>n. n\<lparr>SubscriptionsTotal := SubscriptionsTotal n - 1\<rparr>" n' r])
      (use run Some in \<open>auto simp: RemoveSubscription_def\<close>)
  then obtain s' where loop: "sagaLoop [] (removeSteps I memBrokerOps cops ch p sub) (n, False) = goret (s', r)"
    by (auto simp: runSubSaga_def)
  obtain st sts where steps: "removeSteps I memBrokerOps cops ch p sub = st # sts"
    "commit st = (\<lambda>(n, _). gobind (RemoveSub I (n_hub n) ch p) (\<lambda>(h, lst, rmd).
        goret ((n\<lparr>n_hub := h\<rparr>, lst), if \<not> rmd then Some SubscriptionNotFound else None)))"
    "sts = tl (removeSteps I memBrokerOps cops ch p sub)"
    by (simp add: removeSteps_def)
  obtain t where t: "sagaLoop [st] sts t = goret (s', r)"
    using loop steps(1,2) by (auto simp: gobind_eq_goret dest!: rm split: if_splits)
  show ?thesis
  proof (rule saga_succeeds [OF _ t])
    fix st' x x' and e :: "interest_error subError option"
    assume "st' \<in> set sts" and c: "commit st' x = goret (x', e)"
    then have "st' \<in> set (tl (removeSteps I memBrokerOps cops ch p sub))" using steps(3) by simp
    then show "e = None" using c up brokerUnsubscribe_ok
      by (auto simp: removeSteps_def clusterSessionStep_def clusterChannelStep_def syncSession_def adjustClusterChannelSubscriptions_def
          cluster_up_def gobind_eq_goret Let_def split_beta split: if_splits)
  qed
qed

abbreviation of_session :: "(sptr \<Rightarrow> sessIdent) \<Rightarrow> sptr \<Rightarrow> string set \<Rightarrow> (string \<times> string) set" where
  "of_session I s chs \<equiv> {SessionID (I s)} \<times> chs"

lemma removeAll_spec:
  fixes rt :: "(memoryBroker, interest_error, 'c) sessionRuntime"
  assumes u: "unique_sessions (rt_ident rt)" and mem: "rt_broker rt = memBrokerOps"
    and inv: "mem_inv (rt_ident rt) n" and tidy: "hub_tidy (n_hub n)"
    and ns: "\<And>ch. ch \<in> set chs \<Longrightarrow> IsWildcard ch \<longrightarrow> namespaced ch"
  shows "\<exists>n'. removeAll rt s chs n = goret n' \<and> mem_inv (rt_ident rt) n' \<and> hub_tidy (n_hub n') \<and>
    live_subs (rt_ident rt) (n_hub n') \<subseteq> live_subs (rt_ident rt) (n_hub n) \<and>
    live_subs (rt_ident rt) (n_hub n) - of_session (rt_ident rt) s (set chs) \<subseteq> live_subs (rt_ident rt) (n_hub n') \<and>
    (cluster_up (rt_cluster rt) \<longrightarrow>
       live_subs (rt_ident rt) (n_hub n') = live_subs (rt_ident rt) (n_hub n) - of_session (rt_ident rt) s (set chs))"
  using inv tidy ns
proof (induction chs arbitrary: n)
  case (Cons ch chs)
  let ?I = "rt_ident rt"
  have ok: "hub_ok ?I (n_hub n)" using Cons(2) by (simp add: node_inv_def)
  have ns: "IsWildcard ch \<longrightarrow> namespaced ch" using Cons(4) by simp
  have own: "sub_Session x = s" if "sub_record ?I (n_hub n) ch s = Some x" for x by (rule record_own [OF u ok that])
  obtain n1 r where r: "RemoveSubscription ?I memBrokerOps (rt_cluster rt) n ch s = goret (n1, r)" "hub_tidy (n_hub n1)"
    using RemoveSubscription_returns [OF Cons(2,3) ns own] by blast
  have s1: "mem_inv ?I n1" "r \<noteq> None \<Longrightarrow> view ?I interest_count n1 = view ?I interest_count n"
    "r = None \<Longrightarrow> live_subs ?I (n_hub n1) = live_subs ?I (n_hub n) - {(SessionID (?I s), ch)}"
    using mem.RemoveSubscription_spec [OF Cons(2) ns own r(1)] by blast+
  have same: "live_subs ?I (n_hub n1) = live_subs ?I (n_hub n)" if "r \<noteq> None"
    using arg_cong [OF s1(2) [OF that], of v_live] by simp
  have live: "live_subs ?I (n_hub n1) \<subseteq> live_subs ?I (n_hub n)"
    "live_subs ?I (n_hub n) - {(SessionID (?I s), ch)} \<subseteq> live_subs ?I (n_hub n1)"
    "cluster_up (rt_cluster rt) \<Longrightarrow> live_subs ?I (n_hub n1) = live_subs ?I (n_hub n) - {(SessionID (?I s), ch)}"
    using same s1(3) RemoveSubscription_succeeds [OF _ ok ns r(1)] by (cases "r = None"; auto)+
  obtain n2 where n2: "removeAll rt s chs n1 = goret n2" "mem_inv ?I n2" "hub_tidy (n_hub n2)"
    "live_subs ?I (n_hub n2) \<subseteq> live_subs ?I (n_hub n1)"
    "live_subs ?I (n_hub n1) - of_session ?I s (set chs) \<subseteq> live_subs ?I (n_hub n2)"
    "cluster_up (rt_cluster rt) \<longrightarrow> live_subs ?I (n_hub n2) = live_subs ?I (n_hub n1) - of_session ?I s (set chs)"
    using Cons(1) [OF s1(1) r(2)] Cons(4) by auto
  have "removeAll rt s (ch # chs) n = goret n2" using r(1) n2(1) mem by simp
  moreover have "live_subs ?I (n_hub n) - of_session ?I s (set (ch # chs)) \<subseteq> live_subs ?I (n_hub n2)"
    using live(2) n2(5) by auto
  moreover have "live_subs ?I (n_hub n2) = live_subs ?I (n_hub n) - of_session ?I s (set (ch # chs))" if "cluster_up (rt_cluster rt)"
    using live(3) [OF that] n2(6) that by auto
  ultimately show ?case using n2(2-4) live(1) by blast
qed auto


text \<open>Unregistering a session leaves the subscriptions alone.\<close>

lemma Remove_frame:
  assumes "RemoveSessionIfMatches I h sid (Some s) = (h', b)"
  shows "hub_ok I h' = hub_ok I h" "live_subs I h' = live_subs I h" "sub_record I h' = sub_record I h" "LookupSession h' sid \<noteq> Some s"
proof -
  have same: "subShards h' = subShards h" "wcSubs h' = wcSubs h" "hub_matcher h' = hub_matcher h"
    using assms by (auto simp: RemoveSessionIfMatches_def Let_def split: option.splits if_splits)
  show "hub_ok I h' = hub_ok I h"
    unfolding hub_ok_def sub_inv_def exact_inv_def wc_inv_def patterns_def exact_def subShard_of_def same ..
  show "live_subs I h' = live_subs I h"
    unfolding live_subs_def exact_def subShard_of_def patterns_def same ..
  show "sub_record I h' = sub_record I h"
    unfolding sub_record_def LookupSubscriber_def subShard_of_def same fun_eq_iff by simp
  show "LookupSession h' sid \<noteq> Some s"
    using assms by (auto simp: RemoveSessionIfMatches_def LookupSession_def Let_def split: option.splits if_splits)
qed

lemma mem_inv_closed: "mem_inv I (n\<lparr>sess_closed := f\<rparr>) = mem_inv I n"
  by (simp add: node_inv_def)

text \<open>The live subscriptions of a session are on the channels it tracks.\<close>

lemma live_tracked:
  assumes u: "unique_sessions I" and inv: "mem_inv I n" and live: "(SessionID (I s), ch) \<in> live_subs I (n_hub n)"
  shows "ch \<in> set (map fst (tracked n s))"
proof -
  have ok: "hub_ok I (n_hub n)" using inv by (simp add: node_inv_def)
  obtain x where x: "sub_record I (n_hub n) ch s = Some x" using live live_record [OF ok] by blast
  then have "mget (tracked n s) ch \<noteq> None" using inv record_own [OF u ok x] by (auto simp: node_inv_def)
  then show ?thesis using mget_None_iff [of "tracked n s" ch] by simp
qed

lemma tracked_namespaced:
  assumes "mem_inv I n" "ch \<in> set (map fst (tracked n s))"
  shows "IsWildcard ch \<longrightarrow> namespaced ch"
proof -
  have "mget (tracked n s) ch \<noteq> None" using assms(2) mget_None_iff [of "tracked n s" ch] by simp
  then obtain x where "sub_record I (n_hub n) ch s = Some x" using assms(1) by (auto simp: node_inv_def)
  then show ?thesis by (auto simp: sub_record_def split: if_splits)
qed

text \<open>
  (C13) Closing a session on a node with the in-memory broker always returns. Afterwards the session is closed, has no
  transport and is no longer registered; the subscriptions of all other sessions are as before, and the interests
  held at the broker are exactly those of the subscriptions that remain. When the cluster stores answer, none of its
  own subscriptions remains.
\<close>

theorem close_complete:
  fixes rt :: "(memoryBroker, interest_error, 'c) sessionRuntime"
  assumes "session_run rt w" "s < length (w_objs w)" "o_delegate (obj w s) = None" "o_state (obj w s) \<noteq> SessionClosed"
    and "node_run (rt_ident rt) (rt_cluster rt) routable (w_node w)" "rt_broker rt = memBrokerOps"
    and "unique_sessions (rt_ident rt)" "SessionID (rt_ident rt s) \<noteq> []" "\<And>xs. set (order xs) = set xs"
  shows "\<exists>w'. session_Close rt order w s reason = goret w' \<and>
    o_state (obj w' s) = SessionClosed \<and> o_attachment (obj w' s) = None \<and>
    LookupSession (n_hub (w_node w')) (SessionID (rt_ident rt s)) \<noteq> Some s \<and>
    live_subs (rt_ident rt) (n_hub (w_node w')) - of_session (rt_ident rt) s UNIV =
      live_subs (rt_ident rt) (n_hub (w_node w)) - of_session (rt_ident rt) s UNIV \<and>
    interest_count (n_broker (w_node w')) = interests (live_subs (rt_ident rt) (n_hub (w_node w'))) \<and>
    (cluster_up (rt_cluster rt) \<longrightarrow> live_subs (rt_ident rt) (n_hub (w_node w')) \<inter> of_session (rt_ident rt) s UNIV = {})"
proof -
  let ?I = "rt_ident rt" and ?n = "w_node w"
  have winv: "world_inv w" using assms(1) by (rule session_run_inv)
  have inv: "mem_inv ?I ?n" and tidy: "hub_tidy (n_hub ?n)" using node_run_inv [OF assms(5)] node_run_tidy [OF assms(5)] by blast+
  define chs where "chs = order (map fst (tracked ?n s))"
  have chs: "set chs = set (map fst (tracked ?n s))" using assms(9) by (simp add: chs_def)
  let ?w1 = "leaveAll rt s chs (shutLocked w s)"
  have n1: "w_node ?w1 = ?n\<lparr>sess_closed := (sess_closed ?n)(s := True)\<rparr>" by (simp add: shutLocked_def)
  obtain n2 where n2: "removeAll rt s chs (w_node ?w1) = goret n2" "mem_inv ?I n2"
    "live_subs ?I (n_hub n2) \<subseteq> live_subs ?I (n_hub ?n)"
    "live_subs ?I (n_hub ?n) - of_session ?I s (set chs) \<subseteq> live_subs ?I (n_hub n2)"
    "cluster_up (rt_cluster rt) \<longrightarrow> live_subs ?I (n_hub n2) = live_subs ?I (n_hub ?n) - of_session ?I s (set chs)"
    using removeAll_spec [OF assms(7,6), of "w_node ?w1" chs s] inv tidy tracked_namespaced [OF inv] unfolding n1 chs mem_inv_closed by auto
  obtain h b where h: "RemoveSessionIfMatches ?I (n_hub n2) (SessionID (?I s)) (Some s) = (h, b)" by fastforce
  note frame = Remove_frame [OF h]
  have canon: "canonical w s = s" using assms(3) by (simp add: canonical_def)
  have "closeOwn rt order w s reason = goret (closeTransport (o_attachment (obj w s)) reason
      (?w1\<lparr>w_node := n2\<lparr>n_hub := h\<rparr>, w_deleted := (if b then w_deleted ?w1 @ [SessionID (?I s)] else w_deleted ?w1)\<rparr>))"
    using assms(4,8) n2(1) h by (simp add: closeOwn_def Let_def chs_def [symmetric])
  then obtain w' where w': "session_Close rt order w s reason = goret w'" "w_node w' = n2\<lparr>n_hub := h\<rparr>"
    unfolding session_Close_def closeRoute_canonical(1) [OF winv assms(2)] canon by simp
  have "closes_object w s w'" using session_Close_shape [OF winv assms(2) w'(1)] canon assms(4) by simp
  then have st: "o_state (obj w' s) = SessionClosed" "o_attachment (obj w' s) = None" using assms(2) by (simp_all add: closes_object_def)
  have tracked_all: "ch \<in> set chs" if "(SessionID (?I s), ch) \<in> live_subs ?I (n_hub ?n)" for ch
    using live_tracked [OF assms(7) inv that] chs by simp
  have cnt: "interest_count (n_broker n2) = interests (live_subs ?I (n_hub n2))" using n2(2) by (simp add: node_inv_def)
  have "live_subs ?I (n_hub n2) - of_session ?I s UNIV = live_subs ?I (n_hub ?n) - of_session ?I s UNIV"
    using n2(3,4) by auto
  moreover have "cluster_up (rt_cluster rt) \<longrightarrow> live_subs ?I (n_hub n2) \<inter> of_session ?I s UNIV = {}"
    using n2(5) tracked_all by auto
  ultimately show ?thesis using w' st frame(2,4) cnt by auto
qed


section \<open>Examples\<close>

lemma unique_numbered: "unique_sessions numbered_ident"
  by (auto simp: unique_sessions_def inj_def numbered_ident_def dest: arg_cong [of _ _ length])

definition subscribedNode :: "(memoryBroker, unit) nodeState" where
  "subscribedNode = (case AddSubscription numbered_ident memBrokerOps unitCluster (newNode 0 0 2 ''e1'' ()) ''acme:lobby''
     (NewSubscriber 0 False) of Some (Inr (n, _)) \<Rightarrow> n | _ \<Rightarrow> newNode 0 0 2 ''e1'' ())"

lemma subscribedNode_run: "node_run numbered_ident unitCluster routable subscribedNode"
proof -
  have "(case AddSubscription numbered_ident memBrokerOps unitCluster (newNode 0 0 2 ''e1'' ()) ''acme:lobby'' (NewSubscriber 0 False) of
      Some (Inr (n, r)) \<Rightarrow> True | _ \<Rightarrow> False)" by code_simp
  then obtain r where "AddSubscription numbered_ident memBrokerOps unitCluster (newNode 0 0 2 ''e1'' ()) ''acme:lobby'' (NewSubscriber 0 False) =
      goret (subscribedNode, r)"
    by (auto simp: subscribedNode_def goret_def split: option.splits sum.splits prod.splits)
  moreover have "\<not> IsWildcard ''acme:lobby''" by code_simp
  ultimately show ?thesis by (intro node_run.add [OF node_run.start]) auto
qed

theorem close_complete_witness:
  "(SessionID (numbered_ident 0), ''acme:lobby'') \<in> live_subs numbered_ident (n_hub subscribedNode) \<and>
   (\<exists>w'. session_Close exampleRuntime id (connected\<lparr>w_node := subscribedNode\<rparr>) 0 noDisconnect = goret w' \<and>
     o_state (obj w' 0) = SessionClosed \<and>
     live_subs numbered_ident (n_hub (w_node w')) \<inter> of_session numbered_ident 0 UNIV = {})"
proof -
  let ?w = "connected\<lparr>w_node := subscribedNode\<rparr>"
  have "session_run exampleRuntime ?w" by (rule session_run.node [OF connected_run])
  moreover have "0 < length (w_objs ?w)" "o_delegate (obj ?w 0) = None" "o_state (obj ?w 0) \<noteq> SessionClosed" by code_simp+
  moreover have "cluster_up unitCluster" by (simp add: cluster_up_def unitCluster_def)
  moreover have "rt_ident exampleRuntime = numbered_ident" "rt_broker exampleRuntime = memBrokerOps" "rt_cluster exampleRuntime = unitCluster"
    "SessionID (numbered_ident 0) \<noteq> []" by (simp_all add: exampleRuntime_def numbered_ident_def)
  moreover have "(SessionID (numbered_ident 0), ''acme:lobby'') \<in> live_subs numbered_ident (n_hub subscribedNode)"
  proof -
    have "hub_ok numbered_ident (n_hub subscribedNode)" using node_run_inv [OF subscribedNode_run] by (simp add: node_inv_def)
    moreover have "LookupSubscriber numbered_ident (n_hub subscribedNode) ''acme:lobby'' 0 \<noteq> None" "\<not> IsWildcard ''acme:lobby''" by code_simp+
    ultimately show ?thesis using live_record by (auto simp: sub_record_def)
  qed
  ultimately show ?thesis
    using close_complete [of exampleRuntime ?w 0 id noDisconnect] subscribedNode_run unique_numbered by auto
qed


end
