(* ===== verification/Spec2Isabelle.thy ===== *)
theory Spec2Isabelle
  imports Base Topics CSTrie Policy Interest Authorizer MemoryBroker Strconv NodeEpoch ClusterHmac
    Framing Survey Router Wire Recover SessionGate Hub HubSubs Broadcast NodeSubs NodeRun ClusterDirectory ClusterState ClusterRepair
    SendQueue SessionLife SessionClose
begin

text \<open>
  A verification development of messageloop, a realtime messaging server in Go: clients hold sessions on a node,
  subscribe to channels and patterns, and receive what is published; nodes share sessions through a directory.

  \<^bold>\<open>How the parts interact.\<close> A transport frames bytes (\<^verbatim>\<open>Framing\<close>) and hands messages to a session. The gate
  (\<^verbatim>\<open>SessionGate\<close>) admits a message to its handler; the authorizer (\<^verbatim>\<open>Authorizer\<close>) decides about channels. A
  subscription is entered in the hub (\<^verbatim>\<open>Hub\<close>, \<^verbatim>\<open>HubSubs\<close>), tracked on the session, announced to the broker
  (\<^verbatim>\<open>MemoryBroker\<close>) and to the cluster by a saga of the node (\<^verbatim>\<open>NodeSubs\<close>, \<^verbatim>\<open>NodeRun\<close>). A publication is
  stored and handed over by the broker, and the hub fans it out (\<^verbatim>\<open>Broadcast\<close>) to the outbound queues of the
  sessions (\<^verbatim>\<open>SendQueue\<close>). A connection that breaks is replaced by a takeover (\<^verbatim>\<open>SessionLife\<close>) or, on another node, by
  a resume through the directory (\<^verbatim>\<open>ClusterDirectory\<close>, \<^verbatim>\<open>ClusterState\<close>), after which missed publications are recovered
  (\<^verbatim>\<open>Recover\<close>).

  \<^bold>\<open>Theories and sources\<close> (paths under \<^verbatim>\<open>src/\<close>).

  \<^item> \<^verbatim>\<open>Base\<close>: the prelude, Go maps as association lists, panics and non-termination as the type \<open>go\<close>.
  \<^item> \<^verbatim>\<open>Topics\<close>, \<^verbatim>\<open>CSTrie\<close>: \<^verbatim>\<open>pkg/topics\<close>. The index loops of \<^verbatim>\<open>matchCriteria\<close> decide a recursive pattern language;
    the copy-on-write trie refines a set of pattern and subscriber pairs.
  \<^item> \<^verbatim>\<open>Policy\<close>, \<^verbatim>\<open>Interest\<close>: \<^verbatim>\<open>internal/channel\<close>. Compiled interests route exactly the matching channels.
  \<^item> \<^verbatim>\<open>Authorizer\<close>: \<^verbatim>\<open>internal/authz\<close>. Intersection of pattern languages, decisions, revocation after a change of rules.
  \<^item> \<^verbatim>\<open>MemoryBroker\<close>: \<^verbatim>\<open>internal/stream\<close>. Rings, offsets, history, reference-counted interests, ordered delivery.
  \<^item> \<^verbatim>\<open>Strconv\<close>, \<^verbatim>\<open>NodeEpoch\<close>, \<^verbatim>\<open>ClusterHmac\<close>: \<^verbatim>\<open>internal/cluster/epoch.go\<close> and \<^verbatim>\<open>hmac/hmac.go\<close>. Incarnations and signed commands.
  \<^item> \<^verbatim>\<open>Framing\<close>: \<^verbatim>\<open>protocol/streamframe.go\<close>, \<^verbatim>\<open>pkg/transport/framing\<close>, \<^verbatim>\<open>internal/wire/disconnect.go\<close>.
  \<^item> \<^verbatim>\<open>Survey\<close>, \<^verbatim>\<open>Router\<close>: \<^verbatim>\<open>internal/survey\<close>, \<^verbatim>\<open>internal/proxy/router.go\<close>.
  \<^item> \<^verbatim>\<open>Wire\<close>, \<^verbatim>\<open>Recover\<close>: messages and \<^verbatim>\<open>internal/runtime/recover.go\<close>. What a recovery delivers, and its quota.
  \<^item> \<^verbatim>\<open>SessionGate\<close>: \<^verbatim>\<open>internal/session/namespace.go\<close> and the dispatch of \<^verbatim>\<open>client.go\<close>. Namespace isolation.
  \<^item> \<^verbatim>\<open>Hub\<close>, \<^verbatim>\<open>HubSubs\<close>, \<^verbatim>\<open>Broadcast\<close>: \<^verbatim>\<open>internal/session/hub.go\<close>. Registry, subscriptions, fan-out.
  \<^item> \<^verbatim>\<open>NodeSubs\<close>, \<^verbatim>\<open>NodeRun\<close>: \<^verbatim>\<open>internal/runtime/subscription_saga.go\<close> and the subscription operations of \<^verbatim>\<open>node.go\<close>.
    Sagas are atomic, the parts of a node stay consistent, and the operations return.
  \<^item> \<^verbatim>\<open>ClusterDirectory\<close>, \<^verbatim>\<open>ClusterState\<close>, \<^verbatim>\<open>ClusterRepair\<close>: \<^verbatim>\<open>internal/cluster/state.go\<close>, \<^verbatim>\<open>sim/directory.go\<close> and
    \<^verbatim>\<open>internal/runtime/cluster_state.go\<close>, \<^verbatim>\<open>cluster_resume.go\<close>, \<^verbatim>\<open>cluster_user_index.go\<close>, \<^verbatim>\<open>cluster_repair.go\<close>. Fencing by
    compare-and-swap under arbitrary interference of other nodes; membership and the user index.
  \<^item> \<^verbatim>\<open>SendQueue\<close>, \<^verbatim>\<open>SessionLife\<close>, \<^verbatim>\<open>SessionClose\<close>: \<^verbatim>\<open>internal/session/session.go\<close>, \<^verbatim>\<open>takeover.go\<close> and \<^verbatim>\<open>NewClient\<close>. The queue under
    every interleaving; which connection may close which session; closing composed with the node.

  \<^bold>\<open>State and steps.\<close> A struct is a record, an object with identity is an index into a store (\<open>world\<close>, the rings of the
  broker), and a mutex-protected section is one step. Where a lock is released between two sections, the operation
  takes the interference as a parameter (\<open>env\<close>, \<open>gap\<close>), so that a theorem about it covers every such interference;
  counterexamples give a concrete one. Go map iteration and worker pools appear as an order that is a parameter
  or that no theorem mentions. Histories are inductive predicates (\<open>history\<close>, \<open>registry\<close>, \<open>subscriptions\<close>, \<open>node_run\<close>,
  \<open>writer_run\<close>, \<open>session_run\<close>), and their invariants are proved by rule induction.

  \<^bold>\<open>Interfaces.\<close> The broker a node relies on is the locale \<open>interest_broker\<close>, interpreted by the in-memory broker; the
  directory is \<open>session_directory\<close>, interpreted by the in-memory directory; the history a recovery reads is
  \<open>history_source\<close>, interpreted by the in-memory broker.

  \<^bold>\<open>Bounds and fuel.\<close> The retry loops of the trie are partial functions: that they return is proved on tries
  without tombs, which is what a node has as long as the broker accepts the patterns presented to it. The search
  for the canonical session (\<open>closeRoute\<close>) has as much fuel as there are objects, and a longer chain is a cycle. Offsets,
  lease versions and timeouts are 64-bit words and wrap as in Go; offsets at the end of their range are excluded by
  hypotheses where a theorem needs it.

  \<^bold>\<open>Not modelled.\<close> The client message handlers beyond the gate, the heartbeat timers, the broadcast batcher and the cluster
  command dispatch run on timers, rate limiters and remote calls around the operations modelled here. The Redis
  backend, transports, proxies, server API, client SDK, metrics and the server command are adapters of services and
  third-party libraries whose behaviour is not in the sources; the contracts they rely on or implement appear as
  locales and parameters. Contexts, log lines, metrics other than the subscription gauges, and error texts
  are left out throughout. Contention between two compare-and-swaps of the trie is not modelled: its operations are
  run one at a time.
\<close>

end
